(* ===== verification/Prelude.thy ===== *)
theory Prelude
  imports Main "HOL-Library.Word"
begin

text \<open>
  Shared vocabulary of the development.

  \<^item> machine integers of \<^verbatim>\<open>kernel/types.h\<close> as words;
  \<^item> \<open>outcome\<close>: what running a piece of kernel code leads to.  \<open>Ok\<close> is a normal return,
    \<open>Panic\<close> is a call of \<^verbatim>\<open>panic()\<close> (which never returns), \<open>Switch\<close> is a call that has given up
    the CPU and switched to the scheduler, and \<open>Spin\<close> is a loop
    that never ends;
  \<^item> \<open>andThen\<close>: C's sequencing of statements, explicit in the state;
  \<^item> \<open>runs\<close> and \<open>safe\<close>: total and partial correctness of an outcome;
  \<^item> \<open>foreach\<close>: a counted C loop whose body may fail;
  \<^item> \<open>first_index\<close>: the \<^verbatim>\<open>for\<close> loop that looks for the first entry of a table, which half of the
    kernel's allocators are built on;
  \<^item> an interface of transition systems with an inductive invariant, shared by the
    interleaving models.
\<close>

unbundle bit_operations_syntax

named_theorems kdefs
named_theorems kruns

section \<open>Machine integers\<close>

type_synonym byte = "8 word"
type_synonym uint16 = "16 word"
type_synonym uint32 = "32 word"
type_synonym uint64 = "64 word"

section \<open>Outcomes\<close>

datatype ('s, 'a) outcome = Ok 'a 's | Panic string | Switch 's | Spin

primrec andThen :: "('s, 'a) outcome \<Rightarrow> ('a \<Rightarrow> 's \<Rightarrow> ('s, 'b) outcome) \<Rightarrow> ('s, 'b) outcome" where
  "andThen (Ok x s) f = f x s"
| "andThen (Panic m) f = Panic m"
| "andThen (Switch s) f = Switch s"
| "andThen Spin f = Spin"

primrec runs :: "('s, 'a) outcome \<Rightarrow> ('a \<Rightarrow> 's \<Rightarrow> bool) \<Rightarrow> bool" where
  "runs (Ok x s) P = P x s"
| "runs (Panic m) P = False"
| "runs (Switch s) P = False"
| "runs Spin P = False"

primrec safe :: "('s, 'a) outcome \<Rightarrow> ('a \<Rightarrow> 's \<Rightarrow> bool) \<Rightarrow> bool" where
  "safe (Ok x s) P = P x s"
| "safe (Panic m) P = True"
| "safe (Switch s) P = True"
| "safe Spin P = True"

fun foreach :: "'b list \<Rightarrow> ('b \<Rightarrow> 's \<Rightarrow> ('s, unit) outcome) \<Rightarrow> 's \<Rightarrow> ('s, unit) outcome" where
  "foreach [] body s = Ok () s"
| "foreach (x # xs) body s = andThen (body x s) (\<lambda>_ s. foreach xs body s)"

lemma andThen_cong [fundef_cong]:
  assumes "m = m'" and "\<And>x s. m' = Ok x s \<Longrightarrow> f x s = g x s"
  shows "andThen m f = andThen m' g"
  using assms by (cases m') auto

lemma andThen_eq_Ok [simp]:
  "(andThen m f = Ok y t) \<longleftrightarrow> (\<exists>x s. m = Ok x s \<and> f x s = Ok y t)"
  by (cases m) auto

lemma runs_andThen [simp]: "runs (andThen m f) P \<longleftrightarrow> runs m (\<lambda>x s. runs (f x s) P)"
  by (cases m) auto

lemma safe_andThen [simp]: "safe (andThen m f) P \<longleftrightarrow> safe m (\<lambda>x s. safe (f x s) P)"
  by (cases m) auto

lemma andThen_assoc: "andThen (andThen m f) g = andThen m (\<lambda>x s. andThen (f x s) g)"
  by (cases m) auto

lemma runs_iff: "runs m P \<longleftrightarrow> (\<exists>x s. m = Ok x s \<and> P x s)"
  by (cases m) auto

lemma safe_iff: "safe m P \<longleftrightarrow> (\<forall>x s. m = Ok x s \<longrightarrow> P x s)"
  by (cases m) auto

lemma runs_mono: "runs m P \<Longrightarrow> (\<And>x s. P x s \<Longrightarrow> Q x s) \<Longrightarrow> runs m Q"
  by (cases m) auto

lemma safe_mono: "safe m P \<Longrightarrow> (\<And>x s. P x s \<Longrightarrow> Q x s) \<Longrightarrow> safe m Q"
  by (cases m) auto

lemma runs_conj: "runs m P \<Longrightarrow> safe m Q \<Longrightarrow> runs m (\<lambda>x s. P x s \<and> Q x s)"
  by (cases m) auto

lemma safe_conj: "safe m P \<Longrightarrow> safe m Q \<Longrightarrow> safe m (\<lambda>x s. P x s \<and> Q x s)"
  by (cases m) auto

lemma runs_safe: "runs m P \<Longrightarrow> safe m P"
  by (cases m) auto

lemma runs_if [simp]:
  "runs (if c then m else m') P \<longleftrightarrow> (c \<longrightarrow> runs m P) \<and> (\<not> c \<longrightarrow> runs m' P)"
  by simp

lemma safe_if [simp]:
  "safe (if c then m else m') P \<longleftrightarrow> (c \<longrightarrow> safe m P) \<and> (\<not> c \<longrightarrow> safe m' P)"
  by simp

text \<open>A counted loop keeps what every iteration keeps.\<close>

lemma foreach_inv_runs:
  assumes "I s" and "\<And>x s. x \<in> set xs \<Longrightarrow> I s \<Longrightarrow> runs (body x s) (\<lambda>_. I)"
  shows "runs (foreach xs body s) (\<lambda>_. I)"
  using assms
proof (induction xs arbitrary: s)
  case (Cons x xs)
  have "runs (body x s) (\<lambda>_. I)"
    using Cons.prems by simp
  then show ?case
    by (auto intro!: Cons.IH elim!: runs_mono simp: Cons.prems(2))
qed simp

lemma foreach_inv_safe:
  assumes "I s" and "\<And>x s. x \<in> set xs \<Longrightarrow> I s \<Longrightarrow> safe (body x s) (\<lambda>_. I)"
  shows "safe (foreach xs body s) (\<lambda>_. I)"
  using assms
proof (induction xs arbitrary: s)
  case (Cons x xs)
  have "safe (body x s) (\<lambda>_. I)"
    using Cons.prems by simp
  then show ?case
    by (auto intro!: Cons.IH elim!: safe_mono simp: Cons.prems(2))
qed simp

lemma foreach_append:
  "foreach (xs @ ys) body s = andThen (foreach xs body s) (\<lambda>_ s. foreach ys body s)"
  by (induction xs arbitrary: s) (auto simp: andThen_assoc intro!: andThen_cong)

section \<open>Searching a table\<close>

text \<open>
  \<^verbatim>\<open>for(i = 0; i < N; i++) if(P(a[i])) ...\<close>: the index of the first entry with the
  property, if there is one.
\<close>

fun first_index :: "('a \<Rightarrow> bool) \<Rightarrow> 'a list \<Rightarrow> nat option" where
  "first_index P [] = None"
| "first_index P (x # xs) = (if P x then Some 0 else map_option Suc (first_index P xs))"

lemma first_index_None: "first_index P xs = None \<longleftrightarrow> (\<forall>x \<in> set xs. \<not> P x)"
  by (induction xs) auto

lemma first_index_Some:
  "first_index P xs = Some i \<longleftrightarrow>
     i < length xs \<and> P (xs ! i) \<and> (\<forall>j < i. \<not> P (xs ! j))"
proof (induction xs arbitrary: i)
  case (Cons x xs)
  show ?case
  proof (cases i)
    case 0
    then show ?thesis by simp
  next
    case (Suc k)
    have "(\<forall>j < Suc k. \<not> P ((x # xs) ! j)) \<longleftrightarrow> \<not> P x \<and> (\<forall>j < k. \<not> P (xs ! j))"
      by (simp add: All_less_Suc2)
    then show ?thesis
      using Suc Cons.IH [of k] by auto
  qed
qed simp

lemma first_index_SomeD:
  assumes "first_index P xs = Some i"
  shows "i < length xs" and "P (xs ! i)" and "\<And>j. j < i \<Longrightarrow> \<not> P (xs ! j)"
  using assms by (auto simp: first_index_Some)

lemma first_index_ex: "(\<exists>i. first_index P xs = Some i) \<longleftrightarrow> (\<exists>x \<in> set xs. P x)"
  using first_index_None [of P xs] by (cases "first_index P xs") auto

section \<open>Lists\<close>

lemma rotate_to_front:
  assumes "i < length xs"
  shows "drop i xs @ take i xs = xs ! i # drop (Suc i) xs @ take i xs"
  using assms by (simp add: Cons_nth_drop_Suc [symmetric])

lemma count_update_bool:
  assumes "i < length xs" and "\<not> P (xs ! i)" and "P y"
  shows "length (filter P (xs[i := y])) = Suc (length (filter P xs))"
proof -
  have "length (filter P xs) = length (filter P (take i xs @ xs ! i # drop (Suc i) xs))"
    using id_take_nth_drop [OF assms(1)] by simp
  also have "\<dots> = length (filter P (take i xs)) + length (filter P (drop (Suc i) xs))"
    using assms(2) by simp
  finally show ?thesis
    using assms(1,3) by (simp add: upd_conv_take_nth_drop)
qed

lemma find_SomeD: "find P xs = Some x \<Longrightarrow> x \<in> set xs \<and> P x"
  by (auto simp: find_Some_iff)

lemma find_unique:
  assumes "x \<in> set xs" and "P x" and "\<And>y. y \<in> set xs \<Longrightarrow> P y \<Longrightarrow> y = x"
  shows "find P xs = Some x"
proof (cases "find P xs")
  case None
  then show ?thesis
    using assms(1,2) by (simp add: find_None_iff)
next
  case (Some y)
  then show ?thesis
    using assms(3) find_SomeD [OF Some] by simp
qed

section \<open>Transition systems with an inductive invariant\<close>

text \<open>
  The interleaving models of the development are step relations; what they promise is
  an invariant that holds at the start and that every step keeps.  The interface is
  stated once, and every model interprets it.
\<close>

inductive reachable :: "('s \<Rightarrow> bool) \<Rightarrow> ('s \<Rightarrow> 's \<Rightarrow> bool) \<Rightarrow> 's \<Rightarrow> bool"
  for init :: "'s \<Rightarrow> bool" and step :: "'s \<Rightarrow> 's \<Rightarrow> bool" where
  reach_init: "init s \<Longrightarrow> reachable init step s"
| reach_step: "reachable init step s \<Longrightarrow> step s t \<Longrightarrow> reachable init step t"

locale invariant_system =
  fixes init :: "'s \<Rightarrow> bool"
    and step :: "'s \<Rightarrow> 's \<Rightarrow> bool"
    and inv :: "'s \<Rightarrow> bool"
  assumes init_inv: "init s \<Longrightarrow> inv s"
    and step_inv: "inv s \<Longrightarrow> step s t \<Longrightarrow> inv t"
begin

lemma reachable_inv: "reachable init step s \<Longrightarrow> inv s"
proof (induction rule: reachable.induct)
  case (reach_init s)
  then show ?case by (rule init_inv)
next
  case (reach_step s t)
  then show ?case by (blast intro: step_inv)
qed

lemma reachable_implies:
  "reachable init step s \<Longrightarrow> (\<And>s. inv s \<Longrightarrow> P s) \<Longrightarrow> P s"
  by (blast dest: reachable_inv)

end

end
