(* ===== verification/Locks.thy ===== *)
theory Locks
  imports Prelude
begin

text \<open>
  Spin locks as the rest of the kernel uses them (\<^verbatim>\<open>kernel/spinlock.c\<close>), seen from the one hart
  whose code is being followed: the stack of locks it holds.  \<^verbatim>\<open>acquire()\<close> panics on a lock
  the hart already holds, \<^verbatim>\<open>release()\<close> on one it does not hold, and the length of the stack is
  the nesting depth \<^verbatim>\<open>noff\<close> that \<^verbatim>\<open>sched()\<close> checks.  The lock word with its atomic swap, several harts and the
  interrupt state are in theory \<open>Spinlock\<close>, which proves that they implement the view given here.

  Every lock of the kernel has a name in \<open>lockid\<close>.
\<close>

datatype sleepid = SL_buf nat | SL_inode nat

datatype lockid =
    L_kmem | L_lru | L_swap | L_bcache | L_log | L_itable | L_ftable
  | L_pid | L_wait | L_ticks | L_cons | L_uart | L_pr | L_vdisk
  | L_proc nat | L_sleep sleepid | L_pipe "64 word"

record kbase =
  held :: "lockid list"

definition holding :: "lockid \<Rightarrow> 'a kbase_scheme \<Rightarrow> bool" where
  "holding lk s = (lk \<in> set (held s))"

definition acquire :: "lockid \<Rightarrow> 'a kbase_scheme \<Rightarrow> ('a kbase_scheme, unit) outcome" where
  "acquire lk s =
     (if holding lk s then Panic ''acquire'' else Ok () (s\<lparr>held := lk # held s\<rparr>))"

definition release :: "lockid \<Rightarrow> 'a kbase_scheme \<Rightarrow> ('a kbase_scheme, unit) outcome" where
  "release lk s =
     (if holding lk s then Ok () (s\<lparr>held := remove1 lk (held s)\<rparr>) else Panic ''release'')"

text \<open>Code that runs with the lock taken and gives it back: \<^verbatim>\<open>acquire(lk); ...; release(lk);\<close>\<close>

definition with_lock ::
  "lockid \<Rightarrow> ('a kbase_scheme \<Rightarrow> ('a kbase_scheme, 'b) outcome) \<Rightarrow> 'a kbase_scheme \<Rightarrow>
   ('a kbase_scheme, 'b) outcome" where
  "with_lock lk body s =
     andThen (acquire lk s) (\<lambda>_ s.
     andThen (body s) (\<lambda>r s.
     andThen (release lk s) (\<lambda>_ s. Ok r s)))"

lemma acquire_Ok [simp]:
  "lk \<notin> set (held s) \<Longrightarrow> acquire lk s = Ok () (s\<lparr>held := lk # held s\<rparr>)"
  by (simp add: acquire_def holding_def)

lemma release_Ok [simp]:
  "lk \<in> set (held s) \<Longrightarrow> release lk s = Ok () (s\<lparr>held := remove1 lk (held s)\<rparr>)"
  by (simp add: release_def holding_def)

lemma acquire_runs [simp]:
  "runs (acquire lk s) P \<longleftrightarrow> lk \<notin> set (held s) \<and> P () (s\<lparr>held := lk # held s\<rparr>)"
  by (auto simp: acquire_def holding_def)

lemma release_runs [simp]:
  "runs (release lk s) P \<longleftrightarrow> lk \<in> set (held s) \<and> P () (s\<lparr>held := remove1 lk (held s)\<rparr>)"
  by (auto simp: release_def holding_def)

lemma acquire_eq_Ok:
  "acquire lk s = Ok x t \<longleftrightarrow> lk \<notin> set (held s) \<and> t = s\<lparr>held := lk # held s\<rparr>"
  by (auto simp: acquire_def holding_def)

lemma release_eq_Ok:
  "release lk s = Ok x t \<longleftrightarrow> lk \<in> set (held s) \<and> t = s\<lparr>held := remove1 lk (held s)\<rparr>"
  by (auto simp: release_def holding_def)

text \<open>
  A body that keeps the stack of held locks, run under a lock, keeps it as well; it needs
  the lock to be free.
\<close>

lemma with_lock_runs:
  "runs (with_lock lk body s) P \<longleftrightarrow>
     lk \<notin> set (held s) \<and>
     runs (body (s\<lparr>held := lk # held s\<rparr>)) (\<lambda>r t.
       lk \<in> set (held t) \<and> P r (t\<lparr>held := remove1 lk (held t)\<rparr>))"
  by (simp add: with_lock_def)

lemma with_lock_balanced:
  assumes "\<And>s. safe (body s) (\<lambda>_ t. held t = held s)"
  shows "safe (with_lock lk body s) (\<lambda>_ t. held t = held s)"
proof -
  have "safe (body (s\<lparr>held := lk # held s\<rparr>)) (\<lambda>_ t. held t = lk # held s)"
    using assms [of "s\<lparr>held := lk # held s\<rparr>"] by simp
  then show ?thesis
    by (auto simp: with_lock_def acquire_def release_def holding_def elim!: safe_mono)
qed

end
