(* ===== verification/Riscv.thy ===== *)
theory Riscv
  imports Prelude
begin

text \<open>
  The machine the kernel runs on, as \<^verbatim>\<open>kernel/riscv.h\<close> and \<^verbatim>\<open>kernel/memlayout.h\<close> describe it:
  page arithmetic, page-table entries of the Sv39 scheme, and byte-addressed physical
  memory with 64-bit little-endian loads and stores.  Page-table pages, trapframes,
  the free list and user pages all live in the one memory, so aliasing between them is
  visible to every theorem.
\<close>

section \<open>Constants and macros\<close>

abbreviation (input) PGSIZE :: uint64 where "PGSIZE \<equiv> 4096"
abbreviation (input) MAXVA :: uint64 where "MAXVA \<equiv> 0x4000000000"
abbreviation (input) TRAMPOLINE :: uint64 where "TRAMPOLINE \<equiv> 0x3FFFFFF000"
abbreviation (input) TRAPFRAME :: uint64 where "TRAPFRAME \<equiv> 0x3FFFFFE000"
abbreviation (input) KERNBASE :: uint64 where "KERNBASE \<equiv> 0x80000000"
abbreviation (input) PHYSTOP :: uint64 where "PHYSTOP \<equiv> 0x88000000"

definition KSTACK :: "nat \<Rightarrow> uint64" where
  "KSTACK p = TRAMPOLINE - (of_nat p + 1) * 2 * PGSIZE"

definition PGROUNDUP :: "uint64 \<Rightarrow> uint64" where
  "PGROUNDUP sz = (sz + PGSIZE - 1) AND NOT (PGSIZE - 1)"

definition PGROUNDDOWN :: "uint64 \<Rightarrow> uint64" where
  "PGROUNDDOWN a = a AND NOT (PGSIZE - 1)"

abbreviation (input) PTE_V :: uint64 where "PTE_V \<equiv> 1"
abbreviation (input) PTE_R :: uint64 where "PTE_R \<equiv> 2"
abbreviation (input) PTE_W :: uint64 where "PTE_W \<equiv> 4"
abbreviation (input) PTE_X :: uint64 where "PTE_X \<equiv> 8"
abbreviation (input) PTE_U :: uint64 where "PTE_U \<equiv> 16"
abbreviation (input) PTE_A :: uint64 where "PTE_A \<equiv> 64"
abbreviation (input) PTE_S :: uint64 where "PTE_S \<equiv> 512"

definition PA2PTE :: "uint64 \<Rightarrow> uint64" where
  "PA2PTE pa = push_bit 10 (drop_bit 12 pa)"

definition PTE2PA :: "uint64 \<Rightarrow> uint64" where
  "PTE2PA pte = push_bit 12 (drop_bit 10 pte)"

definition PTE_FLAGS :: "uint64 \<Rightarrow> uint64" where
  "PTE_FLAGS pte = pte AND 0x3FF"

definition PX :: "nat \<Rightarrow> uint64 \<Rightarrow> uint64" where
  "PX level va = drop_bit (12 + 9 * level) va AND 0x1FF"

definition MAKE_SATP :: "uint64 \<Rightarrow> uint64" where
  "MAKE_SATP pagetable = 0x8000000000000000 OR drop_bit 12 pagetable"

section \<open>Memory\<close>

type_synonym memory = "uint64 \<Rightarrow> byte"

fun load_le :: "memory \<Rightarrow> uint64 \<Rightarrow> nat \<Rightarrow> uint64" where
  "load_le m a 0 = 0"
| "load_le m a (Suc k) = ucast (m a) OR push_bit 8 (load_le m (a + 1) k)"

definition load64 :: "memory \<Rightarrow> uint64 \<Rightarrow> uint64" where
  "load64 m a = load_le m a 8"

definition store64 :: "memory \<Rightarrow> uint64 \<Rightarrow> uint64 \<Rightarrow> memory" where
  "store64 m a v = (\<lambda>x. if x - a < 8 then ucast (drop_bit (8 * unat (x - a)) v) else m x)"

definition mem_set :: "memory \<Rightarrow> uint64 \<Rightarrow> byte \<Rightarrow> uint64 \<Rightarrow> memory" where
  "mem_set m dst c n = (\<lambda>x. if x - dst < n then c else m x)"

definition mem_read :: "memory \<Rightarrow> uint64 \<Rightarrow> nat \<Rightarrow> byte list" where
  "mem_read m a n = map (\<lambda>i. m (a + of_nat i)) [0..<n]"

definition mem_write :: "memory \<Rightarrow> uint64 \<Rightarrow> byte list \<Rightarrow> memory" where
  "mem_write m a bs = (\<lambda>x. if unat (x - a) < length bs then bs ! unat (x - a) else m x)"

definition mem_copy :: "memory \<Rightarrow> uint64 \<Rightarrow> uint64 \<Rightarrow> uint64 \<Rightarrow> memory" where
  "mem_copy m dst src n = (\<lambda>x. if x - dst < n then m (src + (x - dst)) else m x)"

definition page_aligned :: "uint64 \<Rightarrow> bool" where
  "page_aligned p \<longleftrightarrow> p mod PGSIZE = 0"

abbreviation slot :: "uint64 \<Rightarrow> uint64 \<Rightarrow> uint64" where
  "slot pt i \<equiv> pt + 8 * i"

section \<open>Page arithmetic\<close>

lemma mask12: "(4095 :: uint64) = mask 12"
  by (simp add: mask_eq_exp_minus_1)

lemma page_mod_mask: "(x :: uint64) mod 4096 = x AND 4095"
  using take_bit_eq_mod [of 12 x] by (simp add: take_bit_eq_mask mask12)

lemma unat_page_mod: "unat ((x :: uint64) mod 4096) = unat x mod 4096"
  by (simp add: unat_mod)

lemma PGROUNDDOWN_shift: "PGROUNDDOWN a = push_bit 12 (drop_bit 12 a)"
proof -
  have "a AND NOT (mask 12) = push_bit 12 (drop_bit 12 a)"
    by (rule bit_word_eqI) (auto simp: bit_simps)
  then show ?thesis
    by (simp only: PGROUNDDOWN_def mask12 [symmetric]) simp
qed

lemma PGROUNDDOWN_alt: "PGROUNDDOWN a = a - a mod 4096"
proof -
  have "push_bit 12 (drop_bit 12 a) + take_bit 12 a = a"
    by (rule bits_ident)
  then show ?thesis
    by (simp add: PGROUNDDOWN_shift take_bit_eq_mod algebra_simps)
qed

lemma unat_PGROUNDDOWN: "unat (PGROUNDDOWN a) = unat a - unat a mod 4096"
proof -
  have "a mod 4096 \<le> a"
    by (simp add: word_le_nat_alt unat_page_mod)
  then show ?thesis
    by (simp add: PGROUNDDOWN_alt unat_sub unat_page_mod)
qed

lemma page_aligned_unat: "page_aligned p \<longleftrightarrow> unat p mod 4096 = 0"
  by (simp add: page_aligned_def word_unat_eq_iff unat_page_mod)

lemma PGROUNDDOWN_aligned [simp]: "page_aligned (PGROUNDDOWN a)"
proof -
  have "(unat a - unat a mod 4096) mod 4096 = 0"
    by (simp add: minus_mod_eq_mult_div)
  then show ?thesis
    by (simp add: page_aligned_unat unat_PGROUNDDOWN)
qed

lemma PGROUNDDOWN_le: "PGROUNDDOWN a \<le> a"
  by (simp add: word_le_nat_alt unat_PGROUNDDOWN)

lemma PGROUNDDOWN_id: "PGROUNDDOWN p = p \<longleftrightarrow> page_aligned p"
  by (auto simp: PGROUNDDOWN_alt page_aligned_def)

lemma PGROUNDDOWN_of_aligned [simp]: "page_aligned p \<Longrightarrow> PGROUNDDOWN p = p"
  by (simp add: PGROUNDDOWN_id)

text \<open>The bytes of a page are those whose address rounds down to it.\<close>

lemma in_page_iff:
  assumes "page_aligned p"
  shows "x - p < 4096 \<longleftrightarrow> PGROUNDDOWN x = p"
proof
  assume "PGROUNDDOWN x = p"
  then have "x - p = x mod 4096"
    by (auto simp: PGROUNDDOWN_alt)
  then show "x - p < 4096"
    by (simp add: word_less_nat_alt unat_page_mod)
next
  assume less: "x - p < 4096"
  let ?d = "x - p"
  have d: "unat ?d < 4096"
    using less by (simp add: word_less_nat_alt)
  have x: "x = p + ?d"
    by simp
  have p: "unat p mod 4096 = 0"
    using assms by (simp add: page_aligned_unat)
  have "unat p + 4096 \<le> 2 ^ 64"
  proof -
    obtain k where k: "unat p = 4096 * k"
      using p by auto
    have "unat p < 2 ^ LENGTH(64)"
      by (rule unsigned_less)
    then have "4096 * k < 4096 * 2 ^ 52"
      using k by simp
    then have "k < 2 ^ 52"
      by simp
    then show ?thesis
      using k by simp
  qed
  then have "unat x = unat p + unat ?d"
    using d unat_plus_if' [of p ?d] x by simp
  then have "unat x mod 4096 = unat ?d"
    using p d by (simp add: mod_add_eq [symmetric] mod_add_left_eq [symmetric])
  then have "x mod 4096 = ?d"
    by (simp add: word_unat_eq_iff unat_page_mod)
  then show "PGROUNDDOWN x = p"
    by (simp add: PGROUNDDOWN_alt)
qed

lemma PGROUNDDOWN_offset:
  assumes "page_aligned p" and "d < 4096"
  shows "PGROUNDDOWN (p + d) = p"
  using in_page_iff [OF assms(1), of "p + d"] assms(2) by simp

lemma PGROUNDDOWN_slot [simp]:
  assumes "page_aligned p" and "i < 512"
  shows "PGROUNDDOWN (slot p i) = p"
proof -
  have "unat (8 * i) = 8 * unat i" and "unat i < 512"
    using assms(2) by (auto simp: word_less_nat_alt unat_word_ariths)
  then show ?thesis
    using assms by (intro PGROUNDDOWN_offset) (auto simp: word_less_nat_alt)
qed

lemma PGROUNDUP_alt: "PGROUNDUP a = PGROUNDDOWN (a + 4095)"
  by (simp add: PGROUNDUP_def PGROUNDDOWN_def add.commute)

lemma unat_PGROUNDUP:
  assumes "unat a + 4095 < 2 ^ 64"
  shows "unat (PGROUNDUP a) = (unat a + 4095) div 4096 * 4096"
proof -
  have "PGROUNDUP a = PGROUNDDOWN (a + 4095)"
    by (rule PGROUNDUP_alt)
  moreover have "unat (a + 4095) = unat a + 4095"
    using assms unat_plus_if' [of a 4095] by simp
  ultimately show ?thesis
    by (simp add: unat_PGROUNDDOWN minus_mod_eq_div_mult)
qed

lemma PGROUNDUP_aligned [simp]: "page_aligned (PGROUNDUP a)"
  by (simp add: PGROUNDUP_alt)

lemma PGROUNDUP_ge: "unat a + 4095 < 2 ^ 64 \<Longrightarrow> a \<le> PGROUNDUP a"
  by (simp add: word_le_nat_alt unat_PGROUNDUP)

lemma PGROUNDUP_of_aligned [simp]: "page_aligned p \<Longrightarrow> PGROUNDUP p = p"
  by (simp add: PGROUNDUP_alt PGROUNDDOWN_offset)

section \<open>Page-table entries\<close>

lemma aligned_low_bits: "page_aligned pa \<Longrightarrow> bit pa n \<Longrightarrow> 12 \<le> n"
  by (metis PGROUNDDOWN_of_aligned PGROUNDDOWN_shift bit_push_bit_iff)

lemma flags_take_bit: "(flags :: uint64) < 1024 \<Longrightarrow> take_bit 10 flags = flags"
  by (simp add: take_bit_eq_mod word_unat_eq_iff unat_mod word_less_nat_alt)

lemma flags_high_bits: "(flags :: uint64) < 1024 \<Longrightarrow> 10 \<le> n \<Longrightarrow> \<not> bit flags n"
  by (metis flags_take_bit bit_take_bit_iff leD)

lemma PTE2PA_PA2PTE [simp]:
  "page_aligned pa \<Longrightarrow> flags < 1024 \<Longrightarrow> PTE2PA (PA2PTE pa OR flags) = pa"
  unfolding PTE2PA_def PA2PTE_def
  by (rule bit_word_eqI)
    (auto simp: bit_simps flags_high_bits not_less le_Suc_ex dest: aligned_low_bits
      intro: iffD1 [OF arg_cong [OF le_add_diff_inverse]])

lemma PTE_FLAGS_alt: "PTE_FLAGS pte = take_bit 10 pte"
proof -
  have "(0x3FF :: uint64) = mask 10"
    by (simp add: mask_eq_exp_minus_1)
  then show ?thesis
    by (simp add: PTE_FLAGS_def take_bit_eq_mask)
qed

lemma PTE_FLAGS_PA2PTE [simp]:
  "flags < 1024 \<Longrightarrow> PTE_FLAGS (PA2PTE pa OR flags) = flags"
  unfolding PTE_FLAGS_alt PA2PTE_def
  by (rule bit_word_eqI) (auto simp: bit_simps flags_high_bits not_less)

lemma PTE2PA_aligned [simp]: "page_aligned (PTE2PA pte)"
proof -
  have "PGROUNDDOWN (PTE2PA pte) = PTE2PA pte"
    unfolding PGROUNDDOWN_shift PTE2PA_def by (rule bit_word_eqI) (auto simp: bit_simps)
  then show ?thesis
    by (simp add: PGROUNDDOWN_id)
qed

lemma PX_alt: "PX level va = take_bit 9 (drop_bit (12 + 9 * level) va)"
proof -
  have "(0x1FF :: uint64) = mask 9"
    by (simp add: mask_eq_exp_minus_1)
  then show ?thesis
    by (simp add: PX_def take_bit_eq_mask)
qed

lemma PX_less [simp]: "PX level va < 512"
  by (simp add: PX_alt take_bit_eq_mod word_less_nat_alt unat_mod)

lemma PX_bit: "n < 9 \<Longrightarrow> bit (PX level va) n \<longleftrightarrow> bit va (12 + 9 * level + n)"
  by (simp add: PX_alt bit_simps)

text \<open>Below \<^const>\<open>MAXVA\<close> the three indices determine the page of a virtual address.\<close>

lemma below_MAXVA_bits: "va < MAXVA \<Longrightarrow> 38 \<le> n \<Longrightarrow> \<not> bit va n"
proof -
  assume "va < MAXVA" and n: "38 \<le> n"
  then have "take_bit 38 va = va"
    by (simp add: take_bit_eq_mod word_unat_eq_iff unat_mod word_less_nat_alt)
  then show ?thesis
    using n by (metis bit_take_bit_iff leD)
qed

lemma PX_inj:
  assumes "va < MAXVA" and "vb < MAXVA"
    and eq: "PX 2 va = PX 2 vb" "PX 1 va = PX 1 vb" "PX 0 va = PX 0 vb"
  shows "PGROUNDDOWN va = PGROUNDDOWN vb"
  unfolding PGROUNDDOWN_shift
proof (rule bit_word_eqI)
  fix n
  have at: "bit va (12 + 9 * l + k) \<longleftrightarrow> bit vb (12 + 9 * l + k)"
    if "PX l va = PX l vb" and "k < 9" for l k
    using PX_bit [of k l va] PX_bit [of k l vb] that by simp
  have "bit va n \<longleftrightarrow> bit vb n" if "12 \<le> n"
  proof -
    consider "n < 21" | "21 \<le> n" "n < 30" | "30 \<le> n" "n < 39" | "39 \<le> n"
      by linarith
    then show ?thesis
    proof cases
      case 1
      then show ?thesis
        using at [OF eq(3), of "n - 12"] that by simp
    next
      case 2
      then show ?thesis
        using at [OF eq(2), of "n - 21"] by simp
    next
      case 3
      then show ?thesis
        using at [OF eq(1), of "n - 30"] by simp
    next
      case 4
      then show ?thesis
        using below_MAXVA_bits [OF assms(1), of n] below_MAXVA_bits [OF assms(2), of n] by simp
    qed
  qed
  then show "bit (push_bit 12 (drop_bit 12 va)) n \<longleftrightarrow> bit (push_bit 12 (drop_bit 12 vb)) n"
    by (auto simp: bit_simps)
qed

section \<open>Loads and stores\<close>

lemma bit_load_le:
  "bit (load_le m a k) n \<longleftrightarrow> n < 8 * k \<and> n < 64 \<and> bit (m (a + of_nat (n div 8))) (n mod 8)"
proof (induction m a k arbitrary: n rule: load_le.induct)
  case (2 m a k)
  show ?case
  proof (cases "n < 8")
    case True
    then show ?thesis
      by (simp add: bit_simps)
  next
    case False
    then have n: "n = 8 + (n - 8)"
      by simp
    have "\<not> bit (m a) n"
      using False by (auto dest: bit_imp_le_length)
    moreover have "n div 8 = Suc ((n - 8) div 8)" and "n mod 8 = (n - 8) mod 8"
      by (subst n, simp)+
    ultimately show ?thesis
      using False 2 [of "n - 8"] by (auto simp: bit_simps algebra_simps)
  qed
qed simp

lemma bit_load64:
  "bit (load64 m a) n \<longleftrightarrow> n < 64 \<and> bit (m (a + of_nat (n div 8))) (n mod 8)"
  by (auto simp: load64_def bit_load_le)

text \<open>A load looks at eight bytes only.\<close>

lemma load64_cong:
  assumes "\<And>d. d < 8 \<Longrightarrow> m (a + d) = m' (a + d)"
  shows "load64 m a = load64 m' a"
proof (rule bit_word_eqI)
  fix n assume "n < LENGTH(64)"
  then have "(of_nat (n div 8) :: uint64) < 8"
    by (simp add: word_less_nat_alt unat_of_nat)
  then show "bit (load64 m a) n \<longleftrightarrow> bit (load64 m' a) n"
    using assms by (simp add: bit_load64)
qed

lemma load64_store64_same [simp]: "load64 (store64 m a v) a = v"
proof (rule bit_word_eqI)
  fix n assume n: "n < LENGTH(64)"
  then have k: "n div 8 < 8"
    by simp
  then have "unat (of_nat (n div 8) :: uint64) = n div 8"
    by (simp add: unat_of_nat)
  moreover have "(of_nat (n div 8) :: uint64) < 8"
    using k by (simp add: word_less_nat_alt unat_of_nat)
  ultimately show "bit (load64 (store64 m a v) a) n \<longleftrightarrow> bit v n"
    using n by (simp add: bit_load64 store64_def bit_simps)
qed

lemma mult8_mod8: "((8 :: uint64) * k) mod 8 = 0"
  by (simp add: word_unat_eq_iff unat_mod unat_word_ariths mod_mod_cancel)

lemma mod8_mult8: "(a :: uint64) mod 8 = 0 \<Longrightarrow> a = 8 * (a div 8)"
  using div_mult_mod_eq [of a 8] by (simp add: mult.commute)

lemma aligned8_apart:
  fixes a b :: uint64
  assumes "a mod 8 = 0" and "b mod 8 = 0" and "a \<noteq> b" and "d < 8"
  shows "\<not> b + d - a < 8"
proof -
  let ?e = "b - a"
  have "?e = 8 * (b div 8 - a div 8)"
    using mod8_mult8 [OF assms(1)] mod8_mult8 [OF assms(2)] by (simp add: right_diff_distrib)
  then have "?e mod 8 = 0"
    by (simp only: mult8_mod8)
  then have e: "unat ?e mod 8 = 0"
    by (simp add: word_unat_eq_iff unat_mod)
  have "?e \<noteq> 0"
    using assms(3) by simp
  then have pos: "0 < unat ?e"
    by (simp add: unat_gt_0)
  have d: "unat d < 8"
    using assms(4) by (simp add: word_less_nat_alt)
  obtain k where k: "unat ?e = 8 * k"
    using e by auto
  have "unat ?e < 2 ^ LENGTH(64)"
    by (rule unsigned_less)
  then have "k < 2 ^ 61"
    using k by simp
  then have "unat ?e + unat d < 2 ^ 64"
    using k d by simp
  then have "unat (?e + d) = unat ?e + unat d"
    by (simp add: unat_plus_if')
  then have "8 \<le> unat (?e + d)"
    using k pos by simp
  moreover have "b + d - a = ?e + d"
    by simp
  ultimately show ?thesis
    by (simp only: word_less_nat_alt not_less) simp
qed

lemma load64_store64_other:
  "a mod 8 = 0 \<Longrightarrow> b mod 8 = 0 \<Longrightarrow> a \<noteq> b \<Longrightarrow> load64 (store64 m a v) b = load64 m b"
  by (rule load64_cong) (simp add: store64_def aligned8_apart)

text \<open>An access within one page touches that page only.\<close>

lemma slot_mod8:
  assumes "page_aligned p"
  shows "slot p i mod 8 = 0"
proof -
  have "p = 4096 * (p div 4096)"
    using assms div_mult_mod_eq [of p 4096] by (simp add: page_aligned_def mult.commute)
  then have "slot p i = 8 * (512 * (p div 4096) + i)"
    by (simp add: distrib_left)
  then show ?thesis
    by (simp only: mult8_mod8)
qed

lemma slot_bytes_in_page:
  assumes "page_aligned p" and "i < 512" and "d < 8"
  shows "PGROUNDDOWN (slot p i + d) = p"
proof -
  have "unat (8 * i + d) = 8 * unat i + unat d" "unat i < 512" "unat d < 8"
    using assms(2,3) by (auto simp: word_less_nat_alt unat_word_ariths)
  then have "8 * i + d < 4096"
    by (simp add: word_less_nat_alt)
  then show ?thesis
    using PGROUNDDOWN_offset [OF assms(1), of "8 * i + d"] by (simp add: add.assoc)
qed

lemma load64_page_cong:
  assumes "page_aligned p" and "i < 512"
    and "\<And>x. PGROUNDDOWN x = p \<Longrightarrow> m x = m' x"
  shows "load64 m (slot p i) = load64 m' (slot p i)"
  by (rule load64_cong) (simp add: assms slot_bytes_in_page)

lemma store64_other_page:
  assumes "page_aligned p" and "i < 512" and "PGROUNDDOWN x \<noteq> p"
  shows "store64 m (slot p i) v x = m x"
proof -
  have "\<not> x - slot p i < 8"
  proof
    assume "x - slot p i < 8"
    then have "PGROUNDDOWN (slot p i + (x - slot p i)) = p"
      using assms(1,2) by (intro slot_bytes_in_page)
    then show False
      using assms(3) by simp
  qed
  then show ?thesis
    by (simp add: store64_def)
qed

lemma slot_inj:
  assumes "page_aligned p" "page_aligned q" "i < 512" "j < 512"
  shows "slot p i = slot q j \<longleftrightarrow> p = q \<and> i = j"
proof
  assume eq: "slot p i = slot q j"
  then have "p = q"
    using PGROUNDDOWN_slot [OF assms(1,3)] PGROUNDDOWN_slot [OF assms(2,4)] by simp
  moreover have "8 * i = 8 * j"
    using eq \<open>p = q\<close> by simp
  then have "unat (8 * i) = unat (8 * j)"
    by simp
  then have "i = j"
    using assms(3,4) by (simp add: word_less_nat_alt unat_word_ariths word_unat_eq_iff)
  ultimately show "p = q \<and> i = j"
    by simp
qed simp

lemma load64_store64_slot:
  assumes "page_aligned p" "page_aligned q" "i < 512" "j < 512"
  shows "load64 (store64 m (slot p i) v) (slot q j) =
    (if p = q \<and> i = j then v else load64 m (slot q j))"
  using assms by (auto simp: slot_inj load64_store64_other slot_mod8)

lemma mem_set_page:
  "page_aligned p \<Longrightarrow> mem_set m p c 4096 x = (if PGROUNDDOWN x = p then c else m x)"
  by (simp add: mem_set_def in_page_iff)

lemma load64_mem_set_zero:
  assumes "page_aligned p" "page_aligned q" "i < 512"
  shows "load64 (mem_set m p 0 4096) (slot q i) = (if q = p then 0 else load64 m (slot q i))"
proof (cases "q = p")
  case True
  have "load64 (mem_set m p 0 4096) (slot q i) = load64 (\<lambda>_. 0) (slot q i)"
    using assms True by (intro load64_page_cong) (auto simp: mem_set_page)
  then show ?thesis
    using True by (auto simp: bit_load64 intro!: bit_word_eqI)
next
  case False
  then show ?thesis
    using assms by (auto intro!: load64_page_cong simp: mem_set_page)
qed

lemma load64_mem_set_other:
  assumes "page_aligned p" "page_aligned q" "i < 512" "q \<noteq> p"
  shows "load64 (mem_set m p c 4096) (slot q i) = load64 m (slot q i)"
  using assms by (auto intro!: load64_page_cong simp: mem_set_page)

section \<open>Blocks of bytes\<close>

lemma length_mem_read [simp]: "length (mem_read m a n) = n"
  by (simp add: mem_read_def)

lemma nth_mem_read [simp]: "i < n \<Longrightarrow> mem_read m a n ! i = m (a + of_nat i)"
  by (simp add: mem_read_def)

lemma mem_read_write_same:
  assumes "length bs < 2 ^ 64"
  shows "mem_read (mem_write m a bs) a (length bs) = bs"
proof (rule nth_equalityI)
  fix i assume "i < length (mem_read (mem_write m a bs) a (length bs))"
  then have "i < length bs" by simp
  moreover from this assms have "unat (of_nat i :: uint64) = i"
    by (simp add: unat_of_nat)
  ultimately show "mem_read (mem_write m a bs) a (length bs) ! i = bs ! i"
    by (simp add: mem_write_def)
qed simp

lemma mem_read_cong:
  "(\<And>i. i < n \<Longrightarrow> m (a + of_nat i) = m' (a + of_nat i)) \<Longrightarrow> mem_read m a n = mem_read m' a n"
  by (simp add: mem_read_def)

lemma mem_read_append:
  "mem_read m a (n + k) = mem_read m a n @ mem_read m (a + of_nat n) k"
  by (rule nth_equalityI) (auto simp: nth_append algebra_simps)

lemma mem_copy_read_write:
  assumes "n = of_nat k" and "k < 2 ^ 64"
  shows "mem_copy m dst src n = mem_write m dst (mem_read m src k)"
proof
  fix x
  have "unat n = k"
    using assms by (simp add: unat_of_nat)
  then show "mem_copy m dst src n x = mem_write m dst (mem_read m src k) x"
    by (auto simp: mem_copy_def mem_write_def word_less_nat_alt)
qed

end
