(* ===== verification/CString.thy ===== *)
theory CString
  imports Riscv
begin

text \<open>
  \<^verbatim>\<open>kernel/string.c\<close>.  The \<^verbatim>\<open>mem*\<close> functions work on the byte-addressed memory, because the
  point of \<^verbatim>\<open>memmove\<close> is what it does when the two regions overlap.  The \<^verbatim>\<open>str*\<close> functions take a
  \<^verbatim>\<open>char*\<close> as the function from an index to the byte there, so that \<^verbatim>\<open>p++\<close> is a shift of the index;
  the copying ones return the bytes they write, in order, starting at the destination.

  The theorems: \<^verbatim>\<open>memset\<close> and \<^verbatim>\<open>memmove\<close> equal their one-line specifications (the latter for
  overlapping regions in either direction), \<^verbatim>\<open>strncpy\<close> fills exactly \<open>n\<close> bytes, \<^verbatim>\<open>safestrcpy\<close>
  stays inside its buffer and always terminates the string, \<^verbatim>\<open>strncmp\<close> decides equality of
  the two names up to their terminators, \<^verbatim>\<open>strlen\<close> returns wherever a terminator exists.
\<close>

section \<open>Model\<close>

type_synonym cstr = "nat \<Rightarrow> byte"

abbreviation advance :: "cstr \<Rightarrow> cstr" where
  "advance p \<equiv> (\<lambda>i. p (Suc i))"

fun memset_loop :: "memory \<Rightarrow> uint64 \<Rightarrow> byte \<Rightarrow> nat \<Rightarrow> nat \<Rightarrow> memory" where
  "memset_loop m dst c i 0 = m"
| "memset_loop m dst c i (Suc k) = memset_loop (m(dst + of_nat i := c)) dst c (Suc i) k"

definition memset :: "memory \<Rightarrow> uint64 \<Rightarrow> byte \<Rightarrow> uint32 \<Rightarrow> memory" where
  "memset m dst c n = memset_loop m dst c 0 (unat n)"

fun memcmp :: "cstr \<Rightarrow> cstr \<Rightarrow> nat \<Rightarrow> int" where
  "memcmp s1 s2 0 = 0"
| "memcmp s1 s2 (Suc n) =
     (if s1 0 \<noteq> s2 0 then uint (s1 0) - uint (s2 0) else memcmp (advance s1) (advance s2) n)"

fun memmove_backward :: "memory \<Rightarrow> uint64 \<Rightarrow> uint64 \<Rightarrow> nat \<Rightarrow> memory" where
  "memmove_backward m d s 0 = m"
| "memmove_backward m d s (Suc n) = memmove_backward (m(d - 1 := m (s - 1))) (d - 1) (s - 1) n"

fun memmove_forward :: "memory \<Rightarrow> uint64 \<Rightarrow> uint64 \<Rightarrow> nat \<Rightarrow> memory" where
  "memmove_forward m d s 0 = m"
| "memmove_forward m d s (Suc n) = memmove_forward (m(d := m s)) (d + 1) (s + 1) n"

definition memmove :: "memory \<Rightarrow> uint64 \<Rightarrow> uint64 \<Rightarrow> uint32 \<Rightarrow> memory" where
  "memmove m dst src n =
     (if n = 0 then m
      else if src < dst \<and> dst < src + ucast n
        then memmove_backward m (dst + ucast n) (src + ucast n) (unat n)
        else memmove_forward m dst src (unat n))"

definition memcpy :: "memory \<Rightarrow> uint64 \<Rightarrow> uint64 \<Rightarrow> uint32 \<Rightarrow> memory" where
  "memcpy m dst src n = memmove m dst src n"

fun strncmp :: "cstr \<Rightarrow> cstr \<Rightarrow> nat \<Rightarrow> int" where
  "strncmp p q 0 = 0"
| "strncmp p q (Suc n) =
     (if p 0 \<noteq> 0 \<and> p 0 = q 0 then strncmp (advance p) (advance q) n
      else uint (p 0) - uint (q 0))"

fun strncpy :: "cstr \<Rightarrow> nat \<Rightarrow> byte list" where
  "strncpy t 0 = []"
| "strncpy t (Suc n) = t 0 # (if t 0 \<noteq> 0 then strncpy (advance t) n else replicate n 0)"

fun safestrcpy_loop :: "cstr \<Rightarrow> nat \<Rightarrow> byte list" where
  "safestrcpy_loop t 0 = []"
| "safestrcpy_loop t (Suc n) = t 0 # (if t 0 \<noteq> 0 then safestrcpy_loop (advance t) n else [])"

definition safestrcpy :: "cstr \<Rightarrow> int \<Rightarrow> byte list" where
  "safestrcpy t n = (if n \<le> 0 then [] else safestrcpy_loop t (nat (n - 1)) @ [0])"

partial_function (option) strlen_loop :: "cstr \<Rightarrow> nat \<Rightarrow> nat option" where
  "strlen_loop s n = (if s n \<noteq> 0 then strlen_loop s (Suc n) else Some n)"

definition strlen :: "cstr \<Rightarrow> nat option" where
  "strlen s = strlen_loop s 0"

text \<open>A fixed-size character array as a \<^verbatim>\<open>char*\<close>, and the string such a pointer denotes.\<close>

definition arr :: "byte list \<Rightarrow> cstr" where
  "arr xs = (\<lambda>i. if i < length xs then xs ! i else 0)"

fun upto_nul :: "cstr \<Rightarrow> nat \<Rightarrow> byte list" where
  "upto_nul p 0 = []"
| "upto_nul p (Suc n) = (if p 0 = 0 then [] else p 0 # upto_nul (advance p) n)"

section \<open>Setting and moving memory\<close>

lemma unat_ucast_32_64 [simp]: "unat (ucast (n :: uint32) :: uint64) = unat n"
proof -
  have "unat n < 2 ^ LENGTH(32)"
    by (rule unsigned_less)
  then show ?thesis
    by (simp add: unsigned_ucast_eq take_bit_nat_eq_self)
qed

lemma offset_eq_iff:
  assumes "i < 2 ^ 64"
  shows "x = dst + of_nat i \<longleftrightarrow> unat (x - dst :: uint64) = i"
proof -
  have "unat (of_nat i :: uint64) = i"
    using assms by (simp add: unat_of_nat)
  moreover have "x = dst + of_nat i \<longleftrightarrow> x - dst = of_nat i"
    by (auto simp: algebra_simps)
  ultimately show ?thesis
    by (metis word_unat_eq_iff)
qed

lemma memset_loop_eq:
  assumes "i + k \<le> 2 ^ 64"
  shows "memset_loop m dst c i k x =
    (if i \<le> unat (x - dst) \<and> unat (x - dst) < i + k then c else m x)"
  using assms
proof (induction k arbitrary: i m)
  case (Suc k)
  define m' where "m' = m(dst + of_nat i := c)"
  have at: "x = dst + of_nat i \<longleftrightarrow> unat (x - dst) = i"
    using Suc.prems by (intro offset_eq_iff) simp
  have "memset_loop m dst c i (Suc k) x = memset_loop m' dst c (Suc i) k x"
    by (simp only: memset_loop.simps m'_def)
  also have "\<dots> = (if Suc i \<le> unat (x - dst) \<and> unat (x - dst) < Suc i + k then c else m' x)"
    using Suc.prems by (intro Suc.IH) simp
  also have "m' x = (if unat (x - dst) = i then c else m x)"
    using at by (simp add: m'_def)
  finally show ?case
    by auto
qed auto

lemma memset_eq: "memset m dst c n = mem_set m dst c (ucast n)"
proof
  fix x
  have n: "unat n < 2 ^ LENGTH(32)"
    by (rule unsigned_less)
  then show "memset m dst c n x = mem_set m dst c (ucast n) x"
    by (simp add: memset_def mem_set_def memset_loop_eq word_less_nat_alt)
qed

text \<open>
  Addresses as natural numbers: within a region that does not run past the end of the
  address space, offsets do not wrap.
\<close>

lemma unat_shifted:
  fixes s d x :: uint64
  assumes "unat d \<le> unat x" and "unat x < unat d + n" and "unat s + n \<le> 2 ^ 64"
  shows "unat (s + (x - d)) = unat s + (unat x - unat d)"
proof -
  have "unat (x - d) = unat x - unat d"
    using assms(1) by (simp add: unat_sub word_le_nat_alt)
  then show ?thesis
    using assms by (subst unat_plus_if') auto
qed

lemma forward_copies:
  assumes "unat d + n \<le> 2 ^ 64" and "unat s + n \<le> 2 ^ 64"
    and "\<not> (unat s < unat d \<and> unat d < unat s + n)"
  shows "memmove_forward m d s n x =
    (if unat d \<le> unat x \<and> unat x < unat d + n then m (s + (x - d)) else m x)"
  using assms
proof (induction n arbitrary: m d s)
  case (Suc n)
  define m' where "m' = m(d := m s)"
  have m': "m' y = (if unat y = unat d then m s else m y)" for y
    by (simp add: m'_def word_unat_eq_iff)
  have step: "memmove_forward m d s (Suc n) x = memmove_forward m' (d + 1) (s + 1) n x"
    by (simp only: memmove_forward.simps m'_def)
  show ?case
  proof (cases "n = 0")
    case True
    then show ?thesis
      using step m' [of x] by (auto simp: word_unat_eq_iff [symmetric] le_less_Suc_eq)
  next
    case False
    then have d1: "unat (d + 1) = unat d + 1" and s1: "unat (s + 1) = unat s + 1"
      using Suc.prems by (simp_all add: unat_plus_if')
    have "memmove_forward m' (d + 1) (s + 1) n x =
      (if unat (d + 1) \<le> unat x \<and> unat x < unat (d + 1) + n
       then m' (s + 1 + (x - (d + 1))) else m' x)"
      using Suc.prems d1 s1 by (intro Suc.IH) auto
    then have IH: "memmove_forward m' (d + 1) (s + 1) n x =
      (if unat d + 1 \<le> unat x \<and> unat x < unat d + Suc n then m' (s + (x - d)) else m' x)"
      using d1 by (simp add: algebra_simps)
    show ?thesis
    proof (cases "unat d + 1 \<le> unat x \<and> unat x < unat d + Suc n")
      case True
      then have "unat (s + (x - d)) = unat s + (unat x - unat d)"
        using Suc.prems by (intro unat_shifted [where n = "Suc n"]) auto
      then have "unat (s + (x - d)) \<noteq> unat d"
        using True Suc.prems(3) by auto
      then show ?thesis
        using IH True step by (simp add: m')
    next
      case ne: False
      have "unat x = unat d \<Longrightarrow> x = d"
        by (simp add: word_unat_eq_iff)
      then show ?thesis
        using IH ne step m' [of x] by auto
    qed
  qed
qed auto

lemma backward_copies:
  assumes "unat d + n \<le> 2 ^ 64" and "unat s + n \<le> 2 ^ 64" and "unat s < unat d"
  shows "memmove_backward m (d + of_nat n) (s + of_nat n) n x =
    (if unat d \<le> unat x \<and> unat x < unat d + n then m (s + (x - d)) else m x)"
  using assms
proof (induction n arbitrary: m)
  case 0
  then show ?case
    by auto
next
  case (Suc n)
  define m' where "m' = m(d + of_nat n := m (s + of_nat n))"
  have dn: "unat (d + of_nat n) = unat d + n"
    using Suc.prems by (simp add: unat_plus_if' unat_of_nat)
  have m': "m' y = (if unat y = unat d + n then m (s + of_nat n) else m y)" for y
    using dn by (simp add: m'_def word_unat_eq_iff)
  have step: "memmove_backward m (d + of_nat (Suc n)) (s + of_nat (Suc n)) (Suc n) x =
    memmove_backward m' (d + of_nat n) (s + of_nat n) n x"
    by (simp add: m'_def)
  have IH: "memmove_backward m' (d + of_nat n) (s + of_nat n) n x =
    (if unat d \<le> unat x \<and> unat x < unat d + n then m' (s + (x - d)) else m' x)"
    using Suc.prems by (intro Suc.IH) auto
  show ?case
  proof (cases "unat d \<le> unat x \<and> unat x < unat d + n")
    case True
    then have "unat (s + (x - d)) = unat s + (unat x - unat d)"
      using Suc.prems by (intro unat_shifted [where n = n]) auto
    then have "unat (s + (x - d)) \<noteq> unat d + n"
      using True Suc.prems(3) by auto
    then show ?thesis
      using IH step True by (simp add: m')
  next
    case False
    have "x - d = of_nat n" if "unat x = unat d + n"
    proof -
      have "x = d + of_nat n"
        using that dn by (simp add: word_unat_eq_iff)
      then show ?thesis
        by simp
    qed
    then show ?thesis
      using IH step False m' [of x] by auto
  qed
qed

lemma region_offset:
  fixes x d :: uint64
  assumes "unat d + n \<le> 2 ^ 64"
  shows "unat d \<le> unat x \<and> unat x < unat d + n \<longleftrightarrow> unat (x - d) < n"
proof (cases "unat d \<le> unat x")
  case True
  then show ?thesis
    by (auto simp: unat_sub word_le_nat_alt)
next
  case False
  have "unat x < 2 ^ LENGTH(64)"
    by (rule unsigned_less)
  then show ?thesis
    using False assms by (simp add: unat_sub_if_size word_le_nat_alt word_size)
qed

text \<open>
  The contract of \<^verbatim>\<open>memmove\<close> is stated on the whole memory: the destination holds what the
  source held before the call, also when the regions overlap, and nothing else changes.
\<close>

lemma memmove_eq_copy:
  assumes "unat dst + unat n \<le> 2 ^ 64" and "unat src + unat n < 2 ^ 64"
  shows "memmove m dst src n = mem_copy m dst src (ucast n)"
proof
  fix x
  have sn: "unat (src + ucast n) = unat src + unat n"
    using assms(2) by (simp add: unat_plus_if')
  have "mem_copy m dst src (ucast n) x =
    (if unat dst \<le> unat x \<and> unat x < unat dst + unat n then m (src + (x - dst)) else m x)"
    by (simp add: mem_copy_def word_less_nat_alt region_offset [OF assms(1)])
  moreover have "memmove m dst src n x =
    (if unat dst \<le> unat x \<and> unat x < unat dst + unat n then m (src + (x - dst)) else m x)"
  proof (cases "src < dst \<and> dst < src + ucast n")
    case True
    have "(ucast n :: uint64) = of_nat (unat n)"
      by (simp add: word_unat_eq_iff)
    then show ?thesis
      using True assms backward_copies [of dst "unat n" src m x]
      by (auto simp: memmove_def word_less_nat_alt)
  next
    case False
    then show ?thesis
      using assms sn forward_copies [of dst "unat n" src m x]
      by (auto simp: memmove_def word_less_nat_alt)
  qed
  ultimately show "memmove m dst src n x = mem_copy m dst src (ucast n) x"
    by simp
qed

section \<open>Strings\<close>

lemma length_strncpy [simp]: "length (strncpy t n) = n"
  by (induction t n rule: strncpy.induct) auto

lemma arr_Cons: "arr (x # xs) 0 = x" "advance (arr (x # xs)) = arr xs"
  by (auto simp: arr_def fun_eq_iff)

lemma upto_nul_replicate_zero: "upto_nul (arr (replicate n 0)) n = []"
  by (cases n) (simp_all add: arr_Cons)

text \<open>What \<^verbatim>\<open>strncpy\<close> leaves in its buffer denotes the source string, cut to the buffer.\<close>

lemma upto_nul_strncpy: "upto_nul (arr (strncpy t n)) n = upto_nul t n"
  by (induction t n rule: strncpy.induct) (auto simp: arr_Cons)

lemma length_safestrcpy_loop: "length (safestrcpy_loop t n) \<le> n"
  by (induction t n rule: safestrcpy_loop.induct) auto

lemma length_safestrcpy: "0 < n \<Longrightarrow> length (safestrcpy t n) \<le> nat n"
  using length_safestrcpy_loop [of t "nat (n - 1)"] by (auto simp: safestrcpy_def)

lemma upto_nul_safestrcpy_loop:
  "upto_nul (arr (safestrcpy_loop t n @ [0])) (Suc n) = upto_nul t n"
  by (induction t n rule: safestrcpy_loop.induct) (auto simp: arr_Cons)

text \<open>\<^verbatim>\<open>strncmp\<close> returns zero exactly when the two strings agree up to \<open>n\<close> bytes.\<close>

lemma uint_byte_eq [simp]: "uint (a :: byte) = uint b \<longleftrightarrow> a = b"
  by (simp add: word_uint_eq_iff)

lemma uint_byte_0 [simp]: "uint (a :: byte) = 0 \<longleftrightarrow> a = 0"
  using uint_byte_eq [of a 0] by simp

lemma strncmp_zero_iff: "strncmp p q n = 0 \<longleftrightarrow> upto_nul p n = upto_nul q n"
  by (induction p q n rule: strncmp.induct) auto

lemma memcmp_zero_iff: "memcmp p q n = 0 \<longleftrightarrow> (\<forall>i < n. p i = q i)"
proof (induction p q n rule: memcmp.induct)
  case (2 s1 s2 n)
  then show ?case
    by (auto simp: All_less_Suc2)
qed simp

lemma strlen_loop_returns:
  assumes "s k = 0" and "i \<le> k" and "\<And>j. i \<le> j \<Longrightarrow> j < k \<Longrightarrow> s j \<noteq> 0"
  shows "strlen_loop s i = Some k"
  using assms
proof (induction "k - i" arbitrary: i)
  case 0
  then have "s i = 0"
    by simp
  then show ?case
    using 0 by (subst strlen_loop.simps) simp
next
  case (Suc d)
  then have "strlen_loop s (Suc i) = Some k"
    by (intro Suc.hyps) auto
  moreover have "s i \<noteq> 0"
    using Suc by auto
  ultimately show ?case
    by (subst strlen_loop.simps) simp
qed

lemma strlen_returns: "s k = 0 \<Longrightarrow> (\<And>j. j < k \<Longrightarrow> s j \<noteq> 0) \<Longrightarrow> strlen s = Some k"
  by (simp add: strlen_def strlen_loop_returns)

section \<open>Properties\<close>

text \<open>
  C39. \<^verbatim>\<open>memmove()\<close> copies as if through a temporary buffer: after the call every byte of the
  destination is what the source held before it and no other byte of memory has changed,
  even where the two regions overlap.  Neither region may run past the end of the address space.
\<close>

theorem memmove_overlap:
  assumes "unat dst + unat n \<le> 2 ^ 64" and "unat src + unat n < 2 ^ 64"
  shows "memmove m dst src n x =
    (if x - dst < ucast n then m (src + (x - dst)) else m x)"
  using memmove_eq_copy [OF assms] by (simp add: mem_copy_def)

theorem memmove_overlap_witness:
  "memmove (\<lambda>x. ucast x) 0x1003 0x1000 8 0x1005 = (2 :: byte)"
  using memmove_overlap [where dst = "0x1003" and src = "0x1000" and n = 8 and
      m = "\<lambda>x. ucast x" and x = "0x1005"] by simp

text \<open>
  C40. With a buffer of \<open>n > 0\<close> bytes, \<^verbatim>\<open>safestrcpy()\<close> writes at most \<open>n\<close> bytes, the last of them is
  the terminator, and the string it leaves is the source string cut at \<open>n - 1\<close> characters.
\<close>

theorem safestrcpy_terminates_string:
  assumes "0 < n"
  shows "length (safestrcpy t n) \<le> nat n \<and> last (safestrcpy t n) = 0 \<and>
    upto_nul (arr (safestrcpy t n)) (nat n) = upto_nul t (nat (n - 1))"
proof -
  obtain k where k: "nat n = Suc k" "nat (n - 1) = k"
    using assms by (metis Suc_diff_1 nat_diff_distrib' nat_one_as_int nat_1 zero_less_nat_eq int_one_le_iff_zero_less
        le_numeral_extra(1) zle_int of_nat_0_le_iff less_le)
  have "upto_nul (arr (safestrcpy_loop t k @ [0])) (Suc k) = upto_nul t k"
    by (rule upto_nul_safestrcpy_loop)
  then show ?thesis
    using assms k length_safestrcpy [OF assms, of t] by (simp add: safestrcpy_def)
qed

theorem safestrcpy_terminates_string_witness:
  "length (safestrcpy (arr [115, 104, 101, 108, 108]) 4) \<le> nat 4 \<and>
   last (safestrcpy (arr [115, 104, 101, 108, 108]) 4) = 0 \<and>
   upto_nul (arr (safestrcpy (arr [115, 104, 101, 108, 108]) 4)) (nat 4) =
   upto_nul (arr [115, 104, 101, 108, 108]) (nat (4 - 1))"
  by (rule safestrcpy_terminates_string) simp

end
