(* ===== verification/ProcTable.thy ===== *)
theory ProcTable
  imports Locks CString
begin

text \<open>
  The process table of \<^verbatim>\<open>kernel/proc.h\<close> and the part of \<^verbatim>\<open>kernel/proc.c\<close> that only works on it:
  process ids, sleeping and waking, the switch to the scheduler, killing, giving children
  away.  The operations that also touch memory, files or inodes build on this theory.

  A pointer to a table entry is the entry's index; a null pointer is \<open>None\<close>.  Reading
  through a null pointer in the kernel traps, and the trap handler panics (\<^verbatim>\<open>kerneltrap\<close>).

  \<^verbatim>\<open>sched()\<close> leaves the current thread of control, so its outcome is \<open>Switch\<close>; what the code
  does after \<^verbatim>\<open>swtch()\<close> has come back is a definition of its own (\<open>sleep_resume\<close>,
  \<open>yield_resume\<close>), and \<open>scheduler_pick\<close> is the scheduler's half of the switch.
\<close>

section \<open>Model\<close>

datatype procstate = UNUSED | USED | SLEEPING | RUNNABLE | RUNNING | ZOMBIE

datatype chan =
    Ch_proc nat | Ch_ticks | Ch_log | Ch_sleeplock sleepid | Ch_buf nat
  | Ch_nread uint64 | Ch_nwrite uint64 | Ch_cons | Ch_uart | Ch_disk

record kcontext =
  ctx_ra :: uint64
  ctx_sp :: uint64
  ctx_s :: "uint64 list"

record proc =
  p_state :: procstate
  p_chan :: "chan option"
  p_killed :: bool
  p_xstate :: uint32
  p_pid :: int
  p_parent :: "nat option"
  p_kstack :: uint64
  p_sz :: uint64
  p_pagetable :: uint64
  p_trapframe :: uint64
  p_context :: kcontext
  p_ofile :: "nat option list"
  p_cwd :: "nat option"
  p_name :: "byte list"

record procst = kbase +
  proc :: "proc list"
  cpu_proc :: "nat option"
  hartid :: nat
  initproc :: "nat option"
  nextpid :: int
  ticks :: uint32

abbreviation (input) NPROC :: nat where "NPROC \<equiv> 64"
abbreviation (input) NOFILE :: nat where "NOFILE \<equiv> 16"

definition upd_proc :: "nat \<Rightarrow> (proc \<Rightarrow> proc) \<Rightarrow> 'a procst_scheme \<Rightarrow> 'a procst_scheme" where
  "upd_proc i f s = s\<lparr>proc := (proc s)[i := f (proc s ! i)]\<rparr>"

definition cpuid :: "'a procst_scheme \<Rightarrow> nat" where
  "cpuid s = hartid s"

definition myproc :: "'a procst_scheme \<Rightarrow> nat option" where
  "myproc s = cpu_proc s"

text \<open>\<^verbatim>\<open>struct proc *p = myproc();\<close> followed by a dereference of \<^verbatim>\<open>p\<close>.\<close>

definition with_myproc ::
  "'a procst_scheme \<Rightarrow> (nat \<Rightarrow> ('a procst_scheme, 'b) outcome) \<Rightarrow> ('a procst_scheme, 'b) outcome" where
  "with_myproc s f = (case myproc s of None \<Rightarrow> Panic ''kerneltrap'' | Some p \<Rightarrow> f p)"

definition procinit_entry :: "nat \<Rightarrow> proc \<Rightarrow> proc" where
  "procinit_entry i p = p\<lparr>p_state := UNUSED, p_kstack := KSTACK i\<rparr>"

definition procinit :: "'a procst_scheme \<Rightarrow> 'a procst_scheme" where
  "procinit s = s\<lparr>proc := map (\<lambda>i. procinit_entry i (proc s ! i)) [0..<NPROC]\<rparr>"

definition allocpid :: "'a procst_scheme \<Rightarrow> ('a procst_scheme, int) outcome" where
  "allocpid s =
     andThen (acquire L_pid s) (\<lambda>_ s.
     let pid = nextpid s; s = s\<lparr>nextpid := nextpid s + 1\<rparr> in
     andThen (release L_pid s) (\<lambda>_ s. Ok pid s))"

definition sched :: "'a procst_scheme \<Rightarrow> ('a procst_scheme, unit) outcome" where
  "sched s = with_myproc s (\<lambda>p.
     if \<not> holding (L_proc p) s then Panic ''sched p->lock''
     else if length (held s) \<noteq> 1 then Panic ''sched locks''
     else if p_state (proc s ! p) = RUNNING then Panic ''sched running''
     else Switch s)"

definition yield :: "'a procst_scheme \<Rightarrow> ('a procst_scheme, unit) outcome" where
  "yield s = with_myproc s (\<lambda>p.
     andThen (acquire (L_proc p) s) (\<lambda>_ s.
     sched (upd_proc p (\<lambda>q. q\<lparr>p_state := RUNNABLE\<rparr>) s)))"

definition yield_resume :: "'a procst_scheme \<Rightarrow> ('a procst_scheme, unit) outcome" where
  "yield_resume s = with_myproc s (\<lambda>p. release (L_proc p) s)"

definition sleep :: "chan \<Rightarrow> lockid \<Rightarrow> 'a procst_scheme \<Rightarrow> ('a procst_scheme, unit) outcome" where
  "sleep ch lk s = with_myproc s (\<lambda>p.
     andThen (acquire (L_proc p) s) (\<lambda>_ s.
     andThen (release lk s) (\<lambda>_ s.
     sched (upd_proc p (\<lambda>q. q\<lparr>p_chan := Some ch, p_state := SLEEPING\<rparr>) s))))"

text \<open>A function that sleeps in the middle of a loop: it does not return from here.\<close>

definition sleeps :: "chan \<Rightarrow> lockid \<Rightarrow> 'a procst_scheme \<Rightarrow> ('a procst_scheme, 'b) outcome" where
  "sleeps ch lk s = andThen (sleep ch lk s) (\<lambda>_ _. Spin)"

definition sleep_resume :: "lockid \<Rightarrow> 'a procst_scheme \<Rightarrow> ('a procst_scheme, unit) outcome" where
  "sleep_resume lk s = with_myproc s (\<lambda>p.
     andThen (release (L_proc p) (upd_proc p (\<lambda>q. q\<lparr>p_chan := None\<rparr>) s)) (\<lambda>_ s.
     acquire lk s))"

definition wakeup_one :: "chan option \<Rightarrow> nat \<Rightarrow> 'a procst_scheme \<Rightarrow> ('a procst_scheme, unit) outcome" where
  "wakeup_one ch i s =
     (if Some i \<noteq> myproc s then
        andThen (acquire (L_proc i) s) (\<lambda>_ s.
        let q = proc s ! i;
            s = (if p_state q = SLEEPING \<and> p_chan q = ch
                 then upd_proc i (\<lambda>q. q\<lparr>p_state := RUNNABLE\<rparr>) s else s) in
        release (L_proc i) s)
      else Ok () s)"

definition wakeup :: "chan option \<Rightarrow> 'a procst_scheme \<Rightarrow> ('a procst_scheme, unit) outcome" where
  "wakeup ch s = foreach [0..<NPROC] (wakeup_one ch) s"

fun kill_from :: "nat list \<Rightarrow> int \<Rightarrow> 'a procst_scheme \<Rightarrow> ('a procst_scheme, int) outcome" where
  "kill_from [] pid s = Ok (- 1) s"
| "kill_from (i # is) pid s =
     andThen (acquire (L_proc i) s) (\<lambda>_ s.
     if p_pid (proc s ! i) = pid then
       let s = upd_proc i (\<lambda>q. q\<lparr>p_killed := True\<rparr>) s;
           s = (if p_state (proc s ! i) = SLEEPING
                then upd_proc i (\<lambda>q. q\<lparr>p_state := RUNNABLE\<rparr>) s else s) in
       andThen (release (L_proc i) s) (\<lambda>_ s. Ok 0 s)
     else andThen (release (L_proc i) s) (\<lambda>_ s. kill_from is pid s))"

definition kill :: "int \<Rightarrow> 'a procst_scheme \<Rightarrow> ('a procst_scheme, int) outcome" where
  "kill pid s = kill_from [0..<NPROC] pid s"

definition setkilled :: "nat \<Rightarrow> 'a procst_scheme \<Rightarrow> ('a procst_scheme, unit) outcome" where
  "setkilled p s =
     andThen (acquire (L_proc p) s) (\<lambda>_ s.
     release (L_proc p) (upd_proc p (\<lambda>q. q\<lparr>p_killed := True\<rparr>) s))"

definition killed :: "nat \<Rightarrow> 'a procst_scheme \<Rightarrow> ('a procst_scheme, bool) outcome" where
  "killed p s =
     andThen (acquire (L_proc p) s) (\<lambda>_ s.
     let k = p_killed (proc s ! p) in
     andThen (release (L_proc p) s) (\<lambda>_ s. Ok k s))"

definition reparent_one :: "nat \<Rightarrow> nat \<Rightarrow> 'a procst_scheme \<Rightarrow> ('a procst_scheme, unit) outcome" where
  "reparent_one p i s =
     (if p_parent (proc s ! i) = Some p then
        let s = upd_proc i (\<lambda>q. q\<lparr>p_parent := initproc s\<rparr>) s in
        wakeup (map_option Ch_proc (initproc s)) s
      else Ok () s)"

definition reparent :: "nat \<Rightarrow> 'a procst_scheme \<Rightarrow> ('a procst_scheme, unit) outcome" where
  "reparent p s = foreach [0..<NPROC] (reparent_one p) s"

text \<open>
  One turn of the inner loop of \<^verbatim>\<open>scheduler()\<close>: with the entry's lock taken, a runnable process
  is marked running and becomes the current one; the lock stays held across the switch.
\<close>

definition scheduler_pick :: "nat \<Rightarrow> 'a procst_scheme \<Rightarrow> ('a procst_scheme, bool) outcome" where
  "scheduler_pick i s =
     andThen (acquire (L_proc i) s) (\<lambda>_ s.
     if p_state (proc s ! i) = RUNNABLE then
       Ok True ((upd_proc i (\<lambda>q. q\<lparr>p_state := RUNNING\<rparr>) s)\<lparr>cpu_proc := Some i\<rparr>)
     else andThen (release (L_proc i) s) (\<lambda>_ s. Ok False s))"

definition scheduler_done :: "nat \<Rightarrow> 'a procst_scheme \<Rightarrow> ('a procst_scheme, unit) outcome" where
  "scheduler_done i s = release (L_proc i) (s\<lparr>cpu_proc := None\<rparr>)"

section \<open>Well-formedness and frames\<close>

definition proc_ok :: "'a procst_scheme \<Rightarrow> bool" where
  "proc_ok s \<longleftrightarrow> length (proc s) = NPROC \<and> (\<forall>p. cpu_proc s = Some p \<longrightarrow> p < NPROC)"

text \<open>No lock of a process-table entry is held: what \<^verbatim>\<open>wakeup()\<close> and \<^verbatim>\<open>kill()\<close> require.\<close>

definition no_proc_lock :: "'a procst_scheme \<Rightarrow> bool" where
  "no_proc_lock s \<longleftrightarrow> (\<forall>i. L_proc i \<notin> set (held s))"

lemma no_proc_lockD [simp]: "no_proc_lock s \<Longrightarrow> L_proc i \<notin> set (held s)"
  by (simp add: no_proc_lock_def)

lemma upd_proc_simps [simp]:
  "held (upd_proc i f s) = held s"
  "cpu_proc (upd_proc i f s) = cpu_proc s"
  "initproc (upd_proc i f s) = initproc s"
  "nextpid (upd_proc i f s) = nextpid s"
  "length (proc (upd_proc i f s)) = length (proc s)"
  "i < length (proc s) \<Longrightarrow> proc (upd_proc i f s) ! i = f (proc s ! i)"
  "i \<noteq> j \<Longrightarrow> proc (upd_proc i f s) ! j = proc s ! j"
  by (simp_all add: upd_proc_def)

section \<open>Waking up\<close>

text \<open>The abstract effect: every other process asleep on the channel becomes runnable.\<close>

definition wake :: "chan option \<Rightarrow> nat option \<Rightarrow> nat \<Rightarrow> proc \<Rightarrow> proc" where
  "wake ch cur i q =
     (if Some i \<noteq> cur \<and> p_state q = SLEEPING \<and> p_chan q = ch then q\<lparr>p_state := RUNNABLE\<rparr> else q)"

definition wake_all :: "chan option \<Rightarrow> nat option \<Rightarrow> proc list \<Rightarrow> proc list" where
  "wake_all ch cur ps = map (\<lambda>i. wake ch cur i (ps ! i)) [0..<length ps]"

lemma length_wake_all [simp]: "length (wake_all ch cur ps) = length ps"
  by (simp add: wake_all_def)

lemma nth_wake_all [simp]: "i < length ps \<Longrightarrow> wake_all ch cur ps ! i = wake ch cur i (ps ! i)"
  by (simp add: wake_all_def)

lemma wake_frame [simp]:
  "p_pid (wake ch cur i q) = p_pid q" "p_killed (wake ch cur i q) = p_killed q"
  "p_parent (wake ch cur i q) = p_parent q" "p_chan (wake ch cur i q) = p_chan q"
  "p_sz (wake ch cur i q) = p_sz q" "p_pagetable (wake ch cur i q) = p_pagetable q"
  "p_trapframe (wake ch cur i q) = p_trapframe q" "p_ofile (wake ch cur i q) = p_ofile q"
  "p_cwd (wake ch cur i q) = p_cwd q" "p_name (wake ch cur i q) = p_name q"
  "p_kstack (wake ch cur i q) = p_kstack q" "p_xstate (wake ch cur i q) = p_xstate q"
  by (simp_all add: wake_def)

lemma wakeup_one_eq:
  assumes "L_proc i \<notin> set (held s)" and "i < length (proc s)"
  shows "wakeup_one ch i s = Ok () (upd_proc i (wake ch (cpu_proc s) i) s)"
  using assms by (simp add: wakeup_one_def wake_def upd_proc_def myproc_def Let_def)

lemma foreach_wakeup_one:
  assumes "\<And>i. i \<in> set is \<Longrightarrow> L_proc i \<notin> set (held s) \<and> i < length (proc s)" and "distinct is"
  shows "foreach is (wakeup_one ch) s =
    Ok () (s\<lparr>proc := map (\<lambda>i. if i \<in> set is then wake ch (cpu_proc s) i (proc s ! i) else proc s ! i)
                      [0..<length (proc s)]\<rparr>)"
  using assms
proof (induction "is" arbitrary: s)
  case Nil
  then show ?case
    by (simp add: map_nth)
next
  case (Cons j js)
  let ?s = "upd_proc j (wake ch (cpu_proc s) j) s"
  have "foreach (j # js) (wakeup_one ch) s = foreach js (wakeup_one ch) ?s"
    using Cons.prems by (simp add: wakeup_one_eq)
  also have "\<dots> = Ok () (?s\<lparr>proc := map (\<lambda>i. if i \<in> set js then wake ch (cpu_proc ?s) i (proc ?s ! i)
      else proc ?s ! i) [0..<length (proc ?s)]\<rparr>)"
    using Cons.prems by (intro Cons.IH) auto
  also have "\<dots> = Ok () (s\<lparr>proc := map (\<lambda>i. if i \<in> set (j # js) then wake ch (cpu_proc s) i (proc s ! i)
      else proc s ! i) [0..<length (proc s)]\<rparr>)"
    using Cons.prems by (auto simp: upd_proc_def nth_list_update)
  finally show ?case .
qed

lemma wakeup_eq:
  assumes "proc_ok s" and "\<And>i. L_proc i \<notin> set (held s)"
  shows "wakeup ch s = Ok () (s\<lparr>proc := wake_all ch (cpu_proc s) (proc s)\<rparr>)"
proof -
  have "wakeup ch s = Ok () (s\<lparr>proc := map (\<lambda>i. if i \<in> set [0..<NPROC]
      then wake ch (cpu_proc s) i (proc s ! i) else proc s ! i) [0..<length (proc s)]\<rparr>)"
    unfolding wakeup_def using assms by (intro foreach_wakeup_one) (auto simp: proc_ok_def)
  also have "map (\<lambda>i. if i \<in> set [0..<NPROC] then wake ch (cpu_proc s) i (proc s ! i)
      else proc s ! i) [0..<length (proc s)] = wake_all ch (cpu_proc s) (proc s)"
    using assms(1) by (simp add: wake_all_def proc_ok_def)
  finally show ?thesis .
qed

lemma proc_ok_wake_all [simp]: "proc_ok s \<Longrightarrow> proc_ok (s\<lparr>proc := wake_all ch cur (proc s)\<rparr>)"
  by (simp add: proc_ok_def)

lemma proc_ok_upd_proc [simp]: "proc_ok s \<Longrightarrow> proc_ok (upd_proc i f s)"
  by (simp add: proc_ok_def)

lemma proc_ok_held [simp]: "proc_ok (s\<lparr>held := h\<rparr>) = proc_ok s"
  by (simp add: proc_ok_def)

section \<open>Process ids, killing, sleeping\<close>

lemma allocpid_eq:
  "L_pid \<notin> set (held s) \<Longrightarrow> allocpid s = Ok (nextpid s) (s\<lparr>nextpid := nextpid s + 1\<rparr>)"
  by (simp add: allocpid_def)

lemma killed_eq: "L_proc p \<notin> set (held s) \<Longrightarrow> killed p s = Ok (p_killed (proc s ! p)) s"
  by (simp add: killed_def)

lemma setkilled_eq:
  "L_proc p \<notin> set (held s) \<Longrightarrow> setkilled p s = Ok () (upd_proc p (\<lambda>q. q\<lparr>p_killed := True\<rparr>) s)"
  by (simp add: setkilled_def upd_proc_def)

definition kill_proc :: "proc \<Rightarrow> proc" where
  "kill_proc q =
     q\<lparr>p_killed := True, p_state := (if p_state q = SLEEPING then RUNNABLE else p_state q)\<rparr>"

lemma kill_from_eq:
  assumes "no_proc_lock s" and "n \<le> length (proc s)"
  shows "kill_from [n..<length (proc s)] pid s =
    (case first_index (\<lambda>q. p_pid q = pid) (drop n (proc s)) of
       None \<Rightarrow> Ok (- 1) s
     | Some k \<Rightarrow> Ok 0 (upd_proc (n + k) kill_proc s))"
  using assms(2)
proof (induction "length (proc s) - n" arbitrary: n)
  case 0
  then show ?case by simp
next
  case (Suc d)
  then have n: "n < length (proc s)"
    by simp
  then have "[n..<length (proc s)] = n # [Suc n..<length (proc s)]"
    by (rule upt_conv_Cons)
  moreover have "drop n (proc s) = proc s ! n # drop (Suc n) (proc s)"
    using n by (rule Cons_nth_drop_Suc [symmetric])
  moreover have "kill_from [Suc n..<length (proc s)] pid s =
    (case first_index (\<lambda>q. p_pid q = pid) (drop (Suc n) (proc s)) of
       None \<Rightarrow> Ok (- 1) s
     | Some k \<Rightarrow> Ok 0 (upd_proc (Suc n + k) kill_proc s))"
    using Suc n by (intro Suc.hyps) auto
  ultimately show ?case
    using n assms(1)
    by (auto simp: Let_def upd_proc_def kill_proc_def split: option.split)
qed

lemma kill_eq:
  assumes "proc_ok s" and "no_proc_lock s"
  shows "kill pid s =
    (case first_index (\<lambda>q. p_pid q = pid) (proc s) of
       None \<Rightarrow> Ok (- 1) s
     | Some i \<Rightarrow> Ok 0 (upd_proc i kill_proc s))"
  using kill_from_eq [OF assms(2), of 0 pid] assms(1)
  by (cases "first_index (\<lambda>q. p_pid q = pid) (proc s)") (simp_all add: kill_def proc_ok_def)

text \<open>
  \<^verbatim>\<open>sleep()\<close> with exactly the caller's lock held: the process is marked asleep on the channel
  before the caller's lock is given up, and only its own lock crosses the switch.  With
  any other spin lock held, \<^verbatim>\<open>sched()\<close> panics.
\<close>

lemma sleep_eq:
  assumes "cpu_proc s = Some p" and "L_proc p \<notin> set (held s)" and "lk \<in> set (held s)"
    and "p < length (proc s)"
  shows "sleep ch lk s =
    (if held s = [lk]
     then Switch (upd_proc p (\<lambda>q. q\<lparr>p_chan := Some ch, p_state := SLEEPING\<rparr>) (s\<lparr>held := [L_proc p]\<rparr>))
     else Panic ''sched locks'')"
proof -
  have lk: "lk \<noteq> L_proc p"
    using assms(2,3) by auto
  have "length (remove1 lk (held s)) = length (held s) - 1"
    using assms(3) by (simp add: length_remove1)
  moreover have "length (held s) = 1 \<longleftrightarrow> held s = [lk]"
    using assms(3) by (cases "held s") auto
  moreover have "0 < length (held s)"
    using assms(3) by (cases "held s") auto
  ultimately show ?thesis
    using assms lk
    by (auto simp: sleep_def sched_def with_myproc_def myproc_def holding_def upd_proc_def)
qed

section \<open>Properties\<close>

text \<open>
  C36. \<^verbatim>\<open>wakeup(chan)\<close> makes exactly the processes sleeping on \<^verbatim>\<open>chan\<close> runnable, the caller excepted, and
  changes nothing else; it needs that the caller holds no lock of a process-table entry.
\<close>

theorem wakeup_exact:
  assumes "proc_ok s" and "no_proc_lock s"
  shows "runs (wakeup ch s) (\<lambda>_ t. t = s\<lparr>proc := proc t\<rparr> \<and> length (proc t) = NPROC \<and>
    (\<forall>i<NPROC. proc t ! i =
      (if cpu_proc s \<noteq> Some i \<and> p_state (proc s ! i) = SLEEPING \<and> p_chan (proc s ! i) = ch
       then (proc s ! i)\<lparr>p_state := RUNNABLE\<rparr> else proc s ! i)))"
proof -
  have "length (proc s) = NPROC"
    using assms(1) by (simp add: proc_ok_def)
  then show ?thesis
    using assms by (auto simp: wakeup_eq wake_def)
qed

text \<open>
  C37. \<^verbatim>\<open>kill(pid)\<close> marks the first process with that id as killed and, if it sleeps, makes it
  runnable, returning \<open>0\<close>; without such a process it changes nothing and returns \<open>-1\<close>.  It never
  removes the victim, which exits by itself.
\<close>

theorem kill_marks_victim:
  assumes "proc_ok s" and "no_proc_lock s"
  shows "kill pid s =
    (case first_index (\<lambda>q. p_pid q = pid) (proc s) of
       None \<Rightarrow> Ok (- 1) s
     | Some i \<Rightarrow> Ok 0 (s\<lparr>proc := (proc s)[i := (proc s ! i)\<lparr>p_killed := True,
         p_state := (if p_state (proc s ! i) = SLEEPING then RUNNABLE else p_state (proc s ! i))\<rparr>]\<rparr>))"
  using kill_eq [OF assms, of pid] by (simp add: upd_proc_def kill_proc_def split: option.split)


text \<open>A table with one running and one sleeping process, for the examples.\<close>

definition idle_proc :: proc where
  "idle_proc = \<lparr>p_state = UNUSED, p_chan = None, p_killed = False, p_xstate = 0, p_pid = 0,
     p_parent = None, p_kstack = 0, p_sz = 0, p_pagetable = 0, p_trapframe = 0,
     p_context = \<lparr>ctx_ra = 0, ctx_sp = 0, ctx_s = []\<rparr>, p_ofile = replicate NOFILE None,
     p_cwd = None, p_name = replicate 16 0\<rparr>"

definition two_procs :: procst where
  "two_procs = \<lparr>held = [],
     proc = (replicate NPROC idle_proc)[0 := idle_proc\<lparr>p_state := RUNNING, p_pid := 1\<rparr>,
       1 := idle_proc\<lparr>p_state := SLEEPING, p_pid := 2, p_chan := Some Ch_ticks\<rparr>],
     cpu_proc = Some 0, hartid = 0, initproc = Some 0, nextpid = 3, ticks = 0\<rparr>"

lemma two_procs_ok: "proc_ok two_procs" "no_proc_lock two_procs"
  by (simp_all add: two_procs_def proc_ok_def no_proc_lock_def)

theorem wakeup_exact_witness:
  "runs (wakeup (Some Ch_ticks) two_procs) (\<lambda>_ t. t = two_procs\<lparr>proc := proc t\<rparr> \<and> length (proc t) = NPROC \<and>
    (\<forall>i<NPROC. proc t ! i =
      (if cpu_proc two_procs \<noteq> Some i \<and> p_state (proc two_procs ! i) = SLEEPING \<and>
          p_chan (proc two_procs ! i) = Some Ch_ticks
       then (proc two_procs ! i)\<lparr>p_state := RUNNABLE\<rparr> else proc two_procs ! i)))"
  by (rule wakeup_exact [OF two_procs_ok])

theorem kill_marks_victim_witness:
  "first_index (\<lambda>q. p_pid q = 2) (proc two_procs) = Some 1 \<and>
   kill 2 two_procs = Ok 0 (two_procs\<lparr>proc := (proc two_procs)[1 := (proc two_procs ! 1)\<lparr>p_killed := True,
     p_state := RUNNABLE\<rparr>]\<rparr>)"
proof -
  have "first_index (\<lambda>q. p_pid q = 2) (proc two_procs) = Some 1"
    by (simp add: two_procs_def idle_proc_def first_index_Some nth_list_update)
  moreover have "p_state (proc two_procs ! 1) = SLEEPING"
    by (simp add: two_procs_def)
  ultimately show ?thesis
    using kill_marks_victim [OF two_procs_ok, of 2] by simp
qed


end
