(* ===== verification/Sleeplock.thy ===== *)
theory Sleeplock
  imports ProcTable
begin

text \<open>
  Sleeping locks (\<^verbatim>\<open>kernel/sleeplock.c\<close>).  A sleep lock is a flag and the owner's process id,
  guarded by a spin lock of its own; waiting for it gives up the CPU.  A call of
  \<^verbatim>\<open>acquiresleep()\<close> that finds the lock taken ends in \<open>Switch\<close>; \<open>acquiresleep_resume\<close> is the
  rest of the call, run when the sleeper is scheduled again.
\<close>

section \<open>Model\<close>

record sleeplock =
  sl_locked :: bool
  sl_pid :: int

record slst = procst +
  slocks :: "sleepid \<Rightarrow> sleeplock"

definition initsleeplock :: "sleepid \<Rightarrow> 'a slst_scheme \<Rightarrow> 'a slst_scheme" where
  "initsleeplock l s = s\<lparr>slocks := (slocks s)(l := \<lparr>sl_locked = False, sl_pid = 0\<rparr>)\<rparr>"

text \<open>From the test of the loop on, with the guarding spin lock held.\<close>

definition acquiresleep_loop :: "sleepid \<Rightarrow> 'a slst_scheme \<Rightarrow> ('a slst_scheme, unit) outcome" where
  "acquiresleep_loop l s =
     (if sl_locked (slocks s l) then sleep (Ch_sleeplock l) (L_sleep l) s
      else with_myproc s (\<lambda>p.
        release (L_sleep l)
          (s\<lparr>slocks := (slocks s)(l := \<lparr>sl_locked = True, sl_pid = p_pid (proc s ! p)\<rparr>)\<rparr>)))"

definition acquiresleep :: "sleepid \<Rightarrow> 'a slst_scheme \<Rightarrow> ('a slst_scheme, unit) outcome" where
  "acquiresleep l s = andThen (acquire (L_sleep l) s) (\<lambda>_ s. acquiresleep_loop l s)"

definition acquiresleep_resume :: "sleepid \<Rightarrow> 'a slst_scheme \<Rightarrow> ('a slst_scheme, unit) outcome" where
  "acquiresleep_resume l s =
     andThen (sleep_resume (L_sleep l) s) (\<lambda>_ s. acquiresleep_loop l s)"

definition releasesleep :: "sleepid \<Rightarrow> 'a slst_scheme \<Rightarrow> ('a slst_scheme, unit) outcome" where
  "releasesleep l s =
     andThen (acquire (L_sleep l) s) (\<lambda>_ s.
     let s = s\<lparr>slocks := (slocks s)(l := \<lparr>sl_locked = False, sl_pid = 0\<rparr>)\<rparr> in
     andThen (wakeup (Some (Ch_sleeplock l)) s) (\<lambda>_ s.
     release (L_sleep l) s))"

definition holdingsleep :: "sleepid \<Rightarrow> 'a slst_scheme \<Rightarrow> ('a slst_scheme, bool) outcome" where
  "holdingsleep l s =
     andThen (acquire (L_sleep l) s) (\<lambda>_ s.
     if sl_locked (slocks s l) then
       with_myproc s (\<lambda>p.
         let r = sl_pid (slocks s l) = p_pid (proc s ! p) in
         andThen (release (L_sleep l) s) (\<lambda>_ s. Ok r s))
     else andThen (release (L_sleep l) s) (\<lambda>_ s. Ok False s))"

section \<open>What each operation does\<close>

text \<open>
  The running context that sleeping code needs: a process on this hart, in a table of the right
  size.  \<open>sleepable\<close> adds that no spin lock is held.
\<close>

definition running :: "'a procst_scheme \<Rightarrow> bool" where
  "running s \<longleftrightarrow> proc_ok s \<and> cpu_proc s \<noteq> None"

definition sleepable :: "'a procst_scheme \<Rightarrow> bool" where
  "sleepable s \<longleftrightarrow> running s \<and> held s = []"

definition mypid :: "'a procst_scheme \<Rightarrow> int" where
  "mypid s = p_pid (proc s ! the (cpu_proc s))"

definition owns :: "sleepid \<Rightarrow> 'a slst_scheme \<Rightarrow> bool" where
  "owns l s \<longleftrightarrow> sl_locked (slocks s l) \<and> sl_pid (slocks s l) = mypid s"

definition take_lock :: "sleepid \<Rightarrow> 'a slst_scheme \<Rightarrow> 'a slst_scheme" where
  "take_lock l s = s\<lparr>slocks := (slocks s)(l := \<lparr>sl_locked = True, sl_pid = mypid s\<rparr>)\<rparr>"

definition drop_lock :: "sleepid \<Rightarrow> 'a slst_scheme \<Rightarrow> 'a slst_scheme" where
  "drop_lock l s =
     s\<lparr>slocks := (slocks s)(l := \<lparr>sl_locked = False, sl_pid = 0\<rparr>),
       proc := wake_all (Some (Ch_sleeplock l)) (cpu_proc s) (proc s)\<rparr>"

lemma acquiresleep_free:
  assumes "L_sleep l \<notin> set (held s)" and "cpu_proc s \<noteq> None" and "\<not> sl_locked (slocks s l)"
  shows "acquiresleep l s = Ok () (take_lock l s)"
  using assms
  by (auto simp: acquiresleep_def acquiresleep_loop_def with_myproc_def myproc_def take_lock_def
      mypid_def)

lemma acquiresleep_taken:
  assumes "sleepable s" and "cpu_proc s = Some p" and "sl_locked (slocks s l)"
  shows "acquiresleep l s =
    Switch (upd_proc p (\<lambda>q. q\<lparr>p_chan := Some (Ch_sleeplock l), p_state := SLEEPING\<rparr>)
             (s\<lparr>held := [L_proc p]\<rparr>))"
proof -
  let ?s = "s\<lparr>held := [L_sleep l]\<rparr>"
  have "sleep (Ch_sleeplock l) (L_sleep l) ?s =
    Switch (upd_proc p (\<lambda>q. q\<lparr>p_chan := Some (Ch_sleeplock l), p_state := SLEEPING\<rparr>)
             (?s\<lparr>held := [L_proc p]\<rparr>))"
    using assms by (subst sleep_eq [of _ p]) (auto simp: sleepable_def running_def proc_ok_def)
  then show ?thesis
    using assms by (simp add: acquiresleep_def acquiresleep_loop_def sleepable_def)
qed

lemma acquiresleep_safe:
  assumes "L_sleep l \<notin> set (held s)" and "cpu_proc s \<noteq> None"
  shows "safe (acquiresleep l s) (\<lambda>_ t. \<not> sl_locked (slocks s l) \<and> t = take_lock l s)"
  using assms
  by (auto simp: acquiresleep_def acquiresleep_loop_def with_myproc_def myproc_def take_lock_def
      mypid_def sleep_def sched_def acquire_def release_def)

lemma releasesleep_eq:
  assumes "L_sleep l \<notin> set (held s)" and "proc_ok s" and "no_proc_lock s"
  shows "releasesleep l s = Ok () (drop_lock l s)"
proof -
  let ?s = "s\<lparr>held := L_sleep l # held s, slocks := (slocks s)(l := \<lparr>sl_locked = False, sl_pid = 0\<rparr>)\<rparr>"
  have "proc_ok ?s"
    using assms(2) by (simp add: proc_ok_def)
  moreover have "L_proc i \<notin> set (held ?s)" for i
    using assms(3) by simp
  ultimately have "wakeup (Some (Ch_sleeplock l)) ?s =
    Ok () (?s\<lparr>proc := wake_all (Some (Ch_sleeplock l)) (cpu_proc ?s) (proc ?s)\<rparr>)"
    by (rule wakeup_eq)
  then show ?thesis
    using assms(1) by (simp add: releasesleep_def Let_def drop_lock_def)
qed

lemma holdingsleep_eq:
  assumes "L_sleep l \<notin> set (held s)" and "cpu_proc s \<noteq> None"
  shows "holdingsleep l s = Ok (owns l s) s"
  using assms by (auto simp: holdingsleep_def with_myproc_def myproc_def owns_def mypid_def Let_def)

section \<open>Frames\<close>

lemma mypid_held [simp]: "mypid (s\<lparr>held := h\<rparr>) = mypid s"
  by (simp add: mypid_def)

lemma running_held [simp]: "running (s\<lparr>held := h\<rparr>) = running s"
  by (simp add: running_def)

lemma take_lock_simps [simp]:
  "held (take_lock l s) = held s" "proc (take_lock l s) = proc s"
  "cpu_proc (take_lock l s) = cpu_proc s" "mypid (take_lock l s) = mypid s"
  "running (take_lock l s) = running s" "sleepable (take_lock l s) = sleepable s"
  "owns l (take_lock l s)" "l \<noteq> k \<Longrightarrow> slocks (take_lock l s) k = slocks s k"
  "l \<noteq> k \<Longrightarrow> owns k (take_lock l s) = owns k s" "sl_locked (slocks (take_lock l s) l)"
  by (simp_all add: take_lock_def running_def sleepable_def proc_ok_def mypid_def owns_def)

lemma mypid_wake_all:
  "proc_ok s \<Longrightarrow> cpu_proc s \<noteq> None \<Longrightarrow> mypid (s\<lparr>proc := wake_all ch cur (proc s)\<rparr>) = mypid s"
  by (auto simp: mypid_def proc_ok_def)

lemma drop_lock_simps [simp]:
  "held (drop_lock l s) = held s" "cpu_proc (drop_lock l s) = cpu_proc s"
  "running (drop_lock l s) = running s" "sleepable (drop_lock l s) = sleepable s"
  "\<not> sl_locked (slocks (drop_lock l s) l)" "l \<noteq> k \<Longrightarrow> slocks (drop_lock l s) k = slocks s k"
  "running s \<Longrightarrow> mypid (drop_lock l s) = mypid s"
  "running s \<Longrightarrow> l \<noteq> k \<Longrightarrow> owns k (drop_lock l s) = owns k s"
  by (auto simp: drop_lock_def running_def sleepable_def proc_ok_def mypid_def owns_def)

lemma running_cong:
  "proc t = proc s \<Longrightarrow> cpu_proc t = cpu_proc s \<Longrightarrow> running t = running s"
  by (simp add: running_def proc_ok_def)

lemma sleepable_cong:
  "proc t = proc s \<Longrightarrow> cpu_proc t = cpu_proc s \<Longrightarrow> held t = held s \<Longrightarrow> sleepable t = sleepable s"
  by (simp add: sleepable_def running_def proc_ok_def)

lemma mypid_cong: "proc t = proc s \<Longrightarrow> cpu_proc t = cpu_proc s \<Longrightarrow> mypid t = mypid s"
  by (simp add: mypid_def)

lemma running_proc_ok [simp]: "running s \<Longrightarrow> proc_ok s"
  by (simp add: running_def)

lemma running_cpu [simp]: "running s \<Longrightarrow> cpu_proc s \<noteq> None"
  by (simp add: running_def)

lemma sleepableD [simp]: "sleepable s \<Longrightarrow> running s" "sleepable s \<Longrightarrow> held s = []"
  by (simp_all add: sleepable_def)

end
