(* ===== verification/Dll.thy ===== *)
theory Dll
  imports Prelude
begin

text \<open>
  Doubly linked rings, shared by the page-replacement list of \<^verbatim>\<open>kernel/kalloc.c\<close> (a ring with no
  sentinel, entered at \<^verbatim>\<open>lru_head\<close>) and the buffer cache of \<^verbatim>\<open>kernel/bio.c\<close> (a ring through the
  sentinel \<^verbatim>\<open>bcache.head\<close>).  The pointer fields are functions from nodes to nodes;
  \<open>linked nx pv a xs b\<close> says that following \<^verbatim>\<open>next\<close> from \<open>a\<close> visits \<open>xs\<close> and then reaches \<open>b\<close>, and
  that \<^verbatim>\<open>prev\<close> undoes each of these steps.  A ring through \<open>h\<close> is a list linked from \<open>h\<close> to \<open>h\<close>.

  The lemmas are the three pointer surgeries of the two files: unlink a node, insert a node
  after the first, insert a node before the last; and the change of entry point.
\<close>

fun linked :: "('p \<Rightarrow> 'p) \<Rightarrow> ('p \<Rightarrow> 'p) \<Rightarrow> 'p \<Rightarrow> 'p list \<Rightarrow> 'p \<Rightarrow> bool" where
  "linked nx pv a [] b \<longleftrightarrow> nx a = b \<and> pv b = a"
| "linked nx pv a (x # xs) b \<longleftrightarrow> nx a = x \<and> pv x = a \<and> linked nx pv x xs b"

definition ring :: "('p \<Rightarrow> 'p) \<Rightarrow> ('p \<Rightarrow> 'p) \<Rightarrow> 'p list \<Rightarrow> bool" where
  "ring nx pv ps \<longleftrightarrow> distinct ps \<and> (case ps of [] \<Rightarrow> True | h # xs \<Rightarrow> linked nx pv h xs h)"

lemma ring_Nil [simp]: "ring nx pv []"
  by (simp add: ring_def)

lemma ring_Cons: "ring nx pv (h # xs) \<longleftrightarrow> distinct (h # xs) \<and> linked nx pv h xs h"
  by (simp add: ring_def)

lemma linked_append [simp]:
  "linked nx pv a (xs @ x # ys) b \<longleftrightarrow> linked nx pv a xs x \<and> linked nx pv x ys b"
  by (induction xs arbitrary: a) auto

lemma linked_next: "linked nx pv a xs b \<Longrightarrow> nx a = hd (xs @ [b])"
  by (cases xs) auto

lemma linked_prev: "linked nx pv a xs b \<Longrightarrow> pv b = last (a # xs)"
  by (induction xs arbitrary: a) auto

text \<open>Changing pointers of nodes that the chain does not use.\<close>

lemma linked_cong:
  assumes "linked nx pv a xs b"
    and "\<And>u. u \<in> insert a (set xs) \<Longrightarrow> nx' u = nx u"
    and "\<And>u. u \<in> insert b (set xs) \<Longrightarrow> pv' u = pv u"
  shows "linked nx' pv' a xs b"
  using assms
proof (induction xs arbitrary: a)
  case Nil
  then show ?case by simp
next
  case (Cons x xs)
  then have "linked nx' pv' x xs b"
    by (intro Cons.IH) auto
  then show ?case
    using Cons.prems by simp
qed

lemma linked_update_next:
  "u \<noteq> a \<Longrightarrow> u \<notin> set xs \<Longrightarrow> linked nx pv a xs b \<Longrightarrow> linked (nx(u := v)) pv a xs b"
  by (erule linked_cong) auto

lemma linked_update_prev:
  "u \<noteq> b \<Longrightarrow> u \<notin> set xs \<Longrightarrow> linked nx pv a xs b \<Longrightarrow> linked nx (pv(u := v)) a xs b"
  by (erule linked_cong) auto

text \<open>Redirecting the two ends of a chain.\<close>

lemma linked_redirect_end:
  assumes "linked nx pv a xs x" and "distinct (a # xs)" and "b \<notin> set xs"
  shows "linked (nx(last (a # xs) := b)) (pv(b := last (a # xs))) a xs b"
  using assms
proof (induction xs arbitrary: a)
  case Nil
  then show ?case by simp
next
  case (Cons y ys)
  define t where "t = last (y # ys)"
  have t: "last (a # y # ys) = t"
    by (simp add: t_def)
  have "t \<noteq> a" and "b \<noteq> y"
    using Cons.prems(2,3) last_in_set [of "y # ys"] unfolding t_def by fastforce+
  moreover have "linked (nx(t := b)) (pv(b := t)) y ys b"
    unfolding t_def using Cons.prems by (intro Cons.IH) auto
  ultimately show ?case
    using Cons.prems(1) unfolding t linked.simps by (metis fun_upd_other)
qed

section \<open>Pointer surgery\<close>

text \<open>\<^verbatim>\<open>x->prev->next = x->next; x->next->prev = x->prev;\<close>\<close>

lemma linked_unlink:
  assumes l: "linked nx pv a (xs @ x # ys) b" and d: "distinct (xs @ x # ys)"
    and a: "a \<notin> set (xs @ x # ys)" and b: "b \<notin> set (xs @ x # ys)"
  shows "linked (nx(pv x := nx x)) (pv(nx x := pv x)) a (xs @ ys) b"
proof -
  define t where "t = last (a # xs)"
  from l have front: "linked nx pv a xs x" and rear: "linked nx pv x ys b"
    by auto
  have p: "pv x = t" and n: "nx x = hd (ys @ [b])"
    using linked_prev [OF front] linked_next [OF rear] by (simp_all add: t_def)
  have t: "t \<in> insert a (set xs)"
    using last_in_set [of "a # xs"] by (auto simp: t_def)
  have redirect: "linked (nx(t := z)) (pv(z := t)) a xs z" if "z \<notin> set xs" for z
    unfolding t_def using that d a by (intro linked_redirect_end [OF front]) auto
  show ?thesis
  proof (cases ys)
    case Nil
    then show ?thesis
      using redirect [of b] b unfolding p n by simp
  next
    case (Cons y zs)
    have "linked nx pv y zs b"
      using rear Cons by simp
    then have "linked (nx(t := y)) (pv(y := t)) y zs b"
      by (rule linked_cong) (use t d a b Cons in auto)
    moreover have "linked (nx(t := y)) (pv(y := t)) a xs y"
      using d Cons by (intro redirect) auto
    ultimately show ?thesis
      unfolding p n Cons by simp
  qed
qed

text \<open>\<^verbatim>\<open>p->next = a->next; p->prev = a; a->next->prev = p; a->next = p;\<close>\<close>

lemma linked_push_front:
  assumes "linked nx pv a xs b" and "p \<notin> insert a (insert b (set xs))"
    and "a \<notin> set xs" and "b \<notin> set xs" and "distinct xs"
  shows "linked (nx(p := nx a, a := p)) (pv(p := a, nx a := p)) a (p # xs) b"
proof (cases xs)
  case Nil
  then show ?thesis
    using assms by auto
next
  case (Cons y zs)
  then have "linked nx pv y zs b" and "nx a = y"
    using assms(1) by auto
  moreover from \<open>linked nx pv y zs b\<close>
  have "linked (nx(p := y, a := p)) (pv(p := a, y := p)) y zs b"
    by (rule linked_cong) (use assms Cons in auto)
  ultimately show ?thesis
    using assms Cons by auto
qed

text \<open>\<^verbatim>\<open>t = b->prev; p->next = b; p->prev = t; t->next = p; b->prev = p;\<close>\<close>

lemma linked_push_back:
  assumes "linked nx pv a xs b" and "p \<notin> insert a (insert b (set xs))"
    and "distinct (a # xs)" and "b \<notin> set xs"
  shows "linked (nx(p := b, pv b := p)) (pv(p := pv b, b := p)) a (xs @ [p]) b"
proof -
  let ?t = "last (a # xs)"
  have t: "pv b = ?t"
    using assms(1) by (rule linked_prev)
  have "?t \<in> insert a (set xs)"
    using last_in_set [of "a # xs"] by auto
  then have tp: "?t \<noteq> p"
    using assms(2) by auto
  have "linked (nx(?t := p)) (pv(p := ?t)) a xs p"
    using assms by (intro linked_redirect_end) auto
  then have "linked (nx(p := b, ?t := p)) (pv(p := ?t, b := p)) a xs p"
    by (rule linked_cong) (use assms in auto)
  then show ?thesis
    using t tp assms(2) by auto
qed

lemma ring_rotate:
  assumes "ring nx pv (xs @ y # ys)"
  shows "ring nx pv (y # ys @ xs)"
proof (cases xs)
  case Nil
  then show ?thesis
    using assms by simp
next
  case (Cons h zs)
  then have "linked nx pv h zs y" and "linked nx pv y ys h" and "distinct (h # zs @ y # ys)"
    using assms by (auto simp: ring_Cons)
  then show ?thesis
    using Cons by (auto simp: ring_Cons)
qed

lemma ring_rotate_index:
  "ring nx pv xs \<Longrightarrow> i < length xs \<Longrightarrow> ring nx pv (drop i xs @ take i xs)"
  using ring_rotate [of nx pv "take i xs" "xs ! i" "drop (Suc i) xs"]
  by (simp add: Cons_nth_drop_Suc id_take_nth_drop [symmetric] rotate_to_front)

text \<open>A ring visits its nodes in order: the successor of the \<open>i\<close>-th is the next one.\<close>

lemma linked_nth:
  assumes "linked nx pv a xs b" and "i \<le> length xs"
  shows "nx ((a # xs) ! i) = (xs @ [b]) ! i \<and> pv ((xs @ [b]) ! i) = (a # xs) ! i"
  using assms
proof (induction xs arbitrary: a i)
  case Nil
  then show ?case by simp
next
  case (Cons x xs)
  show ?case
  proof (cases i)
    case 0
    then show ?thesis
      using Cons.prems by simp
  next
    case (Suc k)
    then show ?thesis
      using Cons.prems Cons.IH [of x k] by simp
  qed
qed

lemma ring_next_nth:
  assumes "ring nx pv xs" and "i < length xs"
  shows "nx (xs ! i) = xs ! (Suc i mod length xs)"
proof -
  obtain h ys where xs: "xs = h # ys"
    using assms(2) by (cases xs) auto
  then have "nx ((h # ys) ! i) = (ys @ [h]) ! i"
    using assms linked_nth [of nx pv h ys h i] by (auto simp: ring_Cons)
  then show ?thesis
    using assms(2) xs by (cases "Suc i = length xs") (auto simp: nth_append)
qed

text \<open>Removing a node from a ring of at least two, and adding one at the end.\<close>

lemma ring_remove:
  assumes "ring nx pv (x # y # ys)"
  shows "ring (nx(pv x := nx x)) (pv(nx x := pv x)) (y # ys)"
proof -
  from assms have d: "distinct (x # y # ys)" and l: "linked nx pv y ys x" and "nx x = y" "pv y = x"
    by (auto simp: ring_Cons)
  have "pv x = last (y # ys)"
    using l by (rule linked_prev)
  moreover have "linked (nx(last (y # ys) := y)) (pv(y := last (y # ys))) y ys y"
    using l d by (intro linked_redirect_end) auto
  ultimately show ?thesis
    using d \<open>nx x = y\<close> by (simp add: ring_Cons)
qed

lemma ring_append:
  assumes "ring nx pv (h # xs)" and "p \<notin> set (h # xs)"
  shows "ring (nx(p := h, pv h := p)) (pv(p := pv h, h := p)) (h # xs @ [p])"
proof -
  have "linked (nx(p := h, pv h := p)) (pv(p := pv h, h := p)) h (xs @ [p]) h"
    using assms by (intro linked_push_back) (auto simp: ring_Cons)
  then show ?thesis
    using assms by (auto simp: ring_Cons simp del: linked_append)
qed

lemma ring_single: "ring nx pv [h] \<longleftrightarrow> nx h = h \<and> pv h = h"
  by (simp add: ring_Cons)

lemma ring_next_self:
  assumes "ring nx pv xs" and "x \<in> set xs"
  shows "nx x = x \<longleftrightarrow> xs = [x]"
proof
  assume self: "nx x = x"
  obtain us vs where xs: "xs = us @ x # vs"
    using assms(2) by (meson split_list)
  then have r: "ring nx pv (x # vs @ us)"
    using assms(1) ring_rotate [of nx pv us x vs] by simp
  show "xs = [x]"
  proof (cases "vs @ us")
    case Nil
    then show ?thesis
      using xs by simp
  next
    case (Cons y ys)
    then show ?thesis
      using r self by (auto simp: ring_Cons)
  qed
qed (use assms in \<open>auto simp: ring_single\<close>)

lemma linked_rev: "linked nx pv a xs b \<Longrightarrow> linked pv nx b (rev xs) a"
  by (induction xs arbitrary: a) auto

section \<open>Following the pointers\<close>

text \<open>
  \<^verbatim>\<open>for(p = head->next; p != head; p = p->next) if(P(p)) ...\<close>: \<open>None\<close> when the bound is
  exhausted, \<open>Some None\<close> when the walk comes back to the head, otherwise the first hit.
\<close>

fun walk_find :: "nat \<Rightarrow> ('p \<Rightarrow> 'p) \<Rightarrow> ('p \<Rightarrow> bool) \<Rightarrow> 'p \<Rightarrow> 'p \<Rightarrow> 'p option option" where
  "walk_find 0 nx P h p = None"
| "walk_find (Suc n) nx P h p =
     (if p = h then Some None else if P p then Some (Some p) else walk_find n nx P h (nx p))"

lemma walk_find_linked:
  assumes "linked nx pv a xs h" and "h \<notin> set xs" and "length xs < n"
  shows "walk_find n nx P h (nx a) = Some (find P xs)"
  using assms
proof (induction xs arbitrary: a n)
  case Nil
  then show ?case by (cases n) auto
next
  case (Cons x xs)
  obtain m where m: "n = Suc m"
    using Cons.prems(3) by (cases n) auto
  have "walk_find m nx P h (nx x) = Some (find P xs)"
    using Cons.prems m by (intro Cons.IH) auto
  then show ?case
    using Cons.prems m by auto
qed

lemma walk_find_ring:
  assumes "ring nx pv (h # xs)" and "length xs < n"
  shows "walk_find n nx P h (nx h) = Some (find P xs)"
    and "walk_find n pv P h (pv h) = Some (find P (rev xs))"
  using assms walk_find_linked [of nx pv h xs h n P]
    walk_find_linked [of pv nx h "rev xs" h n P] linked_rev [of nx pv h xs h]
  by (auto simp: ring_Cons)

text \<open>Moving a node right behind the sentinel.\<close>

lemma ring_unlink:
  assumes "ring nx pv (h # xs)" and "x \<in> set xs"
  shows "ring (nx(pv x := nx x)) (pv(nx x := pv x)) (h # remove1 x xs)"
proof -
  obtain us vs where xs: "xs = us @ x # vs" and "x \<notin> set us"
    using assms(2) by (meson split_list_first)
  then have "remove1 x xs = us @ vs"
    by (simp add: remove1_append)
  moreover have "linked (nx(pv x := nx x)) (pv(nx x := pv x)) h (us @ vs) h"
    using assms(1) unfolding xs ring_Cons by (intro linked_unlink) auto
  ultimately show ?thesis
    using assms(1) xs by (auto simp: ring_Cons simp del: linked_append)
qed

lemma ring_push_front:
  assumes "ring nx pv (h # xs)" and "x \<notin> set (h # xs)"
  shows "ring (nx(x := nx h, h := x)) (pv(x := h, nx h := x)) (h # x # xs)"
proof -
  have "linked (nx(x := nx h, h := x)) (pv(x := h, nx h := x)) h (x # xs) h"
    using assms by (intro linked_push_front) (auto simp: ring_Cons)
  then show ?thesis
    using assms by (auto simp: ring_Cons)
qed

end
