(* ===== verification/Bio.thy ===== *)
theory Bio
  imports Sleeplock Dll
begin

text \<open>
  The buffer cache (\<^verbatim>\<open>kernel/bio.c\<close>) over a disk.

  \<open>bufs\<close> holds the \<^verbatim>\<open>NBUF\<close> buffers of \<^verbatim>\<open>bcache.buf\<close> and, behind them, the list head
  \<^verbatim>\<open>bcache.head\<close> (index \<open>bhead\<close>); \<^verbatim>\<open>prev\<close> and \<^verbatim>\<open>next\<close> are indices.  The sleep lock of buffer \<open>i\<close> is
  \<open>SL_buf i\<close>.  A disk request is followed as the requesting process sees it: the call
  transfers the block and returns (the request queue behind it is theory \<open>Virtio\<close>); it goes to
  sleep on the way, so it needs a process and no spin lock held.  The disk is a function from
  the number of a request's first 512-byte sector to the \<^verbatim>\<open>BSIZE\<close> bytes there.

  Shown: the list of buffers stays a ring through the head that holds every buffer once, most
  recently used first; no block is cached twice; a buffer nobody refers to agrees with the
  disk; and what a reader sees of a block is the cached copy, or the disk's where there is none.
\<close>

section \<open>Model\<close>

abbreviation (input) BSIZE :: nat where "BSIZE \<equiv> 1024"
abbreviation (input) NBUF :: nat where "NBUF \<equiv> 30"
abbreviation (input) bhead :: nat where "bhead \<equiv> 30"

record buf =
  b_valid :: bool
  b_dev :: uint32
  b_blockno :: uint32
  b_refcnt :: uint32
  b_prev :: nat
  b_next :: nat
  b_data :: "byte list"

record biost = slst +
  bufs :: "buf list"
  disk :: "uint64 \<Rightarrow> byte list"

definition upd_buf :: "nat \<Rightarrow> (buf \<Rightarrow> buf) \<Rightarrow> 'a biost_scheme \<Rightarrow> 'a biost_scheme" where
  "upd_buf i f s = s\<lparr>bufs := (bufs s)[i := f (bufs s ! i)]\<rparr>"

abbreviation bnext :: "'a biost_scheme \<Rightarrow> nat \<Rightarrow> nat" where
  "bnext s i \<equiv> b_next (bufs s ! i)"

abbreviation bprev :: "'a biost_scheme \<Rightarrow> nat \<Rightarrow> nat" where
  "bprev s i \<equiv> b_prev (bufs s ! i)"

definition set_next :: "nat \<Rightarrow> nat \<Rightarrow> 'a biost_scheme \<Rightarrow> 'a biost_scheme" where
  "set_next i j s = upd_buf i (\<lambda>b. b\<lparr>b_next := j\<rparr>) s"

definition set_prev :: "nat \<Rightarrow> nat \<Rightarrow> 'a biost_scheme \<Rightarrow> 'a biost_scheme" where
  "set_prev i j s = upd_buf i (\<lambda>b. b\<lparr>b_prev := j\<rparr>) s"

text \<open>Linking a buffer in behind the head, the four assignments of \<^verbatim>\<open>binit()\<close> and \<^verbatim>\<open>brelse()\<close>.\<close>

definition link_front :: "nat \<Rightarrow> 'a biost_scheme \<Rightarrow> 'a biost_scheme" where
  "link_front i s =
     (let s = set_next i (bnext s bhead) s;
          s = set_prev i bhead s;
          s = set_prev (bnext s bhead) i s in
      set_next bhead i s)"

definition binit_one :: "nat \<Rightarrow> 'a biost_scheme \<Rightarrow> 'a biost_scheme" where
  "binit_one i s = link_front i (initsleeplock (SL_buf i) s)"

definition binit :: "'a biost_scheme \<Rightarrow> 'a biost_scheme" where
  "binit s = fold binit_one [0..<NBUF] (set_next bhead bhead (set_prev bhead bhead s))"

text \<open>
  \<^verbatim>\<open>bget()\<close>.  The two searches do not change the list, so a walk that has not come back to the
  head after \<open>NBUF\<close> buffers never will: the bound on the walk decides \<open>Spin\<close> exactly.
\<close>

definition bget :: "uint32 \<Rightarrow> uint32 \<Rightarrow> 'a biost_scheme \<Rightarrow> ('a biost_scheme, nat) outcome" where
  "bget dev blockno s =
     andThen (acquire L_bcache s) (\<lambda>_ s.
     case walk_find (Suc NBUF) (bnext s)
            (\<lambda>i. b_dev (bufs s ! i) = dev \<and> b_blockno (bufs s ! i) = blockno) bhead (bnext s bhead) of
       None \<Rightarrow> Spin
     | Some (Some i) \<Rightarrow>
         let s = upd_buf i (\<lambda>b. b\<lparr>b_refcnt := b_refcnt b + 1\<rparr>) s in
         andThen (release L_bcache s) (\<lambda>_ s.
         andThen (acquiresleep (SL_buf i) s) (\<lambda>_ s. Ok i s))
     | Some None \<Rightarrow>
         (case walk_find (Suc NBUF) (bprev s) (\<lambda>i. b_refcnt (bufs s ! i) = 0) bhead (bprev s bhead) of
            None \<Rightarrow> Spin
          | Some (Some i) \<Rightarrow>
              let s = upd_buf i (\<lambda>b. b\<lparr>b_dev := dev, b_blockno := blockno, b_valid := False,
                                       b_refcnt := 1\<rparr>) s in
              andThen (release L_bcache s) (\<lambda>_ s.
              andThen (acquiresleep (SL_buf i) s) (\<lambda>_ s. Ok i s))
          | Some None \<Rightarrow> Panic ''bget: no buffers''))"

text \<open>\<^verbatim>\<open>uint64 sector = b->blockno * (BSIZE / 512)\<close>: the product is taken in 32 bits.\<close>

definition disk_sector :: "uint32 \<Rightarrow> uint64" where
  "disk_sector blockno = ucast (blockno * 2)"

definition virtio_disk_rw :: "nat \<Rightarrow> bool \<Rightarrow> 'a biost_scheme \<Rightarrow> ('a biost_scheme, unit) outcome" where
  "virtio_disk_rw i write s = with_myproc s (\<lambda>p.
     if held s \<noteq> [] then Panic ''sched locks''
     else let sector = disk_sector (b_blockno (bufs s ! i)) in
       if write then Ok () (s\<lparr>disk := (disk s)(sector := b_data (bufs s ! i))\<rparr>)
       else Ok () (upd_buf i (\<lambda>b. b\<lparr>b_data := disk s sector\<rparr>) s))"

definition bread :: "uint32 \<Rightarrow> uint32 \<Rightarrow> 'a biost_scheme \<Rightarrow> ('a biost_scheme, nat) outcome" where
  "bread dev blockno s =
     andThen (bget dev blockno s) (\<lambda>i s.
     if \<not> b_valid (bufs s ! i) then
       andThen (virtio_disk_rw i False s) (\<lambda>_ s.
       Ok i (upd_buf i (\<lambda>b. b\<lparr>b_valid := True\<rparr>) s))
     else Ok i s)"

definition bwrite :: "nat \<Rightarrow> 'a biost_scheme \<Rightarrow> ('a biost_scheme, unit) outcome" where
  "bwrite i s =
     andThen (holdingsleep (SL_buf i) s) (\<lambda>h s.
     if \<not> h then Panic ''bwrite'' else virtio_disk_rw i True s)"

definition brelse :: "nat \<Rightarrow> 'a biost_scheme \<Rightarrow> ('a biost_scheme, unit) outcome" where
  "brelse i s =
     andThen (holdingsleep (SL_buf i) s) (\<lambda>h s.
     if \<not> h then Panic ''brelse'' else
     andThen (releasesleep (SL_buf i) s) (\<lambda>_ s.
     andThen (acquire L_bcache s) (\<lambda>_ s.
     let s = upd_buf i (\<lambda>b. b\<lparr>b_refcnt := b_refcnt b - 1\<rparr>) s;
         s = (if b_refcnt (bufs s ! i) = 0 then
                let s = set_prev (bnext s i) (bprev s i) s;
                    s = set_next (bprev s i) (bnext s i) s in
                link_front i s
              else s) in
     release L_bcache s)))"

definition bpin :: "nat \<Rightarrow> 'a biost_scheme \<Rightarrow> ('a biost_scheme, unit) outcome" where
  "bpin i s =
     andThen (acquire L_bcache s) (\<lambda>_ s.
     release L_bcache (upd_buf i (\<lambda>b. b\<lparr>b_refcnt := b_refcnt b + 1\<rparr>) s))"

definition bunpin :: "nat \<Rightarrow> 'a biost_scheme \<Rightarrow> ('a biost_scheme, unit) outcome" where
  "bunpin i s =
     andThen (acquire L_bcache s) (\<lambda>_ s.
     release L_bcache (upd_buf i (\<lambda>b. b\<lparr>b_refcnt := b_refcnt b - 1\<rparr>) s))"

text \<open>The \<^verbatim>\<open>memmove\<close>s of other files into \<^verbatim>\<open>b->data\<close>.\<close>

definition set_data :: "nat \<Rightarrow> byte list \<Rightarrow> 'a biost_scheme \<Rightarrow> 'a biost_scheme" where
  "set_data i d s = upd_buf i (\<lambda>b. b\<lparr>b_data := d\<rparr>) s"

section \<open>The ring of buffers\<close>

definition mru :: "'a biost_scheme \<Rightarrow> nat list \<Rightarrow> bool" where
  "mru s xs \<longleftrightarrow> length (bufs s) = Suc NBUF \<and> ring (bnext s) (bprev s) (bhead # xs) \<and>
     (\<forall>j. j \<in> set xs \<longleftrightarrow> j < NBUF)"

lemma mruD:
  assumes "mru s xs"
  shows "length (bufs s) = Suc NBUF" and "ring (bnext s) (bprev s) (bhead # xs)"
    and "j \<in> set xs \<longleftrightarrow> j < NBUF"
  using assms unfolding mru_def by blast+

lemma upd_buf_simps [simp]:
  "held (upd_buf i f s) = held s" "proc (upd_buf i f s) = proc s"
  "cpu_proc (upd_buf i f s) = cpu_proc s" "slocks (upd_buf i f s) = slocks s"
  "disk (upd_buf i f s) = disk s" "length (bufs (upd_buf i f s)) = length (bufs s)"
  "i < length (bufs s) \<Longrightarrow> bufs (upd_buf i f s) ! i = f (bufs s ! i)"
  "i \<noteq> j \<Longrightarrow> bufs (upd_buf i f s) ! j = bufs s ! j"
  by (simp_all add: upd_buf_def)

lemma pointers_of_set:
  assumes "i < length (bufs s)"
  shows "bnext (set_next i j s) k = (if k = i then j else bnext s k)"
    and "bprev (set_next i j s) k = bprev s k"
    and "bprev (set_prev i j s) k = (if k = i then j else bprev s k)"
    and "bnext (set_prev i j s) k = bnext s k"
  using assms by (auto simp: set_next_def set_prev_def upd_buf_def nth_list_update)

lemma mru_bounds:
  assumes "mru s xs" and "i \<in> insert bhead (set xs)"
  shows "i < length (bufs s)" and "bnext s i < length (bufs s)" and "bprev s i < length (bufs s)"
proof -
  have ring: "ring (bnext s) (bprev s) (bhead # xs)" and len: "length (bufs s) = Suc NBUF"
    and set: "\<And>j. j \<in> set xs \<longleftrightarrow> j < NBUF"
    using mruD [OF assms(1)] by blast+
  have in_range: "j \<in> set (bhead # xs) \<Longrightarrow> j < length (bufs s)" for j
    by (auto simp: set len)
  then show "i < length (bufs s)"
    using assms(2) by simp
  obtain us vs where split: "bhead # xs = us @ i # vs"
    using assms(2) split_list [of i "bhead # xs"] by auto
  then have "ring (bnext s) (bprev s) (i # vs @ us)"
    using ring ring_rotate by metis
  then have "linked (bnext s) (bprev s) i (vs @ us) i"
    by (simp add: ring_Cons)
  from linked_next [OF this] linked_prev [OF this]
  have "bnext s i = hd ((vs @ us) @ [i])" and "bprev s i = last (i # vs @ us)" .
  then have "bnext s i \<in> set (vs @ us @ [i])" and "bprev s i \<in> set (i # vs @ us)"
    using hd_in_set [of "(vs @ us) @ [i]"] last_in_set [of "i # vs @ us"] by auto
  moreover have "set (bhead # xs) = set (i # vs @ us)"
    unfolding split by auto
  ultimately show "bnext s i < length (bufs s)" and "bprev s i < length (bufs s)"
    using in_range by auto
qed

lemma length_set_ptr [simp]:
  "length (bufs (set_next i j s)) = length (bufs s)" "length (bufs (set_prev i j s)) = length (bufs s)"
  by (simp_all add: set_next_def set_prev_def)

lemma pointers_link_front:
  assumes "i < length (bufs s)" and "bhead < length (bufs s)" and "bnext s bhead < length (bufs s)"
    and "i \<noteq> bhead"
  shows "bnext (link_front i s) = (bnext s)(i := bnext s bhead, bhead := i)"
    and "bprev (link_front i s) = (bprev s)(i := bhead, bnext s bhead := i)"
  using assms by (auto simp: link_front_def Let_def pointers_of_set fun_eq_iff)

text \<open>Only the two pointer fields and the ring change when a buffer moves to the front.\<close>

definition move_front :: "nat \<Rightarrow> 'a biost_scheme \<Rightarrow> 'a biost_scheme" where
  "move_front i s =
     (let s = set_prev (bnext s i) (bprev s i) s;
          s = set_next (bprev s i) (bnext s i) s in
      link_front i s)"

lemma mru_head_next:
  "mru s xs \<Longrightarrow> bnext s bhead < length (bufs s)" "mru s xs \<Longrightarrow> bhead < length (bufs s)"
  by (auto intro: mru_bounds)

lemma mru_cong:
  assumes "mru s xs" and "length (bufs t) = length (bufs s)"
    and "\<And>i. bnext t i = bnext s i" and "\<And>i. bprev t i = bprev s i"
  shows "mru t xs"
proof -
  have "bnext t = bnext s" and "bprev t = bprev s"
    using assms(3,4) by auto
  then show ?thesis
    using assms(1,2) by (simp add: mru_def)
qed

lemma ring_link_front:
  assumes "ring (bnext s) (bprev s) (bhead # xs)" and "i \<notin> set (bhead # xs)"
    and "\<And>j. j \<in> set (bhead # xs) \<Longrightarrow> j < length (bufs s)" and "i < length (bufs s)"
  shows "ring (bnext (link_front i s)) (bprev (link_front i s)) (bhead # i # xs)"
proof -
  have "bnext s bhead \<in> set (bhead # xs)"
    using assms(1) by (cases xs) (auto simp: ring_Cons)
  then have "bnext s bhead < length (bufs s)" and "bhead < length (bufs s)" and "i \<noteq> bhead"
    using assms(2,3) by auto
  note ptr = pointers_link_front [OF assms(4) this(2,1,3)]
  show ?thesis
    unfolding ptr using assms(1,2) by (rule ring_push_front)
qed

lemma pointers_unlink:
  assumes "bnext s i < length (bufs s)" and "bprev s i < length (bufs s)" and "bnext s i \<noteq> i"
  defines "u \<equiv> set_next (bprev s i) (bnext s i) (set_prev (bnext s i) (bprev s i) s)"
  shows "move_front i s = link_front i u"
    and "bnext u = (bnext s)(bprev s i := bnext s i)" and "bprev u = (bprev s)(bnext s i := bprev s i)"
  using assms by (auto simp: move_front_def Let_def pointers_of_set)

lemma mru_move_front:
  assumes "mru s xs" and "i < NBUF"
  shows "mru (move_front i s) (i # remove1 i xs)"
proof -
  define u where "u = set_next (bprev s i) (bnext s i) (set_prev (bnext s i) (bprev s i) s)"
  have ring: "ring (bnext s) (bprev s) (bhead # xs)" and len: "length (bufs s) = Suc NBUF"
    and set: "\<And>j. j \<in> set xs \<longleftrightarrow> j < NBUF" and i: "i \<in> set xs"
    using mruD [OF assms(1)] assms(2) by blast+
  have d: "distinct (bhead # xs)"
    using ring by (simp add: ring_Cons)
  have b: "i < length (bufs s)" "bnext s i < length (bufs s)" "bprev s i < length (bufs s)"
    using mru_bounds [OF assms(1)] i by auto
  have "bnext s i \<noteq> i"
    using ring_next_self [OF ring, of i] i d by auto
  note ptr = pointers_unlink [OF b(2,3) this, folded u_def]
  have ring': "ring (bnext u) (bprev u) (bhead # remove1 i xs)"
    unfolding ptr using ring i by (rule ring_unlink)
  have set': "j \<in> set (remove1 i xs) \<longleftrightarrow> j < NBUF \<and> j \<noteq> i" for j
    using d by (simp add: set_remove1_eq set)
  have len': "length (bufs u) = Suc NBUF"
    using len by (simp add: u_def)
  have "ring (bnext (link_front i u)) (bprev (link_front i u)) (bhead # i # remove1 i xs)"
    using ring' len' assms(2) by (intro ring_link_front) (auto simp: set')
  moreover have "length (bufs (link_front i u)) = Suc NBUF"
    using len' by (simp add: link_front_def Let_def)
  moreover have "j \<in> set (i # remove1 i xs) \<longleftrightarrow> j < NBUF" for j
    using assms(2) by (auto simp: set')
  ultimately show ?thesis
    unfolding ptr(1) mru_def by blast
qed

text \<open>What moving pointers leaves alone.\<close>

definition same_but_links :: "'a biost_scheme \<Rightarrow> 'a biost_scheme \<Rightarrow> bool" where
  "same_but_links s t \<longleftrightarrow> (\<exists>bs. t = s\<lparr>bufs := bs\<rparr>) \<and> length (bufs t) = length (bufs s) \<and>
     (\<forall>i. b_valid (bufs t ! i) = b_valid (bufs s ! i) \<and> b_dev (bufs t ! i) = b_dev (bufs s ! i) \<and>
          b_blockno (bufs t ! i) = b_blockno (bufs s ! i) \<and>
          b_refcnt (bufs t ! i) = b_refcnt (bufs s ! i) \<and> b_data (bufs t ! i) = b_data (bufs s ! i))"

lemma same_but_links_refl [simp]: "same_but_links s s"
  by (auto simp: same_but_links_def intro: exI [of _ "bufs s"])

lemma same_but_links_trans: "same_but_links s t \<Longrightarrow> same_but_links t u \<Longrightarrow> same_but_links s u"
  by (auto simp: same_but_links_def)

lemma same_but_links_set [simp]:
  "same_but_links s (set_next i j s)" "same_but_links s (set_prev i j s)"
  by (cases "i < length (bufs s)"; force simp: same_but_links_def set_next_def set_prev_def
      upd_buf_def nth_list_update list_update_beyond)+

lemma same_but_links_link_front [simp]: "same_but_links s (link_front i s)"
  unfolding link_front_def Let_def by (meson same_but_links_set same_but_links_trans)

lemma same_but_links_move_front [simp]: "same_but_links s (move_front i s)"
  unfolding move_front_def Let_def
  by (meson same_but_links_set same_but_links_link_front same_but_links_trans)

section \<open>The invariant of the cache\<close>

definition bkey :: "'a biost_scheme \<Rightarrow> nat \<Rightarrow> uint32 \<times> uint32" where
  "bkey s i = (b_dev (bufs s ! i), b_blockno (bufs s ! i))"

text \<open>
  A freshly initialised buffer has device and block number \<open>0\<close>; no part of the kernel asks for
  that block, so this pair marks the buffers never used.
\<close>

definition buf_ok :: "'a biost_scheme \<Rightarrow> nat \<Rightarrow> bool" where
  "buf_ok s i \<longleftrightarrow>
     length (b_data (bufs s ! i)) = BSIZE \<and>
     (bkey s i = (0, 0) \<longrightarrow> \<not> b_valid (bufs s ! i) \<and> b_refcnt (bufs s ! i) = 0) \<and>
     (b_refcnt (bufs s ! i) = 0 \<longrightarrow> \<not> sl_locked (slocks s (SL_buf i)) \<and>
        (b_valid (bufs s ! i) \<longrightarrow> b_data (bufs s ! i) = disk s (disk_sector (b_blockno (bufs s ! i)))))"

definition no_dup :: "'a biost_scheme \<Rightarrow> bool" where
  "no_dup s \<longleftrightarrow> (\<forall>i<NBUF. \<forall>j<NBUF. i \<noteq> j \<longrightarrow> bkey s i = bkey s j \<longrightarrow> bkey s i = (0, 0))"

definition bcache_ok :: "'a biost_scheme \<Rightarrow> nat list \<Rightarrow> bool" where
  "bcache_ok s xs \<longleftrightarrow> mru s xs \<and> no_dup s \<and> (\<forall>i<NBUF. buf_ok s i) \<and>
     (\<forall>x. length (disk s x) = BSIZE)"

text \<open>The buffer that holds a block, and what a reader of the block gets to see.\<close>

definition cached :: "'a biost_scheme \<Rightarrow> uint32 \<times> uint32 \<Rightarrow> nat option" where
  "cached s k = find (\<lambda>i. bkey s i = k) [0..<NBUF]"

definition bview :: "'a biost_scheme \<Rightarrow> uint32 \<times> uint32 \<Rightarrow> byte list" where
  "bview s k =
     (case cached s k of
        Some i \<Rightarrow> if b_valid (bufs s ! i) then b_data (bufs s ! i) else disk s (disk_sector (snd k))
      | None \<Rightarrow> disk s (disk_sector (snd k)))"

lemma cached_Some:
  assumes "no_dup s" and "k \<noteq> (0, 0)"
  shows "cached s k = Some i \<longleftrightarrow> i < NBUF \<and> bkey s i = k"
proof
  assume "cached s k = Some i"
  then show "i < NBUF \<and> bkey s i = k"
    by (auto simp: cached_def find_Some_iff)
next
  assume i: "i < NBUF \<and> bkey s i = k"
  then have "cached s k \<noteq> None"
    by (auto simp: cached_def find_None_iff)
  then obtain j where j: "cached s k = Some j"
    by auto
  then have "j < NBUF \<and> bkey s j = k"
    by (auto simp: cached_def find_Some_iff)
  then show "cached s k = Some i"
    using i j assms by (auto simp: no_dup_def)
qed

lemma cached_None: "cached s k = None \<longleftrightarrow> (\<forall>i<NBUF. bkey s i \<noteq> k)"
  by (auto simp: cached_def find_None_iff)

section \<open>Finding a buffer\<close>

lemma bcache_okD:
  assumes "bcache_ok s xs"
  shows "mru s xs" and "no_dup s" and "i < NBUF \<Longrightarrow> buf_ok s i" and "length (disk s x) = BSIZE"
  using assms by (auto simp: bcache_ok_def)

lemma mru_walk:
  assumes "mru s xs"
  shows "walk_find (Suc NBUF) (bnext s) P bhead (bnext s bhead) = Some (find P xs)"
    and "walk_find (Suc NBUF) (bprev s) P bhead (bprev s bhead) = Some (find P (rev xs))"
proof -
  have "distinct xs"
    using mruD(2) [OF assms] by (simp add: ring_Cons)
  moreover have "set xs = {..<NBUF}"
    using mruD(3) [OF assms] by blast
  ultimately have "length xs = NBUF"
    using distinct_card [of xs] by simp
  then show "walk_find (Suc NBUF) (bnext s) P bhead (bnext s bhead) = Some (find P xs)"
    and "walk_find (Suc NBUF) (bprev s) P bhead (bprev s bhead) = Some (find P (rev xs))"
    using walk_find_ring [OF mruD(2) [OF assms], of "Suc NBUF" P] by simp_all
qed

text \<open>The state after a buffer was found, or recycled, and locked.\<close>

definition bget_hit :: "nat \<Rightarrow> 'a biost_scheme \<Rightarrow> 'a biost_scheme" where
  "bget_hit i s = take_lock (SL_buf i) (upd_buf i (\<lambda>b. b\<lparr>b_refcnt := b_refcnt b + 1\<rparr>) s)"

definition bget_miss :: "uint32 \<Rightarrow> uint32 \<Rightarrow> nat \<Rightarrow> 'a biost_scheme \<Rightarrow> 'a biost_scheme" where
  "bget_miss dev blockno i s =
     take_lock (SL_buf i) (upd_buf i (\<lambda>b. b\<lparr>b_dev := dev, b_blockno := blockno, b_valid := False,
       b_refcnt := 1\<rparr>) s)"

lemma bget_hit_eq:
  assumes ok: "bcache_ok s xs" and "L_bcache \<notin> set (held s)" and "L_sleep (SL_buf i) \<notin> set (held s)"
    and "cpu_proc s \<noteq> None" and key: "(dev, blockno) \<noteq> (0, 0)"
    and i: "cached s (dev, blockno) = Some i" and "\<not> sl_locked (slocks s (SL_buf i))"
  shows "bget dev blockno s = Ok i (bget_hit i s)"
proof -
  have ik: "i < NBUF" "bkey s i = (dev, blockno)"
    using i cached_Some [OF bcache_okD(2) [OF ok] key] by auto
  have "find (\<lambda>i. b_dev (bufs s ! i) = dev \<and> b_blockno (bufs s ! i) = blockno) xs = Some i"
    using ik key bcache_okD(2) [OF ok] mruD(3) [OF bcache_okD(1) [OF ok]]
    by (intro find_unique) (auto simp: bkey_def no_dup_def)
  then have "walk_find (Suc NBUF) (bnext s)
      (\<lambda>i. b_dev (bufs s ! i) = dev \<and> b_blockno (bufs s ! i) = blockno) bhead (bnext s bhead) =
      Some (Some i)"
    using mru_walk(1) [OF bcache_okD(1) [OF ok]] by simp
  moreover have "acquiresleep (SL_buf i) (upd_buf i f s) = Ok () (take_lock (SL_buf i) (upd_buf i f s))"
    for f
    using assms by (intro acquiresleep_free) auto
  ultimately show ?thesis
    using assms(2) by (simp add: bget_def Let_def bget_hit_def upd_buf_def del: walk_find.simps)
qed

lemma bget_miss_eq:
  assumes ok: "bcache_ok s xs" and "L_bcache \<notin> set (held s)" and "L_sleep (SL_buf i) \<notin> set (held s)"
    and "cpu_proc s \<noteq> None" and miss: "cached s (dev, blockno) = None"
    and i: "find (\<lambda>i. b_refcnt (bufs s ! i) = 0) (rev xs) = Some i"
  shows "bget dev blockno s = Ok i (bget_miss dev blockno i s)"
proof -
  note mru = bcache_okD(1) [OF ok]
  have "find (\<lambda>i. b_dev (bufs s ! i) = dev \<and> b_blockno (bufs s ! i) = blockno) xs = None"
    using miss mruD(3) [OF mru] by (auto simp: find_None_iff cached_None bkey_def)
  then have "walk_find (Suc NBUF) (bnext s)
      (\<lambda>i. b_dev (bufs s ! i) = dev \<and> b_blockno (bufs s ! i) = blockno) bhead (bnext s bhead) =
      Some None"
    using mru_walk(1) [OF mru] by simp
  moreover have "walk_find (Suc NBUF) (bprev s) (\<lambda>i. b_refcnt (bufs s ! i) = 0) bhead (bprev s bhead) =
      Some (Some i)"
    using mru_walk(2) [OF mru] i by simp
  moreover have "i \<in> set xs" and "b_refcnt (bufs s ! i) = 0"
    using find_SomeD [OF i] by auto
  then have "\<not> sl_locked (slocks s (SL_buf i))"
    using bcache_okD(3) [OF ok] mruD(3) [OF mru] by (auto simp: buf_ok_def)
  then have "acquiresleep (SL_buf i) (upd_buf i f s) = Ok () (take_lock (SL_buf i) (upd_buf i f s))"
    for f
    using assms by (intro acquiresleep_free) auto
  ultimately show ?thesis
    using assms(2) by (simp add: bget_def Let_def bget_miss_def upd_buf_def del: walk_find.simps)
qed

lemma bget_no_buffers:
  assumes ok: "bcache_ok s xs" and "L_bcache \<notin> set (held s)"
    and miss: "cached s (dev, blockno) = None" and busy: "\<And>i. i < NBUF \<Longrightarrow> b_refcnt (bufs s ! i) \<noteq> 0"
  shows "bget dev blockno s = Panic ''bget: no buffers''"
proof -
  note mru = bcache_okD(1) [OF ok]
  have "find (\<lambda>i. b_dev (bufs s ! i) = dev \<and> b_blockno (bufs s ! i) = blockno) xs = None"
    using miss mruD(3) [OF mru] by (auto simp: find_None_iff cached_None bkey_def)
  then have "walk_find (Suc NBUF) (bnext s)
      (\<lambda>i. b_dev (bufs s ! i) = dev \<and> b_blockno (bufs s ! i) = blockno) bhead (bnext s bhead) =
      Some None"
    using mru_walk(1) [OF mru] by simp
  moreover have "find (\<lambda>i. b_refcnt (bufs s ! i) = 0) (rev xs) = None"
    using busy mruD(3) [OF mru] by (auto simp: find_None_iff)
  then have "walk_find (Suc NBUF) (bprev s) (\<lambda>i. b_refcnt (bufs s ! i) = 0) bhead (bprev s bhead) =
      Some None"
    using mru_walk(2) [OF mru] by simp
  ultimately show ?thesis
    using assms(2) by (simp add: bget_def del: walk_find.simps)
qed

section \<open>What readers see\<close>

lemma bview_hit:
  assumes "bcache_ok s xs" and "i < NBUF" and "bkey s i = k"
  shows "bview s k = (if b_valid (bufs s ! i) then b_data (bufs s ! i) else disk s (disk_sector (snd k)))"
proof (cases "k = (0, 0)")
  case True
  have "\<not> b_valid (bufs s ! i)"
    using assms True by (auto simp: bcache_ok_def buf_ok_def)
  moreover have "\<not> b_valid (bufs s ! j)" if "cached s k = Some j" for j
  proof -
    have "j < NBUF" and "bkey s j = k"
      using find_SomeD [OF that [unfolded cached_def]] by auto
    then show ?thesis
      using bcache_okD(3) [OF assms(1), of j] True by (simp add: buf_ok_def)
  qed
  ultimately show ?thesis
    by (auto simp: bview_def split: option.split)
next
  case False
  then have "cached s k = Some i"
    using assms cached_Some [OF bcache_okD(2)] by blast
  then show ?thesis
    by (simp add: bview_def)
qed

lemma bview_uncached: "(\<And>i. i < NBUF \<Longrightarrow> bkey s i \<noteq> k) \<Longrightarrow> bview s k = disk s (disk_sector (snd k))"
  using cached_None [of s k] by (simp add: bview_def)

lemma bview_zero:
  assumes "bcache_ok s xs"
  shows "bview s (0, 0) = disk s (disk_sector 0)"
proof (cases "\<exists>i<NBUF. bkey s i = (0, 0)")
  case True
  then obtain i where "i < NBUF" and "bkey s i = (0, 0)"
    by blast
  then show ?thesis
    using bview_hit [OF assms] bcache_okD(3) [OF assms] by (simp add: buf_ok_def)
next
  case False
  then show ?thesis
    using bview_uncached [of s "(0, 0)"] by auto
qed

text \<open>
  Changing one buffer, but not its place in the ring: the invariant is a matter of that
  buffer, and so is the view of the other blocks.
\<close>

definition one_buf :: "nat \<Rightarrow> 'a biost_scheme \<Rightarrow> 'a biost_scheme \<Rightarrow> bool" where
  "one_buf i s t \<longleftrightarrow> length (bufs t) = length (bufs s) \<and> (\<forall>j. j \<noteq> i \<longrightarrow> bufs t ! j = bufs s ! j) \<and>
     bnext t i = bnext s i \<and> bprev t i = bprev s i \<and> disk t = disk s \<and>
     (\<forall>j. j \<noteq> i \<longrightarrow> slocks t (SL_buf j) = slocks s (SL_buf j))"

lemma bcache_ok_one_buf:
  assumes "bcache_ok s xs" and "one_buf i s t" and "i < NBUF" and "buf_ok t i"
    and new: "\<And>j. j < NBUF \<Longrightarrow> j \<noteq> i \<Longrightarrow> bkey s j = bkey t i \<Longrightarrow> bkey t i = (0, 0)"
  shows "bcache_ok t xs"
  unfolding bcache_ok_def
proof (intro conjI allI impI)
  have eq: "bufs t ! j = bufs s ! j" if "j \<noteq> i" for j
    using assms(2) that by (simp add: one_buf_def)
  show "mru t xs"
  proof (rule mru_cong [OF bcache_okD(1) [OF assms(1)]])
    show "bnext t j = bnext s j" and "bprev t j = bprev s j" for j
      using assms(2) by (cases "j = i"; simp add: one_buf_def)+
  qed (use assms(2) in \<open>simp add: one_buf_def\<close>)
  have keyeq: "bkey t j = bkey s j" if "j \<noteq> i" for j
    using eq [OF that] by (simp add: bkey_def)
  show "no_dup t"
    unfolding no_dup_def
  proof (intro allI impI)
    fix a b assume ab: "a < NBUF" "b < NBUF" "a \<noteq> b" "bkey t a = bkey t b"
    show "bkey t a = (0, 0)"
    proof (cases "a = i")
      case True
      then show ?thesis
        using new [of b] ab keyeq [of b] by simp
    next
      case a: False
      show ?thesis
      proof (cases "b = i")
        case True
        then show ?thesis
          using new [of a] ab keyeq [of a] a by simp
      next
        case False
        then show ?thesis
          using a ab keyeq [of a] keyeq [of b] bcache_okD(2) [OF assms(1)]
          unfolding no_dup_def by simp
      qed
    qed
  qed
  show "buf_ok t j" if "j < NBUF" for j
  proof (cases "j = i")
    case False
    then show ?thesis
      using bcache_okD(3) [OF assms(1) that] keyeq [OF False] eq [OF False] assms(2)
      by (simp add: buf_ok_def one_buf_def)
  qed (simp add: assms(4))
  show "length (disk t x) = BSIZE" for x
    using bcache_okD(4) [OF assms(1)] assms(2) by (simp add: one_buf_def)
qed

lemma bview_one_buf:
  assumes "bcache_ok s xs" and "bcache_ok t xs" and "one_buf i s t"
    and "i < NBUF" and "k \<noteq> bkey s i" and "k \<noteq> bkey t i"
  shows "bview t k = bview s k"
proof -
  have eq: "bufs t ! j = bufs s ! j" if "j \<noteq> i" for j
    using assms(3) that by (simp add: one_buf_def)
  have d: "disk t = disk s"
    using assms(3) by (simp add: one_buf_def)
  show ?thesis
  proof (cases "\<exists>j<NBUF. bkey s j = k")
    case True
    then obtain j where j: "j < NBUF" "bkey s j = k"
      by blast
    then have "j \<noteq> i"
      using assms(5) by auto
    then have "bkey t j = k" and "bufs t ! j = bufs s ! j"
      using eq j by (auto simp: bkey_def)
    then show ?thesis
      using bview_hit [OF assms(1) j] bview_hit [OF assms(2) j(1)] d by simp
  next
    case False
    have "bkey t j \<noteq> k" if "j < NBUF" for j
    proof (cases "j = i")
      case True
      then show ?thesis using assms(6) by simp
    next
      case j: False
      then show ?thesis
        using eq [OF j] False that by (auto simp: bkey_def)
    qed
    then show ?thesis
      using False bview_uncached [of t k] bview_uncached [of s k] d by simp
  qed
qed

section \<open>Reading a block\<close>

definition can_bread :: "'a biost_scheme \<Rightarrow> uint32 \<Rightarrow> uint32 \<Rightarrow> bool" where
  "can_bread s dev blockno \<longleftrightarrow> (dev, blockno) \<noteq> (0, 0) \<and>
     (case cached s (dev, blockno) of
        Some i \<Rightarrow> \<not> sl_locked (slocks s (SL_buf i)) \<and> b_refcnt (bufs s ! i) + 1 \<noteq> 0
      | None \<Rightarrow> \<exists>i<NBUF. b_refcnt (bufs s ! i) = 0)"

definition bframe :: "nat \<Rightarrow> 'a biost_scheme \<Rightarrow> 'a biost_scheme \<Rightarrow> bool" where
  "bframe i s t \<longleftrightarrow> one_buf i s t \<and> (\<forall>l. l \<noteq> SL_buf i \<longrightarrow> slocks t l = slocks s l) \<and>
     (\<exists>sl bs. t = s\<lparr>slocks := sl, bufs := bs\<rparr>)"

definition bload :: "nat \<Rightarrow> 'a biost_scheme \<Rightarrow> 'a biost_scheme" where
  "bload i s =
     (if b_valid (bufs s ! i) then s
      else upd_buf i (\<lambda>b. b\<lparr>b_data := disk s (disk_sector (b_blockno (bufs s ! i))), b_valid := True\<rparr>) s)"

lemma bread_of_bget:
  assumes "bget dev blockno s = Ok i t" and "held t = []" and "cpu_proc t \<noteq> None"
  shows "bread dev blockno s = Ok i (bload i t)"
  using assms
  by (cases "i < length (bufs t)")
    (auto simp: bread_def bload_def virtio_disk_rw_def with_myproc_def myproc_def upd_buf_def
      list_update_beyond)

lemma sleepable_cpu [simp]: "sleepable s \<Longrightarrow> cpu_proc s \<noteq> None"
  by simp

lemma bframe_update:
  "one_buf i s (s\<lparr>slocks := sl, bufs := bs\<rparr>) \<Longrightarrow> (\<And>l. l \<noteq> SL_buf i \<Longrightarrow> sl l = slocks s l) \<Longrightarrow>
   bframe i s (s\<lparr>slocks := sl, bufs := bs\<rparr>)"
  by (auto simp: bframe_def)

lemma take_lock_upd_buf:
  "take_lock l (upd_buf i f s) =
     s\<lparr>slocks := (slocks s)(l := \<lparr>sl_locked = True, sl_pid = mypid s\<rparr>),
       bufs := (bufs s)[i := f (bufs s ! i)]\<rparr>"
  by (cases s) (simp add: take_lock_def upd_buf_def mypid_def)

lemma upd_buf_alt: "upd_buf i f s = s\<lparr>slocks := slocks s, bufs := (bufs s)[i := f (bufs s ! i)]\<rparr>"
  by (simp add: upd_buf_def)

lemma one_buf_update:
  assumes "b_next (f (bufs s ! i)) = bnext s i" and "b_prev (f (bufs s ! i)) = bprev s i"
    and "\<And>l. l \<noteq> SL_buf i \<Longrightarrow> sl l = slocks s l"
  shows "bframe i s (s\<lparr>slocks := sl, bufs := (bufs s)[i := f (bufs s ! i)]\<rparr>)"
proof (rule bframe_update)
  show "one_buf i s (s\<lparr>slocks := sl, bufs := (bufs s)[i := f (bufs s ! i)]\<rparr>)"
    using assms by (cases "i < length (bufs s)") (auto simp: one_buf_def list_update_beyond)
qed (simp add: assms(3))

lemma bget_hit_frame: "bframe i s (bget_hit i s)"
  unfolding bget_hit_def take_lock_upd_buf by (rule one_buf_update) auto

lemma bget_miss_frame: "bframe i s (bget_miss dev blockno i s)"
  unfolding bget_miss_def take_lock_upd_buf by (rule one_buf_update) auto

lemma upd_buf_frame:
  assumes "b_next (f (bufs s ! i)) = bnext s i" and "b_prev (f (bufs s ! i)) = bprev s i"
  shows "bframe i s (upd_buf i f s)"
  unfolding upd_buf_alt using assms by (rule one_buf_update) simp

lemma bframe_refl [simp]: "bframe i s s"
  using upd_buf_frame [of id s i] by (simp add: upd_buf_def)

lemma bload_frame: "bframe i s (bload i s)"
  unfolding bload_def by (simp add: upd_buf_frame)

lemma one_buf_trans: "one_buf i s t \<Longrightarrow> one_buf i t u \<Longrightarrow> one_buf i s u"
  unfolding one_buf_def by simp

lemma bframe_trans:
  assumes "bframe i s t" and "bframe i t u"
  shows "bframe i s u"
proof -
  obtain sl bs sl' bs' where "t = s\<lparr>slocks := sl, bufs := bs\<rparr>" and "u = t\<lparr>slocks := sl', bufs := bs'\<rparr>"
    using assms by (auto simp: bframe_def)
  then have "u = s\<lparr>slocks := sl', bufs := bs'\<rparr>"
    by simp
  moreover have "slocks u l = slocks s l" if "l \<noteq> SL_buf i" for l
    using assms that by (simp add: bframe_def)
  moreover have "one_buf i s u"
    using assms one_buf_trans unfolding bframe_def by blast
  ultimately show ?thesis
    unfolding bframe_def by blast
qed

lemma bframe_sleepable: "bframe i s t \<Longrightarrow> sleepable t = sleepable s"
  by (rule sleepable_cong) (auto simp: bframe_def)

text \<open>
  \<^verbatim>\<open>bread()\<close> returns a locked buffer that holds the block a reader sees; nothing else changes, and
  no block's contents change for anyone.
\<close>

definition bread_post ::
  "uint32 \<Rightarrow> uint32 \<Rightarrow> nat list \<Rightarrow> 'a biost_scheme \<Rightarrow> nat \<Rightarrow> 'a biost_scheme \<Rightarrow> bool" where
  "bread_post dev blockno xs s i t \<longleftrightarrow>
     i < NBUF \<and> bcache_ok t xs \<and> sleepable t \<and> bkey t i = (dev, blockno) \<and> owns (SL_buf i) t \<and>
     b_valid (bufs t ! i) \<and> b_data (bufs t ! i) = bview s (dev, blockno) \<and>
     b_refcnt (bufs t ! i) = b_refcnt (bufs s ! i) + 1 \<and> b_refcnt (bufs t ! i) \<noteq> 0 \<and>
     \<not> sl_locked (slocks s (SL_buf i)) \<and> bview t = bview s \<and> bframe i s t \<and>
     (bkey s i = (dev, blockno) \<or> b_refcnt (bufs s ! i) = 0)"

lemma bload_post:
  assumes "bcache_ok s xs" and "bcache_ok u xs" and f: "bframe i s u" and "sleepable s" and "i < NBUF"
    and "bkey u i = (dev, blockno)" and "owns (SL_buf i) u" and "(dev, blockno) \<noteq> (0, 0)"
    and "b_refcnt (bufs u ! i) = b_refcnt (bufs s ! i) + 1" and "b_refcnt (bufs u ! i) \<noteq> 0"
    and "\<not> sl_locked (slocks s (SL_buf i))" and v: "bview u = bview s"
    and "bkey s i = (dev, blockno) \<or> b_refcnt (bufs s ! i) = 0"
  shows "bread_post dev blockno xs s i (bload i u)"
proof -
  let ?t = "bload i u"
  have len: "i < length (bufs u)"
    using mruD(1) [OF bcache_okD(1) [OF assms(2)]] assms(5) by simp
  have key: "bkey ?t i = bkey u i" and sl: "slocks ?t = slocks u" and val: "b_valid (bufs ?t ! i)"
    and ref: "b_refcnt (bufs ?t ! i) = b_refcnt (bufs u ! i)"
    and dat: "b_data (bufs ?t ! i) = (if b_valid (bufs u ! i) then b_data (bufs u ! i)
                                      else disk u (disk_sector blockno))"
    and dsk: "disk ?t = disk u" and own: "owns (SL_buf i) ?t = owns (SL_buf i) u"
    using len assms(6) by (auto simp: bkey_def bload_def owns_def mypid_def)
  have f2: "bframe i u ?t"
    by (rule bload_frame)
  have bok: "buf_ok ?t i"
    using bcache_okD(3) [OF assms(2,5)] bcache_okD(4) [OF assms(2)] key sl ref dat assms(6,8,10)
    by (simp add: buf_ok_def)
  have o2: "one_buf i u ?t"
    using f2 by (simp add: bframe_def)
  have "bkey u j = bkey ?t i \<Longrightarrow> bkey ?t i = (0, 0)" if "j < NBUF" "j \<noteq> i" for j
    using bcache_okD(2) [OF assms(2)] that assms(5) key unfolding no_dup_def by metis
  then have ok: "bcache_ok ?t xs"
    by (rule bcache_ok_one_buf [OF assms(2) o2 assms(5) bok])
  have view: "bview ?t k = bview u k" for k
  proof (cases "k = bkey u i")
    case True
    then show ?thesis
      using bview_hit [OF ok assms(5) key] bview_hit [OF assms(2,5) refl] val dat assms(6) by simp
  next
    case False
    then show ?thesis
      using bview_one_buf [OF assms(2) ok o2 assms(5)] key by simp
  qed
  have "b_data (bufs ?t ! i) = bview s (dev, blockno)"
    using bview_hit [OF assms(2,5,6)] dat v by simp
  then show ?thesis
    unfolding bread_post_def
    using assms ok key own val ref view bframe_sleepable [OF bframe_trans [OF f f2]]
      bframe_trans [OF f f2] by auto
qed

lemma bget_hit_inv:
  assumes "bcache_ok s xs" and "i < NBUF" and "bkey s i = k" and "k \<noteq> (0, 0)"
    and "b_refcnt (bufs s ! i) + 1 \<noteq> 0"
  shows "bcache_ok (bget_hit i s) xs" and "bview (bget_hit i s) = bview s"
proof -
  let ?t = "bget_hit i s"
  have len: "i < length (bufs s)"
    using mruD(1) [OF bcache_okD(1) [OF assms(1)]] assms(2) by simp
  have key: "bkey ?t i = bkey s i" and dat: "b_data (bufs ?t ! i) = b_data (bufs s ! i)"
    and val: "b_valid (bufs ?t ! i) = b_valid (bufs s ! i)" and dsk: "disk ?t = disk s"
    and ref: "b_refcnt (bufs ?t ! i) = b_refcnt (bufs s ! i) + 1"
    using len by (auto simp: bkey_def bget_hit_def take_lock_def upd_buf_def)
  have f: "one_buf i s ?t"
    using bget_hit_frame [of i s] by (simp add: bframe_def)
  have bok: "buf_ok ?t i"
    using bcache_okD(3) [OF assms(1,2)] key dat val ref assms(3,4,5) by (simp add: buf_ok_def)
  have "bkey s j = bkey ?t i \<Longrightarrow> bkey ?t i = (0, 0)" if "j < NBUF" "j \<noteq> i" for j
    using bcache_okD(2) [OF assms(1)] that assms(2) key unfolding no_dup_def by metis
  then show ok: "bcache_ok ?t xs"
    by (rule bcache_ok_one_buf [OF assms(1) f assms(2) bok])
  have "bview ?t q = bview s q" for q
  proof (cases "q = bkey s i")
    case True
    then show ?thesis
      using bview_hit [OF ok assms(2) key] bview_hit [OF assms(1,2) refl] val dat dsk by simp
  next
    case False
    then show ?thesis
      using bview_one_buf [OF assms(1) ok f assms(2)] key by simp
  qed
  then show "bview ?t = bview s"
    by auto
qed

lemma bget_miss_inv:
  assumes "bcache_ok s xs" and "i < NBUF" and "b_refcnt (bufs s ! i) = 0"
    and "cached s (dev, blockno) = None" and "(dev, blockno) \<noteq> (0, 0)"
  shows "bcache_ok (bget_miss dev blockno i s) xs" and "bview (bget_miss dev blockno i s) = bview s"
proof -
  let ?t = "bget_miss dev blockno i s"
  have len: "i < length (bufs s)"
    using mruD(1) [OF bcache_okD(1) [OF assms(1)]] assms(2) by simp
  have key: "bkey ?t i = (dev, blockno)" and dat: "b_data (bufs ?t ! i) = b_data (bufs s ! i)"
    and val: "\<not> b_valid (bufs ?t ! i)" and dsk: "disk ?t = disk s"
    and ref: "b_refcnt (bufs ?t ! i) = 1"
    using len by (auto simp: bkey_def bget_miss_def take_lock_def upd_buf_def)
  have f: "one_buf i s ?t"
    using bget_miss_frame [of i s] by (simp add: bframe_def)
  have "bkey ?t i \<noteq> (0, 0)"
    using key assms(5) by metis
  then have bok: "buf_ok ?t i"
    using bcache_okD(3) [OF assms(1,2)] dat val ref by (simp add: buf_ok_def)
  have new: "bkey s j \<noteq> (dev, blockno)" if "j < NBUF" for j
    using assms(4) that by (auto simp: cached_None)
  then have "bkey s j = bkey ?t i \<Longrightarrow> bkey ?t i = (0, 0)" if "j < NBUF" for j
    using that key by simp
  then show ok: "bcache_ok ?t xs"
    by (rule bcache_ok_one_buf [OF assms(1) f assms(2) bok])
  have "bview ?t q = bview s q" for q
  proof (cases "q = (dev, blockno) \<or> q = (0, 0)")
    case True
    then show ?thesis
      using bview_hit [OF ok assms(2) key] bview_uncached [of s q] new val dsk
        bview_zero [OF ok] bview_zero [OF assms(1)] by auto
  next
    case q: False
    show ?thesis
    proof (cases "q = bkey s i")
      case True
      have "bkey ?t j \<noteq> q" if "j < NBUF" for j
      proof (cases "j = i")
        case False
        then have "bkey ?t j = bkey s j"
          using f by (simp add: bkey_def one_buf_def)
        moreover have "bkey s j \<noteq> q"
          using bcache_okD(2) [OF assms(1)] that False assms(2) True q unfolding no_dup_def by metis
        ultimately show ?thesis
          by auto
      qed (use key q in auto)
      then show ?thesis
        using True bview_hit [OF assms(1,2) refl] bview_uncached [of ?t q] dsk
          bcache_okD(3) [OF assms(1,2)] assms(3) by (auto simp: buf_ok_def bkey_def)
    next
      case False
      then show ?thesis
        using bview_one_buf [OF assms(1) ok f assms(2)] q key by simp
    qed
  qed
  then show "bview ?t = bview s"
    by auto
qed

lemma bread_runs:
  assumes ok: "bcache_ok s xs" and sl: "sleepable s" and can: "can_bread s dev blockno"
  shows "runs (bread dev blockno s) (bread_post dev blockno xs s)"
proof -
  have key: "(dev, blockno) \<noteq> (0, 0)"
    using can unfolding can_bread_def by blast
  have h: "held s = []" and c: "cpu_proc s \<noteq> None"
    using sl by simp_all
  show ?thesis
  proof (cases "cached s (dev, blockno)")
    case (Some i)
    then have i: "i < NBUF" "bkey s i = (dev, blockno)"
      using cached_Some [OF bcache_okD(2) [OF ok] key] by auto
    have free: "\<not> sl_locked (slocks s (SL_buf i))" and ref: "b_refcnt (bufs s ! i) + 1 \<noteq> 0"
      using can Some by (auto simp: can_bread_def)
    let ?u = "bget_hit i s"
    have "bget dev blockno s = Ok i ?u"
      using Some free h c by (intro bget_hit_eq [OF ok _ _ _ key]) auto
    moreover have f: "bframe i s ?u"
      by (rule bget_hit_frame)
    moreover have "held ?u = []" and "cpu_proc ?u \<noteq> None"
      using h c by (auto simp: bget_hit_def)
    ultimately have "bread dev blockno s = Ok i (bload i ?u)"
      by (intro bread_of_bget)
    moreover have len: "i < length (bufs s)"
      using mruD(1) [OF bcache_okD(1) [OF ok]] i by simp
    then have "bkey ?u i = (dev, blockno)" and "owns (SL_buf i) ?u"
      and "b_refcnt (bufs ?u ! i) = b_refcnt (bufs s ! i) + 1"
      using i by (auto simp: bget_hit_def bkey_def take_lock_def owns_def mypid_def)
    then have "bread_post dev blockno xs s i (bload i ?u)"
      using bget_hit_inv [OF ok i key ref] f ok sl i key free ref
      by (intro bload_post) auto
    ultimately show ?thesis
      by simp
  next
    case None
    note mru = bcache_okD(1) [OF ok]
    obtain j where "j < NBUF" and "b_refcnt (bufs s ! j) = 0"
      using can None by (auto simp: can_bread_def)
    then have "find (\<lambda>i. b_refcnt (bufs s ! i) = 0) (rev xs) \<noteq> None"
      using mruD(3) [OF mru, of j] by (auto simp: find_None_iff)
    then obtain i where find: "find (\<lambda>i. b_refcnt (bufs s ! i) = 0) (rev xs) = Some i"
      by auto
    then have i: "i < NBUF" and ref: "b_refcnt (bufs s ! i) = 0"
      using find_SomeD [OF find] mruD(3) [OF mru, of i] by auto
    let ?u = "bget_miss dev blockno i s"
    have "bget dev blockno s = Ok i ?u"
      using None find h c by (intro bget_miss_eq [OF ok]) auto
    moreover have f: "bframe i s ?u"
      by (rule bget_miss_frame)
    moreover have "held ?u = []" and "cpu_proc ?u \<noteq> None"
      using h c by (auto simp: bget_miss_def)
    ultimately have "bread dev blockno s = Ok i (bload i ?u)"
      by (intro bread_of_bget)
    moreover have len: "i < length (bufs s)"
      using mruD(1) [OF mru] i by simp
    then have "bkey ?u i = (dev, blockno)" and "owns (SL_buf i) ?u"
      and "b_refcnt (bufs ?u ! i) = b_refcnt (bufs s ! i) + 1" and "b_refcnt (bufs ?u ! i) \<noteq> 0"
      using i ref by (auto simp: bget_miss_def bkey_def take_lock_def owns_def mypid_def)
    moreover have "\<not> sl_locked (slocks s (SL_buf i))"
      using bcache_okD(3) [OF ok i] ref by (simp add: buf_ok_def)
    ultimately have "bread_post dev blockno xs s i (bload i ?u)"
      using bget_miss_inv [OF ok i ref None key] f ok sl i key ref
      by (intro bload_post) auto
    with \<open>bread dev blockno s = Ok i (bload i ?u)\<close> show ?thesis
      by simp
  qed
qed

section \<open>Writing and releasing a block\<close>

lemma virtio_disk_write:
  assumes "sleepable s"
  shows "virtio_disk_rw i True s =
    Ok () (s\<lparr>disk := (disk s)(disk_sector (b_blockno (bufs s ! i)) := b_data (bufs s ! i))\<rparr>)"
  using assms by (auto simp: virtio_disk_rw_def with_myproc_def myproc_def split: option.split)

lemma bwrite_eq:
  assumes "sleepable s" and "owns (SL_buf i) s"
  shows "bwrite i s =
    Ok () (s\<lparr>disk := (disk s)(disk_sector (b_blockno (bufs s ! i)) := b_data (bufs s ! i))\<rparr>)"
  using assms by (simp add: bwrite_def holdingsleep_eq virtio_disk_write)

text \<open>Writing through puts the buffer's block on the disk, for readers of that block only.\<close>

definition sole :: "nat \<Rightarrow> 'a biost_scheme \<Rightarrow> bool" where
  "sole i s \<longleftrightarrow> (\<forall>j<NBUF. j \<noteq> i \<longrightarrow> b_valid (bufs s ! j) \<longrightarrow>
     disk_sector (b_blockno (bufs s ! j)) \<noteq> disk_sector (b_blockno (bufs s ! i)))"

lemma bwrite_inv:
  assumes ok: "bcache_ok s xs" and i: "i < NBUF" and v: "b_valid (bufs s ! i)" and sole: "sole i s"
  defines "t \<equiv> s\<lparr>disk := (disk s)(disk_sector (b_blockno (bufs s ! i)) := b_data (bufs s ! i))\<rparr>"
  shows "bcache_ok t xs"
    and "disk_sector (snd k) \<noteq> disk_sector (b_blockno (bufs s ! i)) \<or> k = bkey s i \<Longrightarrow>
         bview t k = bview s k"
proof -
  have bufs: "bufs t = bufs s" and key: "\<And>j. bkey t j = bkey s j"
    by (simp_all add: t_def bkey_def)
  have "mru t xs"
    by (rule mru_cong [OF bcache_okD(1) [OF ok]]) (simp_all add: bufs)
  moreover have "no_dup t"
    using bcache_okD(2) [OF ok] by (simp add: no_dup_def key)
  moreover have "buf_ok t j" if "j < NBUF" for j
    using bcache_okD(3) [OF ok that] sole that unfolding buf_ok_def bufs key sole_def
    by (auto simp: t_def)
  moreover have "length (disk t x) = BSIZE" for x
    using bcache_okD(4) [OF ok] bcache_okD(3) [OF ok i] by (simp add: t_def buf_ok_def)
  ultimately show ok': "bcache_ok t xs"
    unfolding bcache_ok_def by blast
  assume k: "disk_sector (snd k) \<noteq> disk_sector (b_blockno (bufs s ! i)) \<or> k = bkey s i"
  show "bview t k = bview s k"
  proof (cases "k = bkey s i")
    case True
    then show ?thesis
      using bview_hit [OF ok i refl] bview_hit [OF ok' i refl] v bufs key by simp
  next
    case False
    then have "disk t (disk_sector (snd k)) = disk s (disk_sector (snd k))"
      using k by (simp add: t_def)
    then show ?thesis
      by (simp add: bview_def cached_def bufs key split: option.split)
  qed
qed

lemma set_ptr_held:
  "set_next i j (s\<lparr>held := h\<rparr>) = (set_next i j s)\<lparr>held := h\<rparr>"
  "set_prev i j (s\<lparr>held := h\<rparr>) = (set_prev i j s)\<lparr>held := h\<rparr>"
  by (simp_all add: set_next_def set_prev_def upd_buf_def)

lemma move_front_held: "move_front i (s\<lparr>held := h\<rparr>) = (move_front i s)\<lparr>held := h\<rparr>"
  by (simp add: move_front_def link_front_def Let_def set_ptr_held)

definition brelse_ref :: "nat \<Rightarrow> 'a biost_scheme \<Rightarrow> 'a biost_scheme" where
  "brelse_ref i s = upd_buf i (\<lambda>b. b\<lparr>b_refcnt := b_refcnt b - 1\<rparr>) s"

definition brelse_state :: "nat \<Rightarrow> 'a biost_scheme \<Rightarrow> 'a biost_scheme" where
  "brelse_state i s =
     (let t = brelse_ref i (drop_lock (SL_buf i) s) in
      if b_refcnt (bufs s ! i) = 1 then move_front i t else t)"

lemma drop_lock_bufs [simp]:
  "bufs (drop_lock l s) = bufs s" "disk (drop_lock l s) = disk s"
  by (simp_all add: drop_lock_def)

lemma held_move_front [simp]: "held (move_front i s) = held s"
proof -
  obtain bs where "move_front i s = s\<lparr>bufs := bs\<rparr>"
    using same_but_links_move_front [of s i] by (auto simp: same_but_links_def)
  then show ?thesis
    by simp
qed

lemma move_front_fold:
  "(let s = set_prev (bnext s i) (bprev s i) s; s = set_next (bprev s i) (bnext s i) s
    in link_front i s) = move_front i s"
  by (simp add: move_front_def)

lemma brelse_eq:
  assumes "sleepable s" and "owns (SL_buf i) s" and "i < length (bufs s)"
  shows "brelse i s = Ok () (brelse_state i s)"
proof -
  define u where "u = drop_lock (SL_buf i) s"
  define v where "v = brelse_ref i u"
  have h: "held s = []" and "no_proc_lock s"
    using assms(1) by (simp_all add: no_proc_lock_def)
  then have r: "releasesleep (SL_buf i) s = Ok () u"
    unfolding u_def using assms(1) by (intro releasesleep_eq) auto
  have hu: "held u = []" and bu: "bufs u = bufs s"
    using h by (simp_all add: u_def)
  have v: "upd_buf i (\<lambda>b. b\<lparr>b_refcnt := b_refcnt b - 1\<rparr>) (u\<lparr>held := [L_bcache]\<rparr>) = v\<lparr>held := [L_bcache]\<rparr>"
    by (simp add: v_def brelse_ref_def upd_buf_def)
  have ref: "b_refcnt (bufs v ! i) = 0 \<longleftrightarrow> b_refcnt (bufs s ! i) = 1"
    using assms(3) bu by (auto simp: v_def brelse_ref_def)
  have hv: "held v = []"
    using hu by (simp add: v_def brelse_ref_def)
  have "brelse i s = (let s = v\<lparr>held := [L_bcache]\<rparr>;
      s = (if b_refcnt (bufs s ! i) = 0 then move_front i s else s) in release L_bcache s)"
    using assms h r hu
    by (simp add: brelse_def holdingsleep_eq v [symmetric] move_front_fold del: upd_buf_simps)
      (simp add: Let_def move_front_def)
  then show ?thesis
    using ref hv
    by (simp add: brelse_state_def Let_def u_def [symmetric] v_def [symmetric] move_front_held)
qed

lemma links_key: "same_but_links s t \<Longrightarrow> bkey t i = bkey s i"
  by (simp add: same_but_links_def bkey_def)

lemma links_state:
  "same_but_links s t \<Longrightarrow> disk t = disk s \<and> slocks t = slocks s \<and> held t = held s \<and>
     proc t = proc s \<and> cpu_proc t = cpu_proc s"
  by (auto simp: same_but_links_def)

lemma disk_move_front [simp]: "disk (move_front i s) = disk s"
  using links_state [OF same_but_links_move_front [of s i]] by simp

lemma bcache_ok_move_front:
  assumes ok: "bcache_ok s xs" and i: "i < NBUF"
  shows "bcache_ok (move_front i s) (i # remove1 i xs)" and "bview (move_front i s) = bview s"
proof -
  let ?t = "move_front i s"
  have l: "same_but_links s ?t"
    by simp
  have key: "bkey ?t j = bkey s j" and d: "disk ?t = disk s" and sl: "slocks ?t = slocks s" for j
    using l links_key links_state by blast+
  have f: "b_valid (bufs ?t ! j) = b_valid (bufs s ! j)" "b_blockno (bufs ?t ! j) = b_blockno (bufs s ! j)"
    "b_refcnt (bufs ?t ! j) = b_refcnt (bufs s ! j)" "b_data (bufs ?t ! j) = b_data (bufs s ! j)" for j
    using l unfolding same_but_links_def by blast+
  show "bcache_ok ?t (i # remove1 i xs)"
    unfolding bcache_ok_def
  proof (intro conjI allI impI)
    show "mru ?t (i # remove1 i xs)"
      using bcache_okD(1) [OF ok] i by (rule mru_move_front)
    show "no_dup ?t"
      using bcache_okD(2) [OF ok] unfolding no_dup_def key .
    show "buf_ok ?t j" if "j < NBUF" for j
      using bcache_okD(3) [OF ok that] unfolding buf_ok_def key f d sl .
    show "length (disk ?t x) = BSIZE" for x
      using bcache_okD(4) [OF ok] unfolding d .
  qed
  have "cached ?t k = cached s k" for k
    by (simp only: cached_def key)
  then show "bview ?t = bview s"
    by (intro ext) (simp add: bview_def f d split: option.split)
qed

text \<open>
  \<^verbatim>\<open>brelse()\<close>: the lock is free again, one reference less, and a buffer nobody refers to is now
  the most recently used.  The buffer's contents must be on the disk when the last reference goes,
  which is what \<^verbatim>\<open>bwrite()\<close> or a pin of the log sees to.
\<close>

lemma brelse_inv:
  assumes ok: "bcache_ok s xs" and i: "i < NBUF" and key0: "bkey s i \<noteq> (0, 0)"
    and ref: "b_refcnt (bufs s ! i) \<noteq> 0" and run: "running s"
    and clean: "b_refcnt (bufs s ! i) = 1 \<Longrightarrow> b_valid (bufs s ! i) \<Longrightarrow>
      b_data (bufs s ! i) = disk s (disk_sector (b_blockno (bufs s ! i)))"
  shows "bcache_ok (brelse_state i s) (if b_refcnt (bufs s ! i) = 1 then i # remove1 i xs else xs)"
    and "bview (brelse_state i s) = bview s"
proof -
  define u where "u = brelse_ref i (drop_lock (SL_buf i) s)"
  have len: "i < length (bufs s)"
    using mruD(1) [OF bcache_okD(1) [OF ok]] i by simp
  have f: "one_buf i s u"
    using len by (auto simp: one_buf_def u_def brelse_ref_def)
  have key: "bkey u i = bkey s i" and dat: "b_data (bufs u ! i) = b_data (bufs s ! i)"
    and val: "b_valid (bufs u ! i) = b_valid (bufs s ! i)" and dsk: "disk u = disk s"
    and ref': "b_refcnt (bufs u ! i) = b_refcnt (bufs s ! i) - 1"
    and blk: "b_blockno (bufs u ! i) = b_blockno (bufs s ! i)"
    and sl: "\<not> sl_locked (slocks u (SL_buf i))"
    using len by (auto simp: u_def brelse_ref_def bkey_def drop_lock_def)
  have "b_refcnt (bufs u ! i) = 0 \<longleftrightarrow> b_refcnt (bufs s ! i) = 1"
    using ref' by auto
  then have bok: "buf_ok u i"
    using bcache_okD(3) [OF ok i] key key0 dat val dsk blk sl clean
    by (simp add: buf_ok_def)
  have "bkey s j = bkey u i \<Longrightarrow> bkey u i = (0, 0)" if "j < NBUF" "j \<noteq> i" for j
    using bcache_okD(2) [OF ok] that i key unfolding no_dup_def by metis
  then have ok': "bcache_ok u xs"
    by (rule bcache_ok_one_buf [OF ok f i bok])
  have "bview u k = bview s k" for k
  proof (cases "k = bkey s i")
    case True
    then show ?thesis
      using bview_hit [OF ok' i key] bview_hit [OF ok i refl] val dat dsk by simp
  next
    case False
    then show ?thesis
      using bview_one_buf [OF ok ok' f i] key by simp
  qed
  then have view: "bview u = bview s"
    by auto
  show "bcache_ok (brelse_state i s) (if b_refcnt (bufs s ! i) = 1 then i # remove1 i xs else xs)"
    and "bview (brelse_state i s) = bview s"
    using bcache_ok_move_front [OF ok' i] ok' view
    by (simp_all add: brelse_state_def u_def [symmetric] Let_def)
qed

lemma brelse_state_sleepable [simp]: "sleepable (brelse_state i s) = sleepable s"
proof -
  have "sleepable (brelse_ref i (drop_lock (SL_buf i) s)) = sleepable (drop_lock (SL_buf i) s)"
    by (rule sleepable_cong) (simp_all add: brelse_ref_def)
  moreover have "sleepable (move_front i t) = sleepable t" for t :: "'a biost_scheme"
    using links_state [OF same_but_links_move_front [of t i]] by (intro sleepable_cong) simp_all
  ultimately show ?thesis
    by (simp add: brelse_state_def Let_def)
qed

lemma brelse_runs:
  assumes "bcache_ok s xs" and "sleepable s" and "i < NBUF" and "owns (SL_buf i) s"
    and "bkey s i \<noteq> (0, 0)" and "b_refcnt (bufs s ! i) \<noteq> 0"
    and "b_refcnt (bufs s ! i) = 1 \<Longrightarrow> b_valid (bufs s ! i) \<Longrightarrow>
      b_data (bufs s ! i) = disk s (disk_sector (b_blockno (bufs s ! i)))"
  shows "runs (brelse i s) (\<lambda>_ t. t = brelse_state i s \<and> sleepable t \<and> bview t = bview s \<and>
    bcache_ok t (if b_refcnt (bufs s ! i) = 1 then i # remove1 i xs else xs))"
proof -
  have "i < length (bufs s)"
    using mruD(1) [OF bcache_okD(1) [OF assms(1)]] assms(3) by simp
  then have "brelse i s = Ok () (brelse_state i s)"
    using assms(2,4) by (intro brelse_eq)
  moreover note brelse_inv [OF assms(1,3,5,6) sleepableD(1) [OF assms(2)] assms(7)]
  ultimately show ?thesis
    using assms(2) by simp
qed

text \<open>A buffer that nobody else refers to holds what is on the disk.\<close>

lemma bread_post_clean:
  assumes ok: "bcache_ok s xs" and post: "bread_post dev blockno xs s i t" and key: "(dev, blockno) \<noteq> (0, 0)"
    and ref: "b_refcnt (bufs s ! i) = 0"
  shows "b_data (bufs t ! i) = disk t (disk_sector (b_blockno (bufs t ! i)))"
proof -
  have p: "i < NBUF" "bcache_ok t xs" "bkey t i = (dev, blockno)"
    "b_data (bufs t ! i) = bview s (dev, blockno)" and d: "disk t = disk s"
    and other: "\<And>j. j \<noteq> i \<Longrightarrow> bkey t j = bkey s j"
    using post by (auto simp: bread_post_def bframe_def one_buf_def bkey_def)
  have "bview s (dev, blockno) = disk s (disk_sector blockno)"
  proof (cases "bkey s i = (dev, blockno)")
    case True
    then show ?thesis
      using bview_hit [OF ok p(1) True] bcache_okD(3) [OF ok p(1)] ref by (auto simp: buf_ok_def bkey_def)
  next
    case False
    have "bkey s j \<noteq> (dev, blockno)" if j: "j < NBUF" for j
    proof (cases "j = i")
      case ne: False
      then show ?thesis
        using bcache_okD(2) [OF p(2)] j p(1,3) other [OF ne] key unfolding no_dup_def by metis
    qed (use False in simp)
    then show ?thesis
      using bview_uncached [of s "(dev, blockno)"] by simp
  qed
  then show ?thesis
    using p(3,4) d by (simp add: bkey_def)
qed

text \<open>
  Reading a block and giving the buffer back: the buffer that was read is the most recently
  used one unless somebody else still refers to it, and no block has changed.
\<close>

lemma bread_brelse_runs:
  assumes ok: "bcache_ok s xs" and sl: "sleepable s" and can: "can_bread s dev blockno"
  shows "runs (andThen (bread dev blockno s) (\<lambda>i t. andThen (brelse i t) (\<lambda>_ u. Ok (i, b_data (bufs t ! i)) u)))
    (\<lambda>(i, d) u. i < NBUF \<and> d = bview s (dev, blockno) \<and> bview u = bview s \<and> sleepable u \<and> disk u = disk s \<and>
       bcache_ok u (if b_refcnt (bufs s ! i) = 0 then i # remove1 i xs else xs))"
proof -
  have key: "(dev, blockno) \<noteq> (0, 0)"
    using can unfolding can_bread_def by blast
  have "runs (brelse i t) (\<lambda>_ u. case (i, b_data (bufs t ! i)) of (i, d) \<Rightarrow> i < NBUF \<and>
      d = bview s (dev, blockno) \<and> bview u = bview s \<and> sleepable u \<and> disk u = disk s \<and>
      bcache_ok u (if b_refcnt (bufs s ! i) = 0 then i # remove1 i xs else xs))"
    if post: "bread_post dev blockno xs s i t" for i t
  proof -
    have p: "i < NBUF" "bcache_ok t xs" "sleepable t" "bkey t i = (dev, blockno)" "owns (SL_buf i) t"
      "b_valid (bufs t ! i)" "b_data (bufs t ! i) = bview s (dev, blockno)"
      "b_refcnt (bufs t ! i) = b_refcnt (bufs s ! i) + 1" "b_refcnt (bufs t ! i) \<noteq> 0"
      "bview t = bview s"
      using post by (auto simp: bread_post_def)
    have d: "disk t = disk s"
      using post by (auto simp: bread_post_def bframe_def one_buf_def)
    have r: "b_refcnt (bufs t ! i) = 1 \<longleftrightarrow> b_refcnt (bufs s ! i) = 0"
      using p(8) by simp
    have "runs (brelse i t) (\<lambda>_ u. u = brelse_state i t \<and> sleepable u \<and> bview u = bview t \<and>
        bcache_ok u (if b_refcnt (bufs t ! i) = 1 then i # remove1 i xs else xs))"
      using p key r bread_post_clean [OF ok post key] by (intro brelse_runs) auto
    moreover have "disk (brelse_state i t) = disk t"
      by (simp add: brelse_state_def Let_def brelse_ref_def)
    ultimately show ?thesis
      using p d r by (auto elim!: runs_mono)
  qed
  then show ?thesis
    using runs_mono [OF bread_runs [OF ok sl can]] by simp
qed

section \<open>Initialisation\<close>

text \<open>The cache as the boot loader leaves it: the zeroed \<^verbatim>\<open>.bss\<close> segment.\<close>

definition bss_buf :: buf where
  "bss_buf = \<lparr>b_valid = False, b_dev = 0, b_blockno = 0, b_refcnt = 0, b_prev = 0, b_next = 0,
     b_data = replicate BSIZE 0\<rparr>"

lemma initsleeplock_bufs [simp]:
  "bufs (initsleeplock l s) = bufs s" "disk (initsleeplock l s) = disk s"
  "held (initsleeplock l s) = held s" "proc (initsleeplock l s) = proc s"
  "cpu_proc (initsleeplock l s) = cpu_proc s"
  by (simp_all add: initsleeplock_def)

lemma length_link_front [simp]: "length (bufs (link_front i s)) = length (bufs s)"
  using same_but_links_link_front [of s i] by (simp add: same_but_links_def)

lemma slocks_link_front [simp]: "slocks (link_front i s) = slocks s" "disk (link_front i s) = disk s"
  using links_state [OF same_but_links_link_front [of s i]] by simp_all

definition binit_inv :: "nat \<Rightarrow> 'a biost_scheme \<Rightarrow> 'a biost_scheme \<Rightarrow> bool" where
  "binit_inv n s t \<longleftrightarrow> length (bufs t) = Suc NBUF \<and> ring (bnext t) (bprev t) (bhead # rev [0..<n]) \<and>
     disk t = disk s \<and> held t = held s \<and> proc t = proc s \<and> cpu_proc t = cpu_proc s \<and>
     (\<forall>i<n. \<not> sl_locked (slocks t (SL_buf i))) \<and>
     (\<forall>i. b_valid (bufs t ! i) = b_valid (bufs s ! i) \<and> bkey t i = bkey s i \<and>
          b_refcnt (bufs t ! i) = b_refcnt (bufs s ! i) \<and> b_data (bufs t ! i) = b_data (bufs s ! i))"

lemma binit_inv_step:
  assumes "binit_inv n s t" and "n < NBUF"
  shows "binit_inv (Suc n) s (binit_one n t)"
proof -
  let ?u = "initsleeplock (SL_buf n) t"
  have l: "same_but_links ?u (link_front n ?u)"
    by simp
  have "ring (bnext ?u) (bprev ?u) (bhead # rev [0..<n])" and len: "length (bufs ?u) = Suc NBUF"
    using assms(1) by (simp_all add: binit_inv_def)
  then have "ring (bnext (link_front n ?u)) (bprev (link_front n ?u)) (bhead # n # rev [0..<n])"
    using assms(2) by (intro ring_link_front) auto
  then have "ring (bnext (binit_one n t)) (bprev (binit_one n t)) (bhead # rev [0..<Suc n])"
    by (simp add: binit_one_def)
  moreover have "\<not> sl_locked (slocks (binit_one n t) (SL_buf i))" if "i < Suc n" for i
    using assms(1) that by (auto simp: binit_one_def binit_inv_def initsleeplock_def less_Suc_eq)
  moreover have "bkey (binit_one n t) i = bkey s i" for i
    using assms(1) links_key [OF l, of i]
    by (simp add: binit_inv_def binit_one_def bkey_def)
  ultimately show ?thesis
    using assms(1) links_state [OF l] l len unfolding binit_inv_def binit_one_def same_but_links_def
    by simp
qed

lemma binit_steps:
  assumes "n \<le> NBUF" and "binit_inv 0 s t"
  shows "binit_inv n s (fold binit_one [0..<n] t)"
  using assms(1)
proof (induction n)
  case (Suc n)
  then show ?case
    using binit_inv_step [of n s] by simp
qed (use assms(2) in simp)

lemma binit_start:
  assumes "length (bufs s) = Suc NBUF"
  shows "binit_inv 0 s (set_next bhead bhead (set_prev bhead bhead s))"
proof -
  let ?t = "set_next bhead bhead (set_prev bhead bhead s)"
  have l: "same_but_links s ?t"
    by (rule same_but_links_trans [of _ "set_prev bhead bhead s"]) simp_all
  have "ring (bnext ?t) (bprev ?t) [bhead]"
    using assms by (simp add: ring_single pointers_of_set)
  moreover have "bkey ?t i = bkey s i" for i
    using links_key [OF l] by auto
  ultimately show ?thesis
    using l links_state [OF l] assms by (simp add: binit_inv_def same_but_links_def)
qed

lemma binit_ok:
  assumes len: "length (bufs s) = Suc NBUF" and disk: "\<And>x. length (disk s x) = BSIZE"
    and bss: "\<And>i. i < NBUF \<Longrightarrow> \<not> b_valid (bufs s ! i) \<and> bkey s i = (0, 0) \<and>
      b_refcnt (bufs s ! i) = 0 \<and> length (b_data (bufs s ! i)) = BSIZE"
  shows "bcache_ok (binit s) (rev [0..<NBUF])"
proof -
  have inv: "binit_inv NBUF s (binit s)"
    unfolding binit_def by (rule binit_steps [OF order.refl binit_start [OF len]])
  then have eq: "b_valid (bufs (binit s) ! i) = b_valid (bufs s ! i)" "bkey (binit s) i = bkey s i"
    "b_refcnt (bufs (binit s) ! i) = b_refcnt (bufs s ! i)"
    "b_data (bufs (binit s) ! i) = b_data (bufs s ! i)" for i
    unfolding binit_inv_def by blast+
  have "length (bufs (binit s)) = Suc NBUF"
    "ring (bnext (binit s)) (bprev (binit s)) (bhead # rev [0..<NBUF])" "disk (binit s) = disk s"
    and sl: "\<And>i. i < NBUF \<Longrightarrow> \<not> sl_locked (slocks (binit s) (SL_buf i))"
    using inv unfolding binit_inv_def by blast+
  then have "mru (binit s) (rev [0..<NBUF])" and "disk (binit s) = disk s"
    unfolding mru_def by (simp_all only: set_rev set_upt atLeastLessThan_iff) simp
  moreover have "no_dup (binit s)"
    unfolding no_dup_def eq using bss by blast
  moreover have "buf_ok (binit s) i" if "i < NBUF" for i
    unfolding buf_ok_def eq using bss [OF that] sl [OF that] by simp
  ultimately show ?thesis
    unfolding bcache_ok_def using disk by simp
qed

lemma binit_fields:
  assumes "length (bufs s) = Suc NBUF"
  shows "bkey (binit s) i = bkey s i" and "b_refcnt (bufs (binit s) ! i) = b_refcnt (bufs s ! i)"
    and "disk (binit s) = disk s" and "sleepable (binit s) = sleepable s"
proof -
  have inv: "binit_inv NBUF s (binit s)"
    unfolding binit_def by (rule binit_steps [OF order.refl binit_start [OF assms]])
  then show "bkey (binit s) i = bkey s i" and "b_refcnt (bufs (binit s) ! i) = b_refcnt (bufs s ! i)"
    and "disk (binit s) = disk s"
    unfolding binit_inv_def by blast+
  show "sleepable (binit s) = sleepable s"
    using inv by (intro sleepable_cong) (simp_all add: binit_inv_def)
qed

text \<open>A machine just after \<^verbatim>\<open>binit()\<close>, with one process running, for the examples below.\<close>

definition bio_blank :: "'a \<Rightarrow> 'a biost_scheme" where
  "bio_blank z = \<lparr>held = [], proc = (replicate NPROC idle_proc)[0 := idle_proc\<lparr>p_state := RUNNING, p_pid := 1\<rparr>],
     cpu_proc = Some 0, hartid = 0, initproc = Some 0, nextpid = 2, ticks = 0,
     slocks = (\<lambda>_. \<lparr>sl_locked = False, sl_pid = 0\<rparr>),
     bufs = replicate (Suc NBUF) bss_buf, disk = (\<lambda>x. replicate BSIZE (ucast x)), \<dots> = z\<rparr>"

definition bio_boot :: "'a \<Rightarrow> 'a biost_scheme" where
  "bio_boot z = binit (bio_blank z)"

lemma bio_blank_bufs:
  "length (bufs (bio_blank z)) = Suc NBUF" "i < Suc NBUF \<Longrightarrow> bufs (bio_blank z) ! i = bss_buf"
  "length (disk (bio_blank z) x) = BSIZE"
  by (simp_all add: bio_blank_def nth_replicate)

lemma binit_frame: "(binit s)\<lparr>slocks := x, bufs := y\<rparr> = s\<lparr>slocks := x, bufs := y\<rparr>"
proof -
  have "(binit_one i t)\<lparr>slocks := x, bufs := y\<rparr> = t\<lparr>slocks := x, bufs := y\<rparr>" for i and t :: "'a biost_scheme"
    by (simp add: binit_one_def link_front_def set_next_def set_prev_def upd_buf_def initsleeplock_def)
  then have "(fold binit_one ks t)\<lparr>slocks := x, bufs := y\<rparr> = t\<lparr>slocks := x, bufs := y\<rparr>" for ks and t :: "'a biost_scheme"
    by (induction ks arbitrary: t) simp_all
  then show ?thesis
    by (simp add: binit_def set_next_def set_prev_def upd_buf_def)
qed

lemma bio_boot_frame: "(bio_boot z)\<lparr>slocks := x, bufs := y\<rparr> = (bio_blank z)\<lparr>slocks := x, bufs := y\<rparr>"
  unfolding bio_boot_def by (rule binit_frame)

lemma bio_boot_ok: "bcache_ok (bio_boot z) (rev [0..<NBUF])" and bio_boot_sleepable: "sleepable (bio_boot z)"
proof -
  show "bcache_ok (bio_boot z) (rev [0..<NBUF])"
    unfolding bio_boot_def
    by (rule binit_ok) (simp_all add: bio_blank_bufs bkey_def bss_buf_def)
  have "sleepable (bio_blank z)"
    unfolding sleepable_def running_def proc_ok_def by (simp add: bio_blank_def)
  then show "sleepable (bio_boot z)"
    by (simp add: bio_boot_def binit_fields bio_blank_bufs)
qed

lemma bio_boot_keys: "i < NBUF \<Longrightarrow> bkey (bio_boot z) i = (0, 0)"
  unfolding bio_boot_def binit_fields(1) [OF bio_blank_bufs(1)]
  by (simp add: bio_blank_bufs bkey_def bss_buf_def)

lemma bio_boot_can_bread:
  assumes "(dev, blockno) \<noteq> (0, 0)"
  shows "can_bread (bio_boot z) dev blockno"
proof -
  have "cached (bio_boot z) (dev, blockno) = None"
    unfolding cached_None using bio_boot_keys assms by metis
  moreover have "b_refcnt (bufs (bio_boot z) ! 0) = 0"
    by (simp add: bio_boot_def binit_fields bio_blank_bufs bss_buf_def)
  then have "\<exists>i<NBUF. b_refcnt (bufs (bio_boot z) ! i) = 0"
    by (intro exI [of _ 0]) simp
  ultimately show ?thesis
    using assms by (simp add: can_bread_def)
qed

section \<open>Properties\<close>

text \<open>
  C10. A read through the cache returns a locked buffer for the requested block whose bytes are the
  block's current contents (the cached copy, or the disk's where the block is not cached); it
  keeps the invariant of the cache and changes no block for any reader.
\<close>

theorem bread_returns_block:
  assumes "bcache_ok s xs" and "sleepable s" and "can_bread s dev blockno"
  shows "runs (bread dev blockno s) (\<lambda>i t. i < NBUF \<and> bcache_ok t xs \<and> bkey t i = (dev, blockno) \<and>
           owns (SL_buf i) t \<and> b_valid (bufs t ! i) \<and> b_data (bufs t ! i) = bview s (dev, blockno) \<and>
           bview t = bview s)"
  using bread_runs [OF assms] by (rule runs_mono) (simp add: bread_post_def)

theorem bread_returns_block_witness:
  "runs (bread 1 5 (bio_boot ())) (\<lambda>i t. i < NBUF \<and> bcache_ok t (rev [0..<NBUF]) \<and> bkey t i = (1, 5) \<and>
     owns (SL_buf i) t \<and> b_valid (bufs t ! i) \<and> b_data (bufs t ! i) = bview (bio_boot ()) (1, 5) \<and>
     bview t = bview (bio_boot ()))"
  by (rule bread_returns_block [OF bio_boot_ok bio_boot_sleepable bio_boot_can_bread]) simp

text \<open>
  C29. Reading a block and releasing its buffer again changes nothing that anyone can read, neither
  through the cache nor on the disk; a buffer that was unreferenced before becomes the most
  recently used one, the others keep their order.
\<close>

theorem bread_brelse_neutral:
  assumes "bcache_ok s xs" and "sleepable s" and "can_bread s dev blockno"
  shows "runs (andThen (bread dev blockno s) (\<lambda>i t. andThen (brelse i t) (\<lambda>_ u. Ok (i, b_data (bufs t ! i)) u)))
    (\<lambda>(i, d) u. i < NBUF \<and> d = bview s (dev, blockno) \<and> bview u = bview s \<and> sleepable u \<and> disk u = disk s \<and>
       bcache_ok u (if b_refcnt (bufs s ! i) = 0 then i # remove1 i xs else xs))"
  using assms by (rule bread_brelse_runs)

theorem bread_brelse_neutral_witness:
  "runs (andThen (bread 1 7 (bio_boot ())) (\<lambda>i t. andThen (brelse i t) (\<lambda>_ u. Ok (i, b_data (bufs t ! i)) u)))
    (\<lambda>(i, d) u. i < NBUF \<and> d = bview (bio_boot ()) (1, 7) \<and> bview u = bview (bio_boot ()) \<and> sleepable u \<and>
       disk u = disk (bio_boot ()) \<and>
       bcache_ok u (if b_refcnt (bufs (bio_boot ()) ! i) = 0 then i # remove1 i (rev [0..<NBUF])
                    else rev [0..<NBUF]))"
  by (rule bread_brelse_neutral [OF bio_boot_ok bio_boot_sleepable bio_boot_can_bread]) simp

end
