(* ===== verification/Walk.thy ===== *)
theory Walk
  imports Bio
begin

text \<open>
  Reading page tables (\<^verbatim>\<open>kernel/vm.c\<close>): \<^verbatim>\<open>walk()\<close> with \<^verbatim>\<open>alloc = 0\<close>, \<^verbatim>\<open>walkaddr()\<close>, and the copies between
  kernel and user space that are built on them.  Page tables live in the byte-addressed
  physical memory; the kernel maps it one to one, so a physical address is also the kernel's
  pointer.  The kernel's side of a copy is a list of bytes; \<^verbatim>\<open>copyin()\<close> returns what it
  has written before it failed, because its callers can see that.

  Shown: \<^verbatim>\<open>copyin()\<close> agrees with translating every byte's address on its own;
  \<^verbatim>\<open>copyinstr()\<close> returns the user's string with its terminator within the bound;
  what \<^verbatim>\<open>copyout()\<close> has put into user space \<^verbatim>\<open>copyin()\<close> reads back.
\<close>

section \<open>Model\<close>

fun walk_levels :: "nat \<Rightarrow> memory \<Rightarrow> uint64 \<Rightarrow> uint64 \<Rightarrow> uint64 option" where
  "walk_levels 0 m pagetable va = Some (slot pagetable (PX 0 va))"
| "walk_levels (Suc l) m pagetable va =
     (let pte = load64 m (slot pagetable (PX (Suc l) va)) in
      if pte AND PTE_V \<noteq> 0 then walk_levels l m (PTE2PA pte) va else None)"

text \<open>\<^verbatim>\<open>walk(pagetable, va, 0)\<close> below \<^verbatim>\<open>MAXVA\<close>; \<open>None\<close> is the null pointer.\<close>

definition walk_lookup :: "memory \<Rightarrow> uint64 \<Rightarrow> uint64 \<Rightarrow> uint64 option" where
  "walk_lookup m pagetable va = walk_levels 2 m pagetable va"

definition walkaddr :: "memory \<Rightarrow> uint64 \<Rightarrow> uint64 \<Rightarrow> uint64" where
  "walkaddr m pagetable va =
     (if MAXVA \<le> va then 0
      else case walk_lookup m pagetable va of
             None \<Rightarrow> 0
           | Some a \<Rightarrow>
               let pte = load64 m a in
               if pte AND PTE_V = 0 then 0
               else if pte AND PTE_U = 0 then 0
               else PTE2PA pte)"

definition chunk :: "uint64 \<Rightarrow> nat \<Rightarrow> nat" where
  "chunk va len = min (4096 - unat (va - PGROUNDDOWN va)) len"

lemma page_offset_less: "unat (va - PGROUNDDOWN va) < 4096"
proof -
  have "va - PGROUNDDOWN va = va mod 4096"
    by (simp add: PGROUNDDOWN_alt)
  then show ?thesis
    by (simp add: unat_page_mod)
qed

lemma chunk_pos: "0 < len \<Longrightarrow> 0 < chunk va len"
  using page_offset_less [of va] by (simp add: chunk_def)

function copyin :: "memory \<Rightarrow> uint64 \<Rightarrow> uint64 \<Rightarrow> nat \<Rightarrow> byte list \<times> bool" where
  "copyin m pagetable srcva len =
     (if len = 0 then ([], True)
      else let va0 = PGROUNDDOWN srcva;
               pa0 = walkaddr m pagetable va0 in
        if pa0 = 0 then ([], False)
        else let n = chunk srcva len;
                 (bs, ok) = copyin m pagetable (va0 + PGSIZE) (len - n) in
          (mem_read m (pa0 + (srcva - va0)) n @ bs, ok))"
  by auto
termination
  by (relation "measure (\<lambda>(m, p, v, len). len)") (auto simp: chunk_pos)

function copyout :: "memory \<Rightarrow> uint64 \<Rightarrow> uint64 \<Rightarrow> byte list \<Rightarrow> memory \<times> bool" where
  "copyout m pagetable dstva src =
     (if src = [] then (m, True)
      else let va0 = PGROUNDDOWN dstva in
        if MAXVA \<le> va0 then (m, False)
        else case walk_lookup m pagetable va0 of
               None \<Rightarrow> (m, False)
             | Some a \<Rightarrow>
                 let pte = load64 m a in
                 if pte AND PTE_V = 0 \<or> pte AND PTE_U = 0 \<or> pte AND PTE_W = 0 then (m, False)
                 else let n = chunk dstva (length src) in
                   copyout (mem_write m (PTE2PA pte + (dstva - va0)) (take n src)) pagetable
                     (va0 + PGSIZE) (drop n src))"
  by auto
termination
  by (relation "measure (\<lambda>(m, p, v, src). length src)") (auto simp: chunk_pos)

declare copyin.simps [simp del] copyout.simps [simp del]

text \<open>The inner loop of \<^verbatim>\<open>copyinstr()\<close>: the bytes it stores, and whether it met the terminator.\<close>

fun copy_to_nul :: "memory \<Rightarrow> uint64 \<Rightarrow> nat \<Rightarrow> byte list \<times> bool" where
  "copy_to_nul m p 0 = ([], False)"
| "copy_to_nul m p (Suc n) =
     (if m p = 0 then ([0], True)
      else let (bs, got_null) = copy_to_nul m (p + 1) n in (m p # bs, got_null))"

function copyinstr :: "memory \<Rightarrow> uint64 \<Rightarrow> uint64 \<Rightarrow> nat \<Rightarrow> byte list \<times> bool" where
  "copyinstr m pagetable srcva maxlen =
     (if maxlen = 0 then ([], False)
      else let va0 = PGROUNDDOWN srcva;
               pa0 = walkaddr m pagetable va0 in
        if pa0 = 0 then ([], False)
        else let n = chunk srcva maxlen;
                 (bs, got_null) = copy_to_nul m (pa0 + (srcva - va0)) n in
          if got_null then (bs, True)
          else let (cs, ok) = copyinstr m pagetable (va0 + PGSIZE) (maxlen - n) in (bs @ cs, ok))"
  by auto
termination
  by (relation "measure (\<lambda>(m, p, v, mx). mx)") (auto simp: chunk_pos)

declare copyinstr.simps [simp del]

section \<open>Reading through the page table, byte by byte\<close>

text \<open>The physical address of a user byte, if its page is mapped for the user.\<close>

definition translate :: "memory \<Rightarrow> uint64 \<Rightarrow> uint64 \<Rightarrow> uint64 option" where
  "translate m pagetable va =
     (let pa = walkaddr m pagetable (PGROUNDDOWN va) in
      if pa = 0 then None else Some (pa + (va - PGROUNDDOWN va)))"

lemma PGROUNDDOWN_add:
  assumes "unat (va - PGROUNDDOWN va) + i < 4096"
  shows "PGROUNDDOWN (va + of_nat i) = PGROUNDDOWN va"
proof -
  let ?d = "va - PGROUNDDOWN va"
  have "unat (?d + of_nat i) = unat ?d + i"
    using assms by (subst unat_plus_if') (simp add: unat_of_nat)
  then have "?d + of_nat i < 4096"
    using assms by (simp add: word_less_nat_alt)
  then have "PGROUNDDOWN (PGROUNDDOWN va + (?d + of_nat i)) = PGROUNDDOWN va"
    by (intro PGROUNDDOWN_offset) simp_all
  then show ?thesis
    by (simp add: algebra_simps)
qed

lemma chunk_add:
  assumes "i < chunk va len"
  shows "PGROUNDDOWN (va + of_nat i) = PGROUNDDOWN va"
proof (rule PGROUNDDOWN_add)
  have "i < 4096 - unat (va - PGROUNDDOWN va)"
    using assms by (simp add: chunk_def)
  then show "unat (va - PGROUNDDOWN va) + i < 4096"
    by linarith
qed

lemma chunk_end:
  assumes "chunk va len < len"
  shows "va + of_nat (chunk va len) = PGROUNDDOWN va + 4096"
proof -
  let ?d = "va - PGROUNDDOWN va"
  have "chunk va len = 4096 - unat ?d"
    using assms by (simp add: chunk_def min_def split: if_splits)
  then have "unat ?d + chunk va len = 4096"
    using page_offset_less [of va] by simp
  then have "(of_nat (unat ?d + chunk va len) :: uint64) = 4096"
    by simp
  then have "?d + of_nat (chunk va len) = 4096"
    by simp
  then show ?thesis
    by (simp add: algebra_simps)
qed

lemma chunk_le [simp]: "chunk va len \<le> len"
  by (simp add: chunk_def)

lemma translate_chunk:
  assumes "i < chunk va len"
  shows "translate m pt (va + of_nat i) =
    (if walkaddr m pt (PGROUNDDOWN va) = 0 then None
     else Some (walkaddr m pt (PGROUNDDOWN va) + (va - PGROUNDDOWN va) + of_nat i))"
  using chunk_add [OF assms] by (simp add: translate_def Let_def algebra_simps)

lemma translate_rest:
  assumes "chunk va len \<le> j" and "j < len"
  shows "va + of_nat j = PGROUNDDOWN va + 4096 + of_nat (j - chunk va len)"
proof -
  have "va + of_nat j = va + of_nat (chunk va len) + of_nat (j - chunk va len)"
    using assms(1) by (simp add: add.assoc)
  also have "va + of_nat (chunk va len) = PGROUNDDOWN va + 4096"
    using assms by (intro chunk_end) simp
  finally show ?thesis .
qed

lemma copyin_ok:
  assumes "\<And>i. i < len \<Longrightarrow> translate m pt (va + of_nat i) \<noteq> None"
  shows "copyin m pt va len = (map (\<lambda>i. m (the (translate m pt (va + of_nat i)))) [0..<len], True)"
  using assms
proof (induction m pt va len rule: copyin.induct)
  case (1 m pt va len)
  show ?case
  proof (cases "len = 0")
    case True
    then show ?thesis
      by (simp add: copyin.simps)
  next
    case False
    let ?pa = "walkaddr m pt (PGROUNDDOWN va)"
    let ?n = "chunk va len"
    let ?f = "\<lambda>v. m (the (translate m pt v))"
    have n: "0 < ?n" "?n \<le> len"
      using False by (simp_all add: chunk_pos)
    have pa: "?pa \<noteq> 0"
      using "1.prems" [of 0] False translate_chunk [OF n(1), of m pt] by (auto split: if_splits)
    have rest: "copyin m pt (PGROUNDDOWN va + 4096) (len - ?n) =
        (map (\<lambda>i. ?f (PGROUNDDOWN va + 4096 + of_nat i)) [0..<len - ?n], True)"
    proof (rule "1.IH" [OF False refl refl pa refl])
      fix i assume "i < len - ?n"
      then have i: "?n + i < len"
        by simp
      have "va + of_nat (?n + i) = PGROUNDDOWN va + 4096 + of_nat i"
        using translate_rest [OF le_add1 i] by (simp only: add_diff_cancel_left')
      then show "translate m pt (PGROUNDDOWN va + 4096 + of_nat i) \<noteq> None"
        using "1.prems" [OF i] by (simp only: not_False_eq_True)
    qed
    have "copyin m pt va len =
        (mem_read m (?pa + (va - PGROUNDDOWN va)) ?n @
         map (\<lambda>i. ?f (PGROUNDDOWN va + 4096 + of_nat i)) [0..<len - ?n], True)"
      using False pa rest by (simp add: copyin.simps [of m pt va len] Let_def)
    also have "mem_read m (?pa + (va - PGROUNDDOWN va)) ?n @
         map (\<lambda>i. ?f (PGROUNDDOWN va + 4096 + of_nat i)) [0..<len - ?n] =
         map (\<lambda>i. ?f (va + of_nat i)) [0..<len]"
    proof (rule nth_equalityI)
      fix i assume i: "i < length (mem_read m (?pa + (va - PGROUNDDOWN va)) ?n @
         map (\<lambda>i. ?f (PGROUNDDOWN va + 4096 + of_nat i)) [0..<len - ?n])"
      show "(mem_read m (?pa + (va - PGROUNDDOWN va)) ?n @
         map (\<lambda>i. ?f (PGROUNDDOWN va + 4096 + of_nat i)) [0..<len - ?n]) ! i =
         map (\<lambda>i. ?f (va + of_nat i)) [0..<len] ! i"
      proof (cases "i < ?n")
        case True
        then have "i < len"
          using n(2) by (rule less_le_trans)
        then show ?thesis
          using True pa translate_chunk [OF True, of m pt] by (simp add: nth_append)
      next
        case False
        then show ?thesis
          using i n translate_rest [of va len i] by (simp add: nth_append del: of_nat_diff)
      qed
    qed (use n in simp)
    finally show ?thesis .
  qed
qed

lemma copyin_fail:
  assumes "i < len" and "translate m pt (va + of_nat i) = None"
  shows "\<not> snd (copyin m pt va len)"
  using assms
proof (induction m pt va len arbitrary: i rule: copyin.induct)
  case (1 m pt va len)
  let ?pa = "walkaddr m pt (PGROUNDDOWN va)"
  let ?n = "chunk va len"
  have l: "len \<noteq> 0"
    using "1.prems" by simp
  show ?case
  proof (cases "?pa = 0")
    case True
    then show ?thesis
      using l by (simp add: copyin.simps [of m pt va len] Let_def)
  next
    case pa: False
    have i: "\<not> i < ?n"
      using "1.prems"(2) translate_chunk [of i va len m pt] pa by auto
    then have "translate m pt (PGROUNDDOWN va + 4096 + of_nat (i - ?n)) = None"
      using "1.prems" translate_rest [of va len i] by (metis not_less)
    then have "\<not> snd (copyin m pt (PGROUNDDOWN va + 4096) (len - ?n))"
      using "1.prems" i by (intro "1.IH" [OF l refl refl pa refl, of "i - ?n"]) auto
    then show ?thesis
      using l pa by (auto simp: copyin.simps [of m pt va len] Let_def split: prod.splits)
  qed
qed

section \<open>Strings\<close>

lemma copy_to_nul_nul:
  assumes "snd (copy_to_nul m p n)"
  shows "\<exists>k<n. fst (copy_to_nul m p n) = mem_read m p (Suc k) \<and> m (p + of_nat k) = 0 \<and>
    (\<forall>j<k. m (p + of_nat j) \<noteq> 0)"
  using assms
proof (induction m p n rule: copy_to_nul.induct)
  case (2 m p n)
  show ?case
  proof (cases "m p = 0")
    case True
    then show ?thesis
      by (intro exI [of _ 0]) (simp add: mem_read_def)
  next
    case False
    then have "snd (copy_to_nul m (p + 1) n)"
      using "2.prems" by (auto split: prod.splits)
    then obtain k where k: "k < n" "fst (copy_to_nul m (p + 1) n) = mem_read m (p + 1) (Suc k)"
      "m (p + 1 + of_nat k) = 0" "\<forall>j<k. m (p + 1 + of_nat j) \<noteq> 0"
      using "2.IH" False by blast
    have "m p # mem_read m (p + 1) (Suc k) = mem_read m p (Suc (Suc k))"
      using mem_read_append [of m p 1 "Suc k"] by (simp add: mem_read_def)
    moreover have "\<forall>j<Suc k. m (p + of_nat j) \<noteq> 0"
      using k(4) False by (simp add: All_less_Suc2 add.assoc)
    ultimately show ?thesis
      using k False by (intro exI [of _ "Suc k"]) (auto split: prod.splits simp: add.assoc)
  qed
qed simp

lemma copy_to_nul_none:
  assumes "\<not> snd (copy_to_nul m p n)"
  shows "fst (copy_to_nul m p n) = mem_read m p n \<and> (\<forall>j<n. m (p + of_nat j) \<noteq> 0)"
  using assms
proof (induction m p n rule: copy_to_nul.induct)
  case (2 m p n)
  then have "m p \<noteq> 0" and "\<not> snd (copy_to_nul m (p + 1) n)"
    by (auto split: if_splits prod.splits)
  then have "fst (copy_to_nul m (p + 1) n) = mem_read m (p + 1) n"
    and "\<forall>j<n. m (p + 1 + of_nat j) \<noteq> 0"
    using "2.IH" by auto
  moreover have "m p # mem_read m (p + 1) n = mem_read m p (Suc n)"
    using mem_read_append [of m p 1 n] by (simp add: mem_read_def)
  ultimately show ?case
    using \<open>m p \<noteq> 0\<close> by (auto simp: All_less_Suc2 add.assoc split: prod.splits)
qed (simp add: mem_read_def)

text \<open>The byte a user pointer denotes, where it denotes one.\<close>

definition user_byte :: "memory \<Rightarrow> uint64 \<Rightarrow> uint64 \<Rightarrow> byte option" where
  "user_byte m pt va = map_option m (translate m pt va)"

lemma user_byte_chunk:
  assumes "i < chunk va len" and "walkaddr m pt (PGROUNDDOWN va) \<noteq> 0"
  shows "user_byte m pt (va + of_nat i) =
    Some (m (walkaddr m pt (PGROUNDDOWN va) + (va - PGROUNDDOWN va) + of_nat i))"
  using assms by (simp add: user_byte_def translate_chunk)

text \<open>
  A successful \<^verbatim>\<open>copyinstr()\<close> has copied the user's string up to and including its first
  terminator, all of it mapped, in at most the given number of bytes.
\<close>

lemma copyinstr_string:
  assumes "copyinstr m pt va maxlen = (bs, True)"
  shows "\<exists>k<maxlen. length bs = Suc k \<and> (\<forall>i\<le>k. user_byte m pt (va + of_nat i) = Some (bs ! i)) \<and>
    bs ! k = 0 \<and> (\<forall>i<k. bs ! i \<noteq> 0)"
  using assms
proof (induction m pt va maxlen arbitrary: bs rule: copyinstr.induct)
  case (1 m pt va maxlen)
  let ?pa = "walkaddr m pt (PGROUNDDOWN va)"
  let ?p = "?pa + (va - PGROUNDDOWN va)"
  let ?n = "chunk va maxlen"
  have l: "maxlen \<noteq> 0" and pa: "?pa \<noteq> 0"
    using "1.prems" by (auto simp: copyinstr.simps [of m pt va maxlen] Let_def split: if_splits)
  have n: "?n \<le> maxlen"
    by simp
  obtain cs g where c: "copy_to_nul m ?p ?n = (cs, g)"
    by (cases "copy_to_nul m ?p ?n")
  show ?case
  proof (cases g)
    case True
    then have bs: "bs = cs"
      using "1.prems" l pa c by (simp add: copyinstr.simps [of m pt va maxlen] Let_def)
    obtain k where k: "k < ?n" "cs = mem_read m ?p (Suc k)" "m (?p + of_nat k) = 0"
      "\<forall>j<k. m (?p + of_nat j) \<noteq> 0"
      using copy_to_nul_nul [of m ?p ?n] c True by auto
    have "user_byte m pt (va + of_nat i) = Some (cs ! i)" if "i \<le> k" for i
      using user_byte_chunk [of i va maxlen m pt] that k(1,2) pa by (simp del: of_nat_Suc)
    moreover have "k < maxlen"
      using k(1) n by (rule less_le_trans)
    ultimately show ?thesis
      using k bs by (intro exI [of _ k]) auto
  next
    case False
    then have cs: "cs = mem_read m ?p ?n" "\<forall>j<?n. m (?p + of_nat j) \<noteq> 0"
      using copy_to_nul_none [of m ?p ?n] c by auto
    obtain ds where ds: "copyinstr m pt (PGROUNDDOWN va + 4096) (maxlen - ?n) = (ds, True)"
      and bs: "bs = cs @ ds"
      using "1.prems" l pa c False
      by (auto simp: copyinstr.simps [of m pt va maxlen] Let_def split: prod.splits)
    obtain k where k: "k < maxlen - ?n" "length ds = Suc k" "ds ! k = 0" "\<forall>i<k. ds ! i \<noteq> 0"
      "\<forall>i\<le>k. user_byte m pt (PGROUNDDOWN va + 4096 + of_nat i) = Some (ds ! i)"
      using "1.IH" [OF l refl refl pa refl c [symmetric] refl _ ds] False by blast
    have "user_byte m pt (va + of_nat i) = Some (bs ! i)" if i: "i \<le> ?n + k" for i
    proof (cases "i < ?n")
      case True
      then show ?thesis
        using user_byte_chunk [OF True pa] bs cs by (simp add: nth_append)
    next
      case ge: False
      then have "va + of_nat i = PGROUNDDOWN va + 4096 + of_nat (i - ?n)"
        using i k(1) by (intro translate_rest) auto
      then show ?thesis
        using k(5) i ge bs cs by (simp add: nth_append del: of_nat_diff)
    qed
    moreover have "bs ! i \<noteq> 0" if "i < ?n + k" for i
      using that k(4) cs bs by (auto simp: nth_append)
    moreover have "length bs = Suc (?n + k)" and "bs ! (?n + k) = 0"
      using k cs bs by (simp_all add: nth_append)
    ultimately show ?thesis
      using k(1) by (intro exI [of _ "?n + k"]) auto
  qed
qed

section \<open>Writing user memory\<close>

text \<open>The page-table pages a walk reads.\<close>

fun level_pages :: "nat \<Rightarrow> memory \<Rightarrow> uint64 \<Rightarrow> uint64 \<Rightarrow> uint64 list" where
  "level_pages 0 m pt va = [pt]"
| "level_pages (Suc l) m pt va =
     (let pte = load64 m (slot pt (PX (Suc l) va)) in
      pt # (if pte AND PTE_V \<noteq> 0 then level_pages l m (PTE2PA pte) va else []))"

definition agree :: "uint64 list \<Rightarrow> memory \<Rightarrow> memory \<Rightarrow> bool" where
  "agree ps m m' \<longleftrightarrow> (\<forall>x. PGROUNDDOWN x \<in> set ps \<longrightarrow> m' x = m x)"

lemma walk_levels_agree:
  assumes "page_aligned pt" and "agree (level_pages l m pt va) m m'"
  shows "walk_levels l m' pt va = walk_levels l m pt va \<and> level_pages l m' pt va = level_pages l m pt va \<and>
    (\<forall>a. walk_levels l m pt va = Some a \<longrightarrow> load64 m' a = load64 m a)"
  using assms
proof (induction l arbitrary: pt)
  case 0
  have "load64 m' (slot pt (PX 0 va)) = load64 m (slot pt (PX 0 va))"
    using 0 by (intro load64_page_cong) (auto simp: agree_def)
  then show ?case
    by simp
next
  case (Suc l)
  let ?a = "slot pt (PX (Suc l) va)"
  have same: "load64 m' ?a = load64 m ?a"
    using Suc.prems by (intro load64_page_cong) (auto simp: agree_def Let_def)
  show ?case
  proof (cases "load64 m ?a AND PTE_V = 0")
    case True
    then show ?thesis
      using same by (simp add: Let_def)
  next
    case False
    then have "agree (level_pages l m (PTE2PA (load64 m ?a)) va) m m'"
      using Suc.prems(2) by (simp add: agree_def Let_def)
    from Suc.IH [OF PTE2PA_aligned this] show ?thesis
      using same False by (simp add: Let_def)
  qed
qed

definition tables :: "memory \<Rightarrow> uint64 \<Rightarrow> uint64 \<Rightarrow> uint64 list" where
  "tables m pt va = level_pages 2 m pt (PGROUNDDOWN va)"

lemma translate_agree:
  assumes "page_aligned pt" and "agree (tables m pt va) m m'"
  shows "walk_lookup m' pt (PGROUNDDOWN va) = walk_lookup m pt (PGROUNDDOWN va)"
    and "walk_lookup m pt (PGROUNDDOWN va) = Some a \<Longrightarrow> load64 m' a = load64 m a"
    and "translate m' pt va = translate m pt va" and "tables m' pt va = tables m pt va"
proof -
  note w = walk_levels_agree [OF assms(1) assms(2) [unfolded tables_def]]
  show l: "walk_lookup m' pt (PGROUNDDOWN va) = walk_lookup m pt (PGROUNDDOWN va)"
    and "walk_lookup m pt (PGROUNDDOWN va) = Some a \<Longrightarrow> load64 m' a = load64 m a"
    and "tables m' pt va = tables m pt va"
    using w by (simp_all add: walk_lookup_def tables_def)
  have "walkaddr m' pt (PGROUNDDOWN va) = walkaddr m pt (PGROUNDDOWN va)"
    using w l by (auto simp: walkaddr_def walk_lookup_def split: option.split)
  then show "translate m' pt va = translate m pt va"
    by (simp add: translate_def)
qed

text \<open>
  A user range that can be written without changing its own translation: no byte of it lies in
  a page-table page that translates the range, and no two addresses of it share a byte.
\<close>

definition isolated :: "memory \<Rightarrow> uint64 \<Rightarrow> uint64 \<Rightarrow> nat \<Rightarrow> bool" where
  "isolated m pt va len \<longleftrightarrow>
     (\<forall>i<len. \<forall>a. translate m pt (va + of_nat i) = Some a \<longrightarrow>
       (\<forall>j<len. PGROUNDDOWN a \<notin> set (tables m pt (va + of_nat j)) \<and>
          (translate m pt (va + of_nat j) = Some a \<longrightarrow> j = i)))"

lemma copyout_chunk:
  assumes "copyout m pt va bs = (m', True)" and "bs \<noteq> []"
  defines "n \<equiv> chunk va (length bs)" and "pa \<equiv> walkaddr m pt (PGROUNDDOWN va)"
  shows "pa \<noteq> 0 \<Longrightarrow> copyout (mem_write m (pa + (va - PGROUNDDOWN va)) (take n bs)) pt (PGROUNDDOWN va + 4096)
           (drop n bs) = (m', True)"
proof -
  assume pa: "pa \<noteq> 0"
  from assms(1,2) obtain a where a: "walk_lookup m pt (PGROUNDDOWN va) = Some a"
    and f: "\<not> (load64 m a AND 1 = 0 \<or> load64 m a AND 16 = 0 \<or> load64 m a AND 4 = 0)"
    and lt: "\<not> MAXVA \<le> PGROUNDDOWN va"
    by (auto simp: copyout.simps [of m pt va bs] Let_def split: if_splits option.splits)
  then have "pa = PTE2PA (load64 m a)"
    by (simp add: pa_def walkaddr_def)
  then show ?thesis
    using assms(1,2) a f lt by (simp add: copyout.simps [of m pt va bs] Let_def n_def)
qed

lemma translate_frame:
  assumes "i < chunk va len" and "walkaddr m pt (PGROUNDDOWN va) \<noteq> 0"
  shows "translate m pt (va + of_nat i) =
    Some (walkaddr m pt (PGROUNDDOWN va) + (va - PGROUNDDOWN va) + of_nat i)"
  using assms by (simp add: translate_chunk)

lemma mem_write_other:
  assumes "\<And>i. i < length bs \<Longrightarrow> x \<noteq> p + of_nat i"
  shows "mem_write m p bs x = m x"
proof -
  have "x = p + of_nat (unat (x - p))"
    by simp
  then have "\<not> unat (x - p) < length bs"
    using assms by blast
  then show ?thesis
    by (simp add: mem_write_def)
qed

lemma mem_write_at:
  assumes "i < length bs" and "length bs < 2 ^ 64"
  shows "mem_write m p bs (p + of_nat i) = bs ! i"
proof -
  have "unat (of_nat i :: uint64) = i"
    using assms by (simp add: unat_of_nat)
  then show ?thesis
    using assms by (simp add: mem_write_def)
qed

lemma isolated_agree:
  assumes "page_aligned pt" and "isolated m pt va len" and "n \<le> len"
    and "\<And>j. j < len \<Longrightarrow> agree (tables m pt (va + of_nat j)) m m1"
    and "\<And>i. i < len - n \<Longrightarrow> va + of_nat (n + i) = va1 + of_nat i"
  shows "isolated m1 pt va1 (len - n)"
  unfolding isolated_def
proof (intro allI impI conjI)
  have tr: "translate m1 pt (va1 + of_nat i) = translate m pt (va + of_nat (n + i))"
    and tb: "tables m1 pt (va1 + of_nat i) = tables m pt (va + of_nat (n + i))" if "i < len - n" for i
  proof -
    have "n + i < len"
      using that by simp
    note eq = translate_agree(3,4) [OF assms(1) assms(4) [OF this]]
    show "translate m1 pt (va1 + of_nat i) = translate m pt (va + of_nat (n + i))"
      and "tables m1 pt (va1 + of_nat i) = tables m pt (va + of_nat (n + i))"
      unfolding assms(5) [OF that, symmetric] by (rule eq)+
  qed
  fix i a j
  assume i: "i < len - n" and a: "translate m1 pt (va1 + of_nat i) = Some a" and j: "j < len - n"
  have a': "translate m pt (va + of_nat (n + i)) = Some a"
    using a tr [OF i] by simp
  have lt: "n + i < len" "n + j < len"
    using i j by auto
  show "PGROUNDDOWN a \<notin> set (tables m1 pt (va1 + of_nat j))"
    using assms(2) lt a' unfolding tb [OF j] isolated_def by blast
  show "j = i" if "translate m1 pt (va1 + of_nat j) = Some a"
  proof -
    have "translate m pt (va + of_nat (n + j)) = Some a"
      using that tr [OF j] by simp
    then have "n + j = n + i"
      using assms(2) lt a' unfolding isolated_def by blast
    then show ?thesis
      by simp
  qed
qed

text \<open>
  What a successful \<^verbatim>\<open>copyout()\<close> leaves behind: the bytes at the addresses the range translates to,
  every other byte as it was.
\<close>

definition copied :: "memory \<Rightarrow> uint64 \<Rightarrow> uint64 \<Rightarrow> byte list \<Rightarrow> memory \<Rightarrow> bool" where
  "copied m pt va bs m' \<longleftrightarrow>
     (\<forall>i<length bs. \<forall>a. translate m pt (va + of_nat i) = Some a \<longrightarrow> m' a = bs ! i) \<and>
     (\<forall>x. (\<forall>i<length bs. translate m pt (va + of_nat i) \<noteq> Some x) \<longrightarrow> m' x = m x)"

lemma copyout_copied:
  assumes "copyout m pt va bs = (m', True)" and "page_aligned pt" and "isolated m pt va (length bs)"
    and "\<And>i. i < length bs \<Longrightarrow> translate m pt (va + of_nat i) \<noteq> None"
  shows "copied m pt va bs m'"
  using assms
proof (induction "length bs" arbitrary: m va bs rule: less_induct)
  case less
  show ?case
  proof (cases "bs = []")
    case True
    then show ?thesis
      using less.prems(1) by (simp add: copyout.simps copied_def)
  next
    case False
    define pa n where "pa = walkaddr m pt (PGROUNDDOWN va)" and "n = chunk va (length bs)"
    define p where "p = pa + (va - PGROUNDDOWN va)"
    define m1 where "m1 = mem_write m p (take n bs)"
    let ?len = "length bs"
    let ?t = "\<lambda>i. translate m pt (va + of_nat i)"
    let ?va1 = "PGROUNDDOWN va + 4096"
    have n0: "0 < n"
      using False unfolding n_def by (intro chunk_pos) simp
    have n: "n \<le> ?len" "n \<le> 4096"
      unfolding n_def by (simp, simp add: chunk_def)
    have t: "?t i = (if pa = 0 then None else Some (p + of_nat i))" if "i < n" for i
      using translate_chunk [of i va ?len m pt] that by (simp add: n_def pa_def p_def)
    have pa: "pa \<noteq> 0"
      using less.prems(4) [of 0] t [OF n0] False by auto
    have m1_other: "m1 x = m x" if "\<And>i. i < n \<Longrightarrow> ?t i \<noteq> Some x" for x
      unfolding m1_def using that t pa by (intro mem_write_other) auto
    have m1_at: "m1 (p + of_nat i) = bs ! i" if "i < n" for i
      using mem_write_at [of i "take n bs" m p] that n by (simp add: m1_def)
    have agree: "agree (tables m pt (va + of_nat j)) m m1" if j: "j < ?len" for j
      unfolding agree_def
    proof (intro allI impI m1_other)
      fix x i assume x: "PGROUNDDOWN x \<in> set (tables m pt (va + of_nat j))" and "i < n"
      then have "i < ?len"
        using n by simp
      then show "?t i \<noteq> Some x"
        using less.prems(3) j x unfolding isolated_def by blast
    qed
    note tr = translate_agree(3) [OF less.prems(2) agree]
    have rest: "va + of_nat (n + i) = ?va1 + of_nat i" if "i < ?len - n" for i
    proof -
      have "n + i < ?len"
        using that by simp
      then have "va + of_nat (n + i) = ?va1 + of_nat (n + i - n)"
        unfolding n_def by (intro translate_rest) simp_all
      then show ?thesis
        by (simp only: add_diff_cancel_left')
    qed
    have rec: "copyout m1 pt ?va1 (drop n bs) = (m', True)"
      using copyout_chunk [OF less.prems(1) False] pa unfolding m1_def p_def pa_def n_def by blast
    have t1: "translate m1 pt (?va1 + of_nat i) = ?t (n + i)" if "i < ?len - n" for i
    proof -
      have "n + i < ?len"
        using that by simp
      then show ?thesis
        unfolding rest [OF that, symmetric] by (rule tr)
    qed
    have IH: "copied m1 pt ?va1 (drop n bs) m'"
    proof (rule less.hyps [OF _ rec less.prems(2)])
      show "length (drop n bs) < ?len"
        using n0 False by simp
      show "isolated m1 pt ?va1 (length (drop n bs))"
        using isolated_agree [OF less.prems(2,3) n(1) agree rest] by simp
      show "translate m1 pt (?va1 + of_nat i) \<noteq> None" if "i < length (drop n bs)" for i
        using t1 [of i] less.prems(4) [of "n + i"] that by simp
    qed
    show ?thesis
      unfolding copied_def
    proof (intro conjI allI impI)
      fix i a assume i: "i < ?len" and a: "?t i = Some a"
      show "m' a = bs ! i"
      proof (cases "i < n")
        case True
        then have "a = p + of_nat i"
          using t a pa by simp
        moreover have "m' a = m1 a"
        proof -
          have "translate m1 pt (?va1 + of_nat k) \<noteq> Some a" if "k < ?len - n" for k
          proof
            assume "translate m1 pt (?va1 + of_nat k) = Some a"
            then have "n + k = i"
              using less.prems(3) i a that t1 [OF that] unfolding isolated_def
              by (metis less_diff_conv add.commute)
            then show False
              using True by simp
          qed
          then show ?thesis
            using IH unfolding copied_def by simp
        qed
        ultimately show ?thesis
          using m1_at [OF True] by simp
      next
        case ge: False
        then have "translate m1 pt (?va1 + of_nat (i - n)) = Some a"
          using t1 [of "i - n"] i a by simp
        moreover have "i - n < length (drop n bs)"
          using i ge by simp
        ultimately have "m' a = drop n bs ! (i - n)"
          using IH unfolding copied_def by blast
        then show ?thesis
          using ge i by simp
      qed
    next
      fix x assume x: "\<forall>i<?len. ?t i \<noteq> Some x"
      then have "m1 x = m x"
        using n by (intro m1_other) auto
      moreover have "translate m1 pt (?va1 + of_nat i) \<noteq> Some x" if "i < length (drop n bs)" for i
      proof -
        have "i < ?len - n" and "n + i < ?len"
          using that by auto
        then show ?thesis
          using x t1 by metis
      qed
      then have "m' x = m1 x"
        using IH unfolding copied_def by blast
      ultimately show "m' x = m x"
        by simp
    qed
  qed
qed

lemma copied_agree:
  assumes "copied m pt va bs m'" and "isolated m pt va (length bs)" and "j < length bs"
  shows "agree (tables m pt (va + of_nat j)) m m'"
  using assms unfolding agree_def copied_def isolated_def by blast

text \<open>What the kernel has written into user space, it reads back.\<close>

lemma copyout_copyin:
  assumes "copyout m pt va bs = (m', True)" and "page_aligned pt" and "isolated m pt va (length bs)"
    and "\<And>i. i < length bs \<Longrightarrow> translate m pt (va + of_nat i) \<noteq> None"
  shows "copyin m' pt va (length bs) = (bs, True)"
proof -
  note c = copyout_copied [OF assms]
  have tr: "translate m' pt (va + of_nat i) = translate m pt (va + of_nat i)" if "i < length bs" for i
    using translate_agree(3) [OF assms(2) copied_agree [OF c assms(3) that]] .
  have "copyin m' pt va (length bs) =
    (map (\<lambda>i. m' (the (translate m' pt (va + of_nat i)))) [0..<length bs], True)"
    using assms(4) tr by (intro copyin_ok) simp
  also have "map (\<lambda>i. m' (the (translate m' pt (va + of_nat i)))) [0..<length bs] = bs"
  proof (rule nth_equalityI)
    fix i assume "i < length (map (\<lambda>i. m' (the (translate m' pt (va + of_nat i)))) [0..<length bs])"
    then have i: "i < length bs"
      by simp
    then obtain a where a: "translate m pt (va + of_nat i) = Some a"
      using assms(4) by blast
    then have "m' a = bs ! i"
      using c i unfolding copied_def by blast
    then show "map (\<lambda>i. m' (the (translate m' pt (va + of_nat i)))) [0..<length bs] ! i = bs ! i"
      using i a tr [OF i] by simp
  qed simp
  finally show ?thesis .
qed

section \<open>Properties\<close>

text \<open>
  A three-level page table that maps one user page, at virtual address \<open>0x1000\<close>, to the frame at
  \<open>0x80004000\<close>, for the examples.
\<close>

definition one_page_memory :: memory where
  "one_page_memory =
     store64 (store64 (store64 (\<lambda>_. 0) 0x80001000 (PA2PTE 0x80002000 OR 1)) 0x80002000 (PA2PTE 0x80003000 OR 1))
       0x80003008 (PA2PTE 0x80004000 OR 0x17)"

lemma one_page_tables:
  "load64 one_page_memory 0x80001000 = PA2PTE 0x80002000 OR 1"
  "load64 one_page_memory 0x80002000 = PA2PTE 0x80003000 OR 1"
  "load64 one_page_memory 0x80003008 = PA2PTE 0x80004000 OR 0x17"
  by (simp_all add: one_page_memory_def load64_store64_other)

lemma PX_page1: "PX 2 0x1000 = 0" "PX 1 0x1000 = 0" "PX (Suc 0) 0x1000 = 0" "PX 0 0x1000 = 1"
  by (simp_all add: PX_def)

lemma PTE_examples:
  "PTE2PA (PA2PTE 0x80002000 OR 1) = 0x80002000" "(PA2PTE 0x80002000 OR 1) AND 1 = 1"
  "PTE2PA (PA2PTE 0x80003000 OR 1) = 0x80003000" "(PA2PTE 0x80003000 OR 1) AND 1 = 1"
  "PTE2PA (PA2PTE 0x80004000 OR 0x17) = 0x80004000" "(PA2PTE 0x80004000 OR 0x17) AND 1 = 1"
  "(PA2PTE 0x80004000 OR 0x17) AND 16 = 16" "(PA2PTE 0x80004000 OR 0x17) AND 4 = 4"
  by (simp_all add: PTE2PA_def PA2PTE_def)

lemma walk_two_levels:
  "walk_lookup m pt va =
     (let pte2 = load64 m (slot pt (PX 2 va)); pte1 = load64 m (slot (PTE2PA pte2) (PX 1 va)) in
      if pte2 AND PTE_V \<noteq> 0 \<and> pte1 AND PTE_V \<noteq> 0 then Some (slot (PTE2PA pte1) (PX 0 va)) else None)"
  "level_pages 2 m pt va =
     (let pte2 = load64 m (slot pt (PX 2 va)); pte1 = load64 m (slot (PTE2PA pte2) (PX 1 va)) in
      pt # (if pte2 AND PTE_V \<noteq> 0 then
        PTE2PA pte2 # (if pte1 AND PTE_V \<noteq> 0 then [PTE2PA pte1] else []) else []))"
  by (simp_all add: walk_lookup_def numeral_2_eq_2 Let_def)

lemma one_page_walk:
  "walk_lookup one_page_memory 0x80001000 0x1000 = Some 0x80003008"
  "walkaddr one_page_memory 0x80001000 0x1000 = 0x80004000"
  "level_pages 2 one_page_memory 0x80001000 0x1000 = [0x80001000, 0x80002000, 0x80003000]"
  by (simp_all add: walkaddr_def walk_two_levels PX_page1 one_page_tables PTE_examples)

text \<open>The bytes \<open>0x1004 \<dots> 0x1006\<close> of that page.\<close>

lemma one_page_bytes:
  assumes "i < (3 :: nat)"
  shows "translate one_page_memory 0x80001000 (0x1004 + of_nat i) = Some (0x80004004 + of_nat i)"
    and "tables one_page_memory 0x80001000 (0x1004 + of_nat i) = [0x80001000, 0x80002000, 0x80003000]"
    and "PGROUNDDOWN (0x80004004 + of_nat i) = 0x80004000"
proof -
  have i: "i = 0 \<or> i = 1 \<or> i = 2"
    using assms by auto
  then have p: "PGROUNDDOWN (0x1004 + of_nat i) = 0x1000"
    and "PGROUNDDOWN (0x80004004 + of_nat i) = 0x80004000"
    by (auto simp: PGROUNDDOWN_def)
  then show "tables one_page_memory 0x80001000 (0x1004 + of_nat i) = [0x80001000, 0x80002000, 0x80003000]"
    and "PGROUNDDOWN (0x80004004 + of_nat i) = 0x80004000"
    by (simp_all add: tables_def one_page_walk)
  show "translate one_page_memory 0x80001000 (0x1004 + of_nat i) = Some (0x80004004 + of_nat i)"
    using p by (simp add: translate_def one_page_walk)
qed

lemma one_page_isolated: "isolated one_page_memory 0x80001000 0x1004 3"
proof -
  have "j = i" if "i < 3" "j < 3" "(0x80004004 :: uint64) + of_nat i = 0x80004004 + of_nat j" for i j :: nat
  proof -
    have "unat (of_nat i :: uint64) = unat (of_nat j :: uint64)"
      using that(3) by simp
    then show ?thesis
      using that(1,2) by (simp add: unat_of_nat)
  qed
  then show ?thesis
    unfolding isolated_def by (auto simp: one_page_bytes)
qed

text \<open>
  C19. \<^verbatim>\<open>copyin()\<close>, which copies page by page, agrees with translating each byte's address on its own:
  it succeeds exactly when every byte of the range lies in a page mapped for the user, and
  then delivers those bytes.
\<close>

theorem copyin_bytewise:
  "copyin m pt va len =
     (if \<forall>i<len. user_byte m pt (va + of_nat i) \<noteq> None
      then (map (\<lambda>i. the (user_byte m pt (va + of_nat i))) [0..<len], True)
      else (fst (copyin m pt va len), False))"
proof (cases "\<forall>i<len. user_byte m pt (va + of_nat i) \<noteq> None")
  case True
  then have tr: "translate m pt (va + of_nat i) \<noteq> None" if "i < len" for i
    using that by (auto simp: user_byte_def)
  then have "copyin m pt va len = (map (\<lambda>i. m (the (translate m pt (va + of_nat i)))) [0..<len], True)"
    by (rule copyin_ok)
  moreover have "map (\<lambda>i. m (the (translate m pt (va + of_nat i)))) [0..<len] =
      map (\<lambda>i. the (user_byte m pt (va + of_nat i))) [0..<len]"
    using tr by (auto simp: user_byte_def option.map_sel)
  ultimately show ?thesis
    using True by simp
next
  case False
  then obtain i where "i < len" and "translate m pt (va + of_nat i) = None"
    by (auto simp: user_byte_def)
  then have "\<not> snd (copyin m pt va len)"
    by (rule copyin_fail)
  then show ?thesis
    using False by (cases "copyin m pt va len") simp
qed

theorem copyin_bytewise_witness: "copyin one_page_memory 0x80001000 0x1004 3 = ([0, 0, 0], True)"
proof -
  have "one_page_memory (0x80004004 + of_nat i) = 0" if "i < (3 :: nat)" for i
  proof -
    have "i = 0 \<or> i = 1 \<or> i = 2"
      using that by auto
    then show ?thesis
      by (auto simp: one_page_memory_def store64_def)
  qed
  then have b: "user_byte one_page_memory 0x80001000 (0x1004 + of_nat i) = Some 0" if "i < 3" for i
    using that by (simp add: user_byte_def one_page_bytes)
  then have "\<forall>i<3. user_byte one_page_memory 0x80001000 (0x1004 + of_nat i) \<noteq> None"
    by simp
  moreover have "map (\<lambda>i. the (user_byte one_page_memory 0x80001000 (0x1004 + of_nat i))) [0..<3] = [0, 0, 0]"
    using b [of 0] b [of 1] b [of 2] by (simp add: upt_rec)
  ultimately show ?thesis
    using copyin_bytewise [of one_page_memory "0x80001000" "0x1004" 3] by presburger
qed

text \<open>
  C9. What \<^verbatim>\<open>copyout()\<close> has put into a user range, \<^verbatim>\<open>copyin()\<close> reads back from it: the two agree on the
  translation of every byte, across page boundaries, as long as the range does not overlay the
  page-table pages that translate it and no frame is mapped twice in it.
\<close>

theorem copyout_then_copyin:
  assumes "copyout m pt va bs = (m', True)" and "page_aligned pt" and "isolated m pt va (length bs)"
    and "\<And>i. i < length bs \<Longrightarrow> translate m pt (va + of_nat i) \<noteq> None"
  shows "copyin m' pt va (length bs) = (bs, True)"
  using assms by (rule copyout_copyin)

theorem copyout_then_copyin_witness:
  "copyin (fst (copyout one_page_memory 0x80001000 0x1004 [1, 2, 3])) 0x80001000 0x1004 3 = ([1, 2, 3], True)"
proof -
  have p: "PGROUNDDOWN 0x1004 = 0x1000"
    by (simp add: PGROUNDDOWN_def)
  have "snd (copyout one_page_memory 0x80001000 0x1004 [1, 2, 3])"
    by (simp add: copyout.simps [of one_page_memory] p one_page_walk one_page_tables PTE_examples chunk_def)
      (simp add: copyout.simps)
  then have "copyout one_page_memory 0x80001000 0x1004 [1, 2, 3] =
      (fst (copyout one_page_memory 0x80001000 0x1004 [1, 2, 3]), True)"
    by (simp add: prod_eq_iff)
  then have "copyin (fst (copyout one_page_memory 0x80001000 0x1004 [1, 2, 3])) 0x80001000 0x1004
      (length [1, 2, 3 :: byte]) = ([1, 2, 3], True)"
    by (rule copyout_then_copyin) (use one_page_isolated in \<open>simp_all add: page_aligned_def one_page_bytes numeral_3_eq_3\<close>)
  then show ?thesis
    by (simp add: numeral_3_eq_3)
qed



end
