(* ===== verification/BlockIO.thy ===== *)
theory BlockIO
  imports Bio
begin

text \<open>
  Whole accesses to a block through the buffer cache, the way the clients of \<^verbatim>\<open>kernel/bio.c\<close> make
  them: read the block, change the buffer, write it through, release it.  A client that nobody
  competes with for its blocks (\<open>idle_for\<close>) can repeat such accesses, sees the cache as a plain
  array of blocks, and leaves everything else of the state alone (\<open>bio_frame\<close>).
\<close>

definition bio_frame :: "'a biost_scheme \<Rightarrow> 'a biost_scheme \<Rightarrow> bool" where
  "bio_frame s t \<longleftrightarrow> (\<exists>ps sl bs d. t = s\<lparr>proc := ps, slocks := sl, bufs := bs, disk := d\<rparr>)"

lemma bio_frame_refl [simp]: "bio_frame s s"
  unfolding bio_frame_def
  by (rule exI [of _ "proc s"], rule exI [of _ "slocks s"], rule exI [of _ "bufs s"],
      rule exI [of _ "disk s"]) simp

lemma bio_frame_trans: "bio_frame s t \<Longrightarrow> bio_frame t u \<Longrightarrow> bio_frame s u"
  unfolding bio_frame_def by (elim exE) (simp, blast)

text \<open>No reference to a block of \<open>K\<close>, and at least one buffer to spare.\<close>

definition idle_for :: "(uint32 \<times> uint32) set \<Rightarrow> 'a biost_scheme \<Rightarrow> bool" where
  "idle_for K s \<longleftrightarrow> (\<exists>i<NBUF. b_refcnt (bufs s ! i) = 0) \<and>
     (\<forall>i<NBUF. bkey s i \<in> K \<longrightarrow> b_refcnt (bufs s ! i) = 0)"

lemma idle_can_bread:
  assumes "bcache_ok s xs" and "idle_for K s" and "(dev, b) \<in> K" and "(0, 0) \<notin> K"
  shows "can_bread s dev b"
proof -
  have key: "(dev, b) \<noteq> (0, 0)"
    using assms(3,4) by metis
  have "\<not> sl_locked (slocks s (SL_buf i)) \<and> b_refcnt (bufs s ! i) + 1 \<noteq> 0" if "cached s (dev, b) = Some i" for i
  proof -
    have "i < NBUF" and "bkey s i = (dev, b)"
      using that cached_Some [OF bcache_okD(2) [OF assms(1)] key] by auto
    then show ?thesis
      using assms(2,3) bcache_okD(3) [OF assms(1)] by (auto simp: idle_for_def buf_ok_def)
  qed
  then show ?thesis
    using key assms(2) unfolding can_bread_def idle_for_def by (auto split: option.split)
qed

text \<open>Changing the bytes of a buffer that is in use.\<close>

lemma set_data_simps [simp]:
  "held (set_data i d s) = held s" "proc (set_data i d s) = proc s" "cpu_proc (set_data i d s) = cpu_proc s"
  "slocks (set_data i d s) = slocks s" "disk (set_data i d s) = disk s"
  "length (bufs (set_data i d s)) = length (bufs s)"
  by (simp_all add: set_data_def)

lemma set_data_fields:
  assumes "i < length (bufs s)"
  shows "b_data (bufs (set_data i d s) ! j) = (if j = i then d else b_data (bufs s ! j))"
    and "b_valid (bufs (set_data i d s) ! j) = b_valid (bufs s ! j)"
    and "b_refcnt (bufs (set_data i d s) ! j) = b_refcnt (bufs s ! j)"
    and "b_blockno (bufs (set_data i d s) ! j) = b_blockno (bufs s ! j)"
    and "bkey (set_data i d s) j = bkey s j"
    and "owns l (set_data i d s) = owns l s" and "sleepable (set_data i d s) = sleepable s"
proof -
  show "sleepable (set_data i d s) = sleepable s"
    by (rule sleepable_cong) simp_all
  show "owns l (set_data i d s) = owns l s"
    by (simp add: owns_def mypid_def)
qed (use assms in \<open>auto simp: set_data_def upd_buf_def nth_list_update bkey_def\<close>)

lemma set_data_inv:
  assumes ok: "bcache_ok s xs" and i: "i < NBUF" and ref: "b_refcnt (bufs s ! i) \<noteq> 0"
    and v: "b_valid (bufs s ! i)" and d: "length d = BSIZE"
  shows "bcache_ok (set_data i d s) xs"
    and "bview (set_data i d s) k = (if k = bkey s i then d else bview s k)"
proof -
  let ?t = "set_data i d s"
  have len: "i < length (bufs s)"
    using mruD(1) [OF bcache_okD(1) [OF ok]] i by simp
  note f = set_data_fields [OF len, where d = d]
  have one: "one_buf i s ?t"
    using len by (auto simp: one_buf_def set_data_def)
  have bok: "buf_ok ?t i"
    using bcache_okD(3) [OF ok i] ref d by (simp add: buf_ok_def f)
  have "bkey s j = bkey ?t i \<Longrightarrow> bkey ?t i = (0, 0)" if "j < NBUF" "j \<noteq> i" for j
    using bcache_okD(2) [OF ok] that i f(5) unfolding no_dup_def by metis
  then show ok': "bcache_ok ?t xs"
    by (rule bcache_ok_one_buf [OF ok one i bok])
  show "bview ?t k = (if k = bkey s i then d else bview s k)"
  proof (cases "k = bkey s i")
    case True
    then show ?thesis
      using bview_hit [OF ok' i] v f by simp
  next
    case False
    then show ?thesis
      using bview_one_buf [OF ok ok' one i] f(5) by simp
  qed
qed

text \<open>The buffers after a release: their bytes and their references.\<close>

lemma brelse_state_fields:
  assumes "i < length (bufs s)"
  shows "b_refcnt (bufs (brelse_state i s) ! j) =
      (if j = i then b_refcnt (bufs s ! j) - 1 else b_refcnt (bufs s ! j))"
    and "b_valid (bufs (brelse_state i s) ! j) = b_valid (bufs s ! j)"
    and "bkey (brelse_state i s) j = bkey s j" and "disk (brelse_state i s) = disk s"
    and "bio_frame s (brelse_state i s)"
proof -
  let ?u = "brelse_ref i (drop_lock (SL_buf i) s)"
  have l: "same_but_links ?u (brelse_state i s)"
    by (simp add: brelse_state_def Let_def)
  have f: "b_refcnt (bufs (brelse_state i s) ! j) = b_refcnt (bufs ?u ! j)"
    "b_valid (bufs (brelse_state i s) ! j) = b_valid (bufs ?u ! j)"
    "bkey (brelse_state i s) j = bkey ?u j" "disk (brelse_state i s) = disk ?u"
    using l links_key [OF l] links_state [OF l] unfolding same_but_links_def by auto
  show "b_refcnt (bufs (brelse_state i s) ! j) =
      (if j = i then b_refcnt (bufs s ! j) - 1 else b_refcnt (bufs s ! j))"
    and "b_valid (bufs (brelse_state i s) ! j) = b_valid (bufs s ! j)"
    and "bkey (brelse_state i s) j = bkey s j" and "disk (brelse_state i s) = disk s"
    unfolding f using assms by (auto simp: brelse_ref_def upd_buf_def nth_list_update bkey_def)
  obtain bs where "brelse_state i s = ?u\<lparr>bufs := bs\<rparr>"
    using l unfolding same_but_links_def by blast
  then have "brelse_state i s =
      s\<lparr>proc := proc (drop_lock (SL_buf i) s), slocks := slocks (drop_lock (SL_buf i) s), bufs := bs,
        disk := disk s\<rparr>"
    by (cases s) (simp add: brelse_ref_def upd_buf_def drop_lock_def)
  then show "bio_frame s (brelse_state i s)"
    unfolding bio_frame_def by blast
qed

lemma bframe_bio_frame: "bframe i s t \<Longrightarrow> bio_frame s t"
proof -
  assume "bframe i s t"
  then obtain sl bs where "t = s\<lparr>slocks := sl, bufs := bs\<rparr>"
    unfolding bframe_def by blast
  then have "t = s\<lparr>proc := proc s, slocks := sl, bufs := bs, disk := disk s\<rparr>"
    by (cases s) simp
  then show ?thesis
    unfolding bio_frame_def by blast
qed

section \<open>Whole accesses\<close>

definition write_block :: "uint32 \<Rightarrow> uint32 \<Rightarrow> byte list \<Rightarrow> 'a biost_scheme \<Rightarrow> ('a biost_scheme, unit) outcome" where
  "write_block dev b d s =
     andThen (bread dev b s) (\<lambda>i s. andThen (bwrite i (set_data i d s)) (\<lambda>_ s. brelse i s))"

text \<open>No other block that is cached sits on the same sectors of the disk.\<close>

definition unshared :: "uint32 \<times> uint32 \<Rightarrow> 'a biost_scheme \<Rightarrow> bool" where
  "unshared k s \<longleftrightarrow> (\<forall>j<NBUF. b_valid (bufs s ! j) \<longrightarrow>
     disk_sector (b_blockno (bufs s ! j)) = disk_sector (snd k) \<longrightarrow> bkey s j = k)"

definition block_step ::
  "(uint32 \<times> uint32) set \<Rightarrow> uint32 \<times> uint32 \<Rightarrow> 'a biost_scheme \<Rightarrow> 'a biost_scheme \<Rightarrow> bool" where
  "block_step K k s u \<longleftrightarrow> (\<exists>ys. bcache_ok u ys) \<and> sleepable u \<and> idle_for K u \<and> bio_frame s u \<and>
     (\<forall>j<NBUF. b_valid (bufs u ! j) \<longrightarrow> bkey u j = k \<or> (b_valid (bufs s ! j) \<and> bkey u j = bkey s j))"

lemma idle_after:
  assumes "idle_for K s" and "i < NBUF" and "b_refcnt (bufs s ! i) = 0"
    and "\<And>j. j < NBUF \<Longrightarrow> b_refcnt (bufs u ! j) = b_refcnt (bufs s ! j)"
    and "\<And>j. j < NBUF \<Longrightarrow> j \<noteq> i \<Longrightarrow> bkey u j = bkey s j"
  shows "idle_for K u"
  using assms unfolding idle_for_def by metis

lemma bread_post_fields:
  assumes "bread_post dev b xs s i t"
  shows "i < NBUF" "bcache_ok t xs" "sleepable t" "bkey t i = (dev, b)" "owns (SL_buf i) t"
    "b_valid (bufs t ! i)" "b_data (bufs t ! i) = bview s (dev, b)"
    "b_refcnt (bufs t ! i) = b_refcnt (bufs s ! i) + 1" "b_refcnt (bufs t ! i) \<noteq> 0"
    "bview t = bview s" "bio_frame s t" "disk t = disk s"
    "\<And>j. j \<noteq> i \<Longrightarrow> bufs t ! j = bufs s ! j" "\<And>j. j \<noteq> i \<Longrightarrow> bkey t j = bkey s j"
  using assms bframe_bio_frame [of i s t]
  by (auto simp: bread_post_def bframe_def one_buf_def bkey_def)

lemma bread_post_ref:
  assumes "bread_post dev b xs s i t" and "idle_for K s" and "(dev, b) \<in> K"
  shows "b_refcnt (bufs s ! i) = 0"
  using assms unfolding bread_post_def idle_for_def by metis

lemma write_block_runs:
  assumes ok: "bcache_ok s xs" and sl: "sleepable s" and idle: "idle_for K s"
    and k: "(dev, b) \<in> K" "(0, 0) \<notin> K" and d: "length d = BSIZE" and alone: "unshared (dev, b) s"
  shows "runs (write_block dev b d s) (\<lambda>_ u. block_step K (dev, b) s u \<and>
    disk u = (disk s)(disk_sector b := d) \<and> bview u (dev, b) = d \<and>
    (\<forall>q. disk_sector (snd q) \<noteq> disk_sector b \<longrightarrow> bview u q = bview s q))"
proof -
  have key: "(dev, b) \<noteq> (0, 0)"
    using k by metis
  have "runs (andThen (bwrite i (set_data i d t)) (\<lambda>_ s. brelse i s)) (\<lambda>_ u. block_step K (dev, b) s u \<and>
      disk u = (disk s)(disk_sector b := d) \<and> bview u (dev, b) = d \<and>
      (\<forall>q. disk_sector (snd q) \<noteq> disk_sector b \<longrightarrow> bview u q = bview s q))"
    if post: "bread_post dev b xs s i t" for i t
  proof -
    note p = bread_post_fields [OF post]
    have r0: "b_refcnt (bufs s ! i) = 0" and r1: "b_refcnt (bufs t ! i) = 1"
      using bread_post_ref [OF post idle k(1)] p(8) by simp_all
    have len: "i < length (bufs t)"
      using mruD(1) [OF bcache_okD(1) [OF p(2)]] p(1) by simp
    define t1 where "t1 = set_data i d t"
    note f = set_data_fields [OF len, where d = d, folded t1_def]
    note inv1 = set_data_inv [OF p(2,1,9,6) d, folded t1_def]
    have blk: "b_blockno (bufs t1 ! i) = b"
      using f(4) [of i] p(4) by (simp add: bkey_def)
    define t2 where "t2 = t1\<lparr>disk := (disk t1)(disk_sector b := d)\<rparr>"
    have bw: "bwrite i t1 = Ok () t2"
      using bwrite_eq [of t1 i] p(3,5) f blk by (simp add: t2_def)
    have sole: "sole i t1"
      unfolding sole_def
    proof (intro allI impI)
      fix j assume j: "j < NBUF" "j \<noteq> i" "b_valid (bufs t1 ! j)"
      have eq: "bufs t ! j = bufs s ! j" "bkey t j = bkey s j"
        using p(13,14) j(2) by auto
      have "bkey s j \<noteq> (dev, b)"
        using bcache_okD(2) [OF p(2)] j p(1,4) eq key unfolding no_dup_def by metis
      then show "disk_sector (b_blockno (bufs t1 ! j)) \<noteq> disk_sector (b_blockno (bufs t1 ! i))"
        using alone j f(2,4) [of j] eq blk unfolding unshared_def by auto
    qed
    have v1: "b_valid (bufs t1 ! i)" and d1: "b_data (bufs t1 ! i) = d"
      using f p(6) by simp_all
    note inv2 = bwrite_inv [OF inv1(1) p(1) v1 sole, unfolded blk d1, folded t2_def]
    have b2: "bufs t2 = bufs t1" and d2: "disk t2 = (disk s)(disk_sector b := d)"
      using p(12) by (simp_all add: t2_def t1_def)
    have key2: "bkey t2 j = bkey t j" for j
      using f(5) b2 by (simp add: bkey_def)
    have sl2: "sleepable t2" and own2: "owns (SL_buf i) t2"
    proof -
      have "sleepable t2 = sleepable t1"
        by (rule sleepable_cong) (simp_all add: t2_def)
      then show "sleepable t2"
        using f(7) p(3) by simp
      have "owns (SL_buf i) t2 = owns (SL_buf i) t1"
        by (simp add: t2_def owns_def mypid_def)
      then show "owns (SL_buf i) t2"
        using f(6) p(5) by simp
    qed
    have ref2: "b_refcnt (bufs t2 ! j) = b_refcnt (bufs t ! j)" for j
      using f(3) b2 by simp
    let ?u = "brelse_state i t2"
    have len2: "i < length (bufs t2)"
      using len b2 by (simp add: t1_def)
    note g = brelse_state_fields [OF len2]
    have k2: "bkey t2 i \<noteq> (0, 0)" and ne2: "b_refcnt (bufs t2 ! i) \<noteq> 0" and r2: "b_refcnt (bufs t2 ! i) = 1"
      using key2 p(4) key ref2 r1 by simp_all
    have "b_data (bufs t2 ! i) = disk t2 (disk_sector (b_blockno (bufs t2 ! i)))"
      using b2 d1 blk by (simp add: t2_def)
    then have "runs (brelse i t2) (\<lambda>_ u. u = ?u \<and> sleepable u \<and> bview u = bview t2 \<and>
        bcache_ok u (if b_refcnt (bufs t2 ! i) = 1 then i # remove1 i xs else xs))"
      using inv2(1) sl2 p(1) own2 k2 ne2 by (intro brelse_runs) auto
    moreover have "bio_frame s ?u"
    proof -
      have "t2 = t\<lparr>proc := proc t, slocks := slocks t, bufs := bufs t1, disk := disk t2\<rparr>"
        by (cases t) (simp add: t2_def t1_def set_data_def upd_buf_def)
      then have "bio_frame t t2"
        unfolding bio_frame_def by blast
      then show ?thesis
        using p(11) g(5) bio_frame_trans by blast
    qed
    moreover have refu: "b_refcnt (bufs ?u ! j) = b_refcnt (bufs s ! j)" for j
      using g(1) [of j] ref2 [of j] p(13) [of j] r1 r0 by auto
    moreover have keyu: "bkey ?u j = (if j = i then (dev, b) else bkey s j)" for j
      using g(3) [of j] key2 [of j] p(4) p(14) [of j] by auto
    then have "idle_for K ?u"
      using idle_after [OF idle p(1) r0 refu] by auto
    moreover have "bkey ?u j = (dev, b) \<or> (b_valid (bufs s ! j) \<and> bkey ?u j = bkey s j)"
      if "b_valid (bufs ?u ! j)" for j
      using that keyu [of j] g(2) [of j] f(2) [of j] b2 p(13) [of j] by auto
    moreover have "bview t2 (dev, b) = d"
      using inv2(2) [of "(dev, b)"] inv1(2) [of "(dev, b)"] p(4) f(5) by simp
    moreover have "bview t2 q = bview s q" if "disk_sector (snd q) \<noteq> disk_sector b" for q
      using inv2(2) [of q] inv1(2) [of q] that p(4,10) by auto
    moreover have "disk ?u = (disk s)(disk_sector b := d)"
      using g(4) d2 by simp
    ultimately have "runs (brelse i t2) (\<lambda>_ u. block_step K (dev, b) s u \<and>
      disk u = (disk s)(disk_sector b := d) \<and> bview u (dev, b) = d \<and>
      (\<forall>q. disk_sector (snd q) \<noteq> disk_sector b \<longrightarrow> bview u q = bview s q))"
      unfolding block_step_def by (auto elim!: runs_mono)
    then show ?thesis
      using bw by (simp add: t1_def)
  qed
  then show ?thesis
    unfolding write_block_def using runs_mono [OF bread_runs [OF ok sl idle_can_bread [OF ok idle k]]] by simp
qed

text \<open>
  Between reading a block and releasing it the client may change parts of the state that the
  cache does not look at.
\<close>

definition same_bio :: "'a biost_scheme \<Rightarrow> 'a biost_scheme \<Rightarrow> bool" where
  "same_bio s t \<longleftrightarrow> held t = held s \<and> proc t = proc s \<and> cpu_proc t = cpu_proc s \<and>
     slocks t = slocks s \<and> bufs t = bufs s \<and> disk t = disk s"

lemma same_bio_props:
  assumes "same_bio s t"
  shows "bcache_ok t xs = bcache_ok s xs" and "sleepable t = sleepable s" and "owns l t = owns l s"
    and "bkey t i = bkey s i" and "bview t k = bview s k" and "idle_for K t = idle_for K s"
    and "unshared k t = unshared k s"
proof -
  have eq: "bufs t = bufs s" "disk t = disk s" "slocks t = slocks s"
    and key: "bkey t j = bkey s j" for j
    using assms by (simp_all add: same_bio_def bkey_def)
  show "sleepable t = sleepable s"
    using assms by (intro sleepable_cong) (simp_all add: same_bio_def)
  show "owns l t = owns l s"
    using assms by (simp add: same_bio_def owns_def mypid_def)
  show "bcache_ok t xs = bcache_ok s xs"
    unfolding bcache_ok_def mru_def no_dup_def buf_ok_def key eq ..
  show "bkey t i = bkey s i" by (rule key)
  show "bview t k = bview s k"
    unfolding bview_def cached_def key eq ..
  show "idle_for K t = idle_for K s"
    unfolding idle_for_def key eq ..
  show "unshared k t = unshared k s"
    unfolding unshared_def key eq ..
qed

lemma release_after_read:
  assumes ok: "bcache_ok s xs" and post: "bread_post dev b xs s i t" and idle: "idle_for K s"
    and k: "(dev, b) \<in> K" "(0, 0) \<notin> K" and same: "same_bio t v"
  shows "runs (brelse i v) (\<lambda>_ u. (\<exists>ys. bcache_ok u ys) \<and> sleepable u \<and> idle_for K u \<and> bio_frame v u \<and>
    (\<forall>j<NBUF. b_valid (bufs u ! j) \<longrightarrow> bkey u j = (dev, b) \<or> (b_valid (bufs s ! j) \<and> bkey u j = bkey s j)) \<and>
    disk u = disk s \<and> bview u = bview s)"
proof -
  note p = bread_post_fields [OF post] and q = same_bio_props [OF same]
  have key: "(dev, b) \<noteq> (0, 0)"
    using k by metis
  have r0: "b_refcnt (bufs s ! i) = 0" and r1: "b_refcnt (bufs t ! i) = 1"
    using bread_post_ref [OF post idle k(1)] p(8) by simp_all
  have eq: "bufs v = bufs t" "disk v = disk t"
    using same by (simp_all add: same_bio_def)
  have len: "i < length (bufs v)"
    using mruD(1) [OF bcache_okD(1) [OF p(2)]] p(1) eq by simp
  note g = brelse_state_fields [OF len]
  have "runs (brelse i v) (\<lambda>_ u. u = brelse_state i v \<and> sleepable u \<and> bview u = bview v \<and>
      bcache_ok u (if b_refcnt (bufs v ! i) = 1 then i # remove1 i xs else xs))"
    using p q key eq bread_post_clean [OF ok post key r0] by (intro brelse_runs) auto
  moreover have refu: "b_refcnt (bufs (brelse_state i v) ! j) = b_refcnt (bufs s ! j)" for j
    using g(1) [of j] eq p(13) [of j] r1 r0 by auto
  moreover have keyu: "bkey (brelse_state i v) j = (if j = i then (dev, b) else bkey s j)" for j
    using g(3) [of j] q(4) p(4) p(14) [of j] by auto
  then have "idle_for K (brelse_state i v)"
    using idle_after [OF idle p(1) r0 refu] by auto
  moreover have "bkey (brelse_state i v) j = (dev, b) \<or>
      (b_valid (bufs s ! j) \<and> bkey (brelse_state i v) j = bkey s j)"
    if "b_valid (bufs (brelse_state i v) ! j)" for j
    using that keyu [of j] g(2) [of j] eq p(13) [of j] by auto
  moreover have "bview v = bview s"
    using q(5) p(10) by auto
  ultimately show ?thesis
    using g(4,5) eq p(12) by (auto elim!: runs_mono)
qed

lemma unshared_step:
  assumes "unshared q s" and "block_step K k s u" and "disk_sector (snd k) = disk_sector (snd q) \<Longrightarrow> k = q"
  shows "unshared q u"
  unfolding unshared_def
proof (intro allI impI)
  fix j assume j: "j < NBUF" "b_valid (bufs u ! j)"
    and sec: "disk_sector (b_blockno (bufs u ! j)) = disk_sector (snd q)"
  then consider "bkey u j = k" | "b_valid (bufs s ! j)" "bkey u j = bkey s j"
    using assms(2) unfolding block_step_def by blast
  then show "bkey u j = q"
  proof cases
    case 1
    then show ?thesis
      using assms(3) sec by (auto simp: bkey_def)
  next
    case 2
    then show ?thesis
      using assms(1) j(1) sec unfolding unshared_def by (auto simp: bkey_def)
  qed
qed

section \<open>What is above the cache stays as it is\<close>

text \<open>Whether or not these operations run to their end, they leave the rest of the kernel's state alone.\<close>

lemma safe_acquire_bio: "safe (acquire lk s) (\<lambda>_ t. biost.more t = biost.more s)"
  and safe_release_bio: "safe (release lk s) (\<lambda>_ t. biost.more t = biost.more s)"
  by (simp_all add: acquire_def release_def)

lemma safe_with_myproc: "(\<And>p. safe (f p) P) \<Longrightarrow> safe (with_myproc s f) P"
  by (simp add: with_myproc_def split: option.split)

lemma safe_sched: "safe (sched s) P"
  by (auto simp: sched_def with_myproc_def split: option.split)

lemma safe_sleep: "safe (sleep ch lk s) P"
  by (auto simp: sleep_def with_myproc_def safe_iff safe_sched [unfolded safe_iff] split: option.split)

lemma safe_wakeup_more: "safe (wakeup ch s) (\<lambda>_ t. biost.more t = biost.more (s :: 'a biost_scheme))"
  unfolding wakeup_def
proof (rule foreach_inv_safe)
  fix x and t :: "'a biost_scheme"
  assume "biost.more t = biost.more s"
  then show "safe (wakeup_one ch x t) (\<lambda>_ t. biost.more t = biost.more s)"
    by (simp add: wakeup_one_def acquire_def release_def upd_proc_def Let_def)
qed simp

lemma safe_acquiresleep_more: "safe (acquiresleep l s) (\<lambda>_ t. biost.more t = biost.more (s :: 'a biost_scheme))"
  by (simp add: acquiresleep_def acquiresleep_loop_def acquire_def release_def with_myproc_def safe_sleep split: option.split)

lemma safe_releasesleep_more: "safe (releasesleep l s) (\<lambda>_ t. biost.more t = biost.more (s :: 'a biost_scheme))"
proof -
  have "safe (wakeup ch u) (\<lambda>_ t. safe (release lk t) (\<lambda>_ t. biost.more t = biost.more s))"
    if "biost.more u = biost.more s" for ch lk and u :: "'a biost_scheme"
    by (rule safe_mono [OF safe_wakeup_more]) (simp add: release_def that)
  then show ?thesis
    by (simp add: releasesleep_def acquire_def Let_def)
qed

lemma safe_holdingsleep_more: "safe (holdingsleep l s) (\<lambda>_ t. biost.more t = biost.more (s :: 'a biost_scheme))"
  by (simp add: holdingsleep_def acquire_def release_def with_myproc_def Let_def split: option.split)

lemma upd_buf_more [simp]: "biost.more (upd_buf i f s) = biost.more s"
  by (simp add: upd_buf_def)

lemma set_data_more [simp]: "biost.more (set_data i d s) = biost.more s"
  by (simp add: set_data_def)

lemma link_front_more [simp]: "biost.more (link_front i s) = biost.more s"
  by (simp add: link_front_def set_next_def set_prev_def Let_def)

lemma safe_bget_more: "safe (bget dev blockno s) (\<lambda>_ t. biost.more t = biost.more s)"
proof -
  have a: "safe (acquiresleep l u) (\<lambda>_ t. biost.more t = biost.more s)"
    if "biost.more u = biost.more s" for l and u :: "'a biost_scheme"
    using safe_acquiresleep_more [of l u] that by simp
  show ?thesis
    by (auto simp: bget_def acquire_def release_def Let_def a split: option.split)
qed

lemma safe_virtio_disk_rw_more: "safe (virtio_disk_rw i w s) (\<lambda>_ t. biost.more t = biost.more s)"
  by (simp add: virtio_disk_rw_def with_myproc_def Let_def split: option.split)

lemma safe_bread_more: "safe (bread dev blockno s) (\<lambda>_ t. biost.more t = biost.more s)"
  unfolding bread_def safe_andThen
proof (rule safe_mono [OF safe_bget_more])
  fix i and t :: "'a biost_scheme"
  assume "biost.more t = biost.more s"
  then show "safe (if \<not> b_valid (bufs t ! i)
       then andThen (virtio_disk_rw i False t) (\<lambda>_ s. Ok i (upd_buf i (b_valid_update (\<lambda>_. True)) s))
       else Ok i t) (\<lambda>_ t. biost.more t = biost.more s)"
    using safe_virtio_disk_rw_more [of i False t] by simp
qed

lemma safe_bwrite_more: "safe (bwrite i s) (\<lambda>_ t. biost.more t = biost.more s)"
  unfolding bwrite_def safe_andThen
  by (rule safe_mono [OF safe_holdingsleep_more]) (simp, use safe_virtio_disk_rw_more in metis)

lemma safe_brelse_more: "safe (brelse i s) (\<lambda>_ t. biost.more t = biost.more s)"
proof -
  have r: "safe (releasesleep l u) (\<lambda>_ t. biost.more t = biost.more s)"
    if "biost.more u = biost.more s" for l and u :: "'a biost_scheme"
    using safe_releasesleep_more [of l u] that by simp
  show ?thesis
    unfolding brelse_def safe_andThen
    by (rule safe_mono [OF safe_holdingsleep_more], simp, rule impI, rule safe_mono [OF r], assumption)
      (simp add: acquire_def release_def Let_def set_prev_def set_next_def)
qed

lemma safe_bpin_more: "safe (bpin i s) (\<lambda>_ t. biost.more t = biost.more s)"
  and safe_bunpin_more: "safe (bunpin i s) (\<lambda>_ t. biost.more t = biost.more s)"
  by (simp_all add: bpin_def bunpin_def acquire_def release_def)

lemmas bio_more = safe_wakeup_more safe_bread_more safe_bwrite_more safe_brelse_more safe_bpin_more safe_bunpin_more

lemma more_step:
  assumes "safe m (\<lambda>_ u. biost.more u = biost.more t)" and "biost.more t = biost.more s"
    and "\<And>x u. biost.more u = biost.more s \<Longrightarrow> safe (f x u) P"
  shows "safe (andThen m f) P"
  using assms by (auto simp: safe_iff)

end
