(* ===== verification/Kalloc.thy ===== *)
theory Kalloc
  imports Walk BlockIO
begin

text \<open>
  The physical page allocator with page replacement (\<^verbatim>\<open>kernel/kalloc.c\<close>) and the swap area
  (\<^verbatim>\<open>swapread()\<close>, \<^verbatim>\<open>swapwrite()\<close> of \<^verbatim>\<open>kernel/fs.c\<close>; \<^verbatim>\<open>either_copyin()\<close>, \<^verbatim>\<open>either_copyout()\<close> of \<^verbatim>\<open>kernel/proc.c\<close>).

  The free list is threaded through the free pages themselves, in the byte-addressed memory.
  \<open>pages\<close> is the array of page descriptors, indexed by page number; a pointer to a descriptor
  is its index, the null pointer \<open>None\<close>.  An entry of \<open>swap_bitmap\<close> is \<open>True\<close> when the slot of four
  blocks is in use.  \<open>kernel_end\<close> is the linker's symbol \<^verbatim>\<open>end\<close>.
\<close>

section \<open>Model\<close>

record page =
  pg_next :: "nat option"
  pg_prev :: "nat option"
  pg_pagetable :: uint64
  pg_vaddr :: uint64

record memst = biost +
  mem :: memory
  freelist :: uint64
  pages :: "nat \<Rightarrow> page"
  lru_head :: "nat option"
  swap_bitmap :: "bool list"
  kernel_end :: uint64
  nr_sectors_read :: int
  nr_sectors_write :: int

abbreviation (input) SWAPBASE :: int where "SWAPBASE \<equiv> 2000"
abbreviation (input) SWAPMAX :: int where "SWAPMAX \<equiv> 28000"
abbreviation (input) SWAPSLOTS :: nat where "SWAPSLOTS \<equiv> 7000"

definition page_index :: "uint64 \<Rightarrow> nat" where
  "page_index pa = unat (pa div PGSIZE)"

definition upd_page :: "nat \<Rightarrow> (page \<Rightarrow> page) \<Rightarrow> 'a memst_scheme \<Rightarrow> 'a memst_scheme" where
  "upd_page i f s = s\<lparr>pages := (pages s)(i := f (pages s i))\<rparr>"

subsection \<open>The free list\<close>

definition kfree :: "uint64 \<Rightarrow> 'a memst_scheme \<Rightarrow> ('a memst_scheme, unit) outcome" where
  "kfree pa s =
     (if pa mod PGSIZE \<noteq> 0 \<or> pa < kernel_end s \<or> PHYSTOP \<le> pa then Panic ''kfree''
      else let s = s\<lparr>mem := memset (mem s) pa 1 4096\<rparr> in
        andThen (acquire L_kmem s) (\<lambda>_ s.
        release L_kmem (s\<lparr>mem := store64 (mem s) pa (freelist s), freelist := pa\<rparr>)))"

lemma kfree_below: "kfree pa s = Ok x t \<Longrightarrow> pa < PHYSTOP"
  by (auto simp: kfree_def split: if_splits)

function freerange_loop :: "uint64 \<Rightarrow> uint64 \<Rightarrow> 'a memst_scheme \<Rightarrow> ('a memst_scheme, unit) outcome" where
  "freerange_loop p pa_end s =
     (if p + PGSIZE \<le> pa_end
      then andThen (kfree p s) (\<lambda>_ s. freerange_loop (p + PGSIZE) pa_end s)
      else Ok () s)"
  by auto
termination
proof (relation "measure (\<lambda>(p, e, s). 2 ^ 64 - unat p)")
  fix p e x and s t :: "'a memst_scheme"
  assume "kfree p s = Ok x t"
  then have "unat p < 0x88000000"
    using kfree_below by (fastforce simp: word_less_nat_alt)
  then have "unat (p + 4096) = unat p + 4096"
    by (subst unat_plus_if') simp
  then show "((p + 4096, e, t), (p, e, s)) \<in> measure (\<lambda>(p, e, s). 2 ^ 64 - unat p)"
    using \<open>unat p < 0x88000000\<close> by simp
qed simp

definition freerange :: "uint64 \<Rightarrow> uint64 \<Rightarrow> 'a memst_scheme \<Rightarrow> ('a memst_scheme, unit) outcome" where
  "freerange pa_start pa_end s = freerange_loop (PGROUNDUP pa_start) pa_end s"

subsection \<open>The list of replaceable pages\<close>

definition lru_init :: "'a memst_scheme \<Rightarrow> 'a memst_scheme" where
  "lru_init s = s\<lparr>lru_head := None, swap_bitmap := replicate SWAPSLOTS False\<rparr>"

definition kinit :: "'a memst_scheme \<Rightarrow> ('a memst_scheme, unit) outcome" where
  "kinit s = (let s = lru_init s in freerange (kernel_end s) PHYSTOP s)"

definition lru_add :: "uint64 \<Rightarrow> 'a memst_scheme \<Rightarrow> ('a memst_scheme, unit) outcome" where
  "lru_add pa s =
     (let p = page_index pa in
      andThen (acquire L_lru s) (\<lambda>_ s.
      case lru_head s of
        None \<Rightarrow>
          release L_lru (upd_page p (\<lambda>g. g\<lparr>pg_next := Some p, pg_prev := Some p\<rparr>) (s\<lparr>lru_head := Some p\<rparr>))
      | Some h \<Rightarrow>
          let tail = pg_prev (pages s h);
              s = upd_page p (\<lambda>g. g\<lparr>pg_next := Some h, pg_prev := tail\<rparr>) s in
          (case tail of
             None \<Rightarrow> Panic ''kerneltrap''
           | Some t \<Rightarrow>
               let s = upd_page t (\<lambda>g. g\<lparr>pg_next := Some p\<rparr>) s;
                   s = upd_page h (\<lambda>g. g\<lparr>pg_prev := Some p\<rparr>) s in
               release L_lru s)))"

text \<open>\<^verbatim>\<open>p->prev->next = p->next; p->next->prev = p->prev;\<close>\<close>

definition page_unlink :: "nat \<Rightarrow> 'a memst_scheme \<Rightarrow> ('a memst_scheme, unit) outcome" where
  "page_unlink p s =
     (case pg_prev (pages s p) of
        None \<Rightarrow> Panic ''kerneltrap''
      | Some q \<Rightarrow>
          let s = upd_page q (\<lambda>g. g\<lparr>pg_next := pg_next (pages s p)\<rparr>) s in
          (case pg_next (pages s p) of
             None \<Rightarrow> Panic ''kerneltrap''
           | Some n \<Rightarrow> Ok () (upd_page n (\<lambda>g. g\<lparr>pg_prev := pg_prev (pages s p)\<rparr>) s)))"

definition lru_remove :: "uint64 \<Rightarrow> 'a memst_scheme \<Rightarrow> ('a memst_scheme, unit) outcome" where
  "lru_remove pa s =
     (let p = page_index pa in
      andThen (acquire L_lru s) (\<lambda>_ s.
      if pg_next (pages s p) = None then release L_lru s
      else
        andThen
          (if pg_next (pages s p) = Some p then Ok () (s\<lparr>lru_head := None\<rparr>)
           else andThen (page_unlink p s) (\<lambda>_ s.
             Ok () (if lru_head s = Some p then s\<lparr>lru_head := pg_next (pages s p)\<rparr> else s)))
          (\<lambda>_ s. release L_lru (upd_page p (\<lambda>g. g\<lparr>pg_next := None, pg_prev := None\<rparr>) s))))"

subsection \<open>The swap area\<close>

definition either_copyout ::
  "bool \<Rightarrow> uint64 \<Rightarrow> byte list \<Rightarrow> 'a memst_scheme \<Rightarrow> ('a memst_scheme, bool) outcome" where
  "either_copyout user_dst dst src s =
     (if user_dst then
        with_myproc s (\<lambda>p.
          let (m, ok) = copyout (mem s) (p_pagetable (proc s ! p)) dst src in Ok ok (s\<lparr>mem := m\<rparr>))
      else Ok True (s\<lparr>mem := mem_write (mem s) dst src\<rparr>))"

definition either_copyin ::
  "bool \<Rightarrow> uint64 \<Rightarrow> nat \<Rightarrow> 'a memst_scheme \<Rightarrow> ('a memst_scheme, byte list \<times> bool) outcome" where
  "either_copyin user_src src len s =
     (if user_src then
        with_myproc s (\<lambda>p. Ok (copyin (mem s) (p_pagetable (proc s ! p)) src len) s)
      else Ok (mem_read (mem s) src len, True) s)"

definition swap_block :: "int \<Rightarrow> nat \<Rightarrow> uint32" where
  "swap_block blkno i = of_int (SWAPBASE + 4 * blkno + int i)"

definition swapread_blk ::
  "uint64 \<Rightarrow> int \<Rightarrow> bool \<Rightarrow> nat \<Rightarrow> 'a memst_scheme \<Rightarrow> ('a memst_scheme, unit) outcome" where
  "swapread_blk ptr blkno user_dst i s =
     andThen (bread 0 (swap_block blkno i) (s\<lparr>nr_sectors_read := nr_sectors_read s + 1\<rparr>)) (\<lambda>b s.
     andThen (either_copyout user_dst (ptr + of_nat (i * BSIZE)) (b_data (bufs s ! b)) s) (\<lambda>ok s.
     if \<not> ok then Panic ''swapread: either_copyout failed'' else brelse b s))"

definition swapread ::
  "uint64 \<Rightarrow> int \<Rightarrow> bool \<Rightarrow> 'a memst_scheme \<Rightarrow> ('a memst_scheme, unit) outcome" where
  "swapread ptr blkno user_dst s =
     (if blkno < 0 \<or> SWAPMAX div 4 \<le> blkno then Panic ''swapread: blkno exceeded range''
      else foreach [0..<4] (swapread_blk ptr blkno user_dst) s)"

definition swapwrite_blk ::
  "uint64 \<Rightarrow> int \<Rightarrow> bool \<Rightarrow> nat \<Rightarrow> 'a memst_scheme \<Rightarrow> ('a memst_scheme, unit) outcome" where
  "swapwrite_blk ptr blkno user_src i s =
     andThen (bread 0 (swap_block blkno i) (s\<lparr>nr_sectors_write := nr_sectors_write s + 1\<rparr>)) (\<lambda>b s.
     andThen (either_copyin user_src (ptr + of_nat (i * BSIZE)) BSIZE s) (\<lambda>(bs, ok) s.
     if \<not> ok then Panic ''swapwrite: either_copyin failed''
     else andThen (bwrite b (set_data b bs s)) (\<lambda>_ s. brelse b s)))"

definition swapwrite ::
  "uint64 \<Rightarrow> int \<Rightarrow> bool \<Rightarrow> 'a memst_scheme \<Rightarrow> ('a memst_scheme, unit) outcome" where
  "swapwrite ptr blkno user_src s =
     (if blkno < 0 \<or> SWAPMAX div 4 \<le> blkno then Panic ''swapwrite: blkno exceeded range''
      else foreach [0..<4] (swapwrite_blk ptr blkno user_src) s)"

subsection \<open>Replacing a page\<close>

text \<open>
  The victim search of \<^verbatim>\<open>swap_out()\<close>, from descriptor \<open>p\<close> on; the result is the victim and the address
  of its page-table entry.
\<close>

fun clock :: "nat \<Rightarrow> nat option \<Rightarrow> 'a memst_scheme \<Rightarrow> ('a memst_scheme, nat \<times> uint64) outcome" where
  "clock 0 p s = Spin"
| "clock (Suc n) None s = Panic ''kerneltrap''"
| "clock (Suc n) (Some i) s =
     (let g = pages s i in
      if MAXVA \<le> pg_vaddr g then Panic ''walk''
      else case walk_lookup (mem s) (pg_pagetable g) (pg_vaddr g) of
        None \<Rightarrow> clock n (pg_next g) s
      | Some a \<Rightarrow>
          let pte = load64 (mem s) a in
          if pte AND PTE_V = 0 then clock n (pg_next g) s
          else if pte AND PTE_A \<noteq> 0
            then clock n (pg_next g) (s\<lparr>mem := store64 (mem s) a (pte AND NOT PTE_A)\<rparr>)
            else Ok (i, a) s)"

abbreviation (input) CLOCK_BOUND :: nat where "CLOCK_BOUND \<equiv> 1114113"

definition swap_pte :: "uint64 \<Rightarrow> nat \<Rightarrow> uint64" where
  "swap_pte pte idx = (((pte AND 0x3FF) OR push_bit 10 (of_nat idx)) AND NOT PTE_V) OR PTE_S"

text \<open>Taking the victim off the list; unlike \<^verbatim>\<open>lru_remove()\<close> this always moves the head behind it.\<close>

definition victim_unlink :: "nat \<Rightarrow> 'a memst_scheme \<Rightarrow> ('a memst_scheme, unit) outcome" where
  "victim_unlink p s =
     andThen
       (if pg_next (pages s p) = Some p then Ok () (s\<lparr>lru_head := None\<rparr>)
        else andThen (page_unlink p s) (\<lambda>_ s. Ok () (s\<lparr>lru_head := pg_next (pages s p)\<rparr>)))
       (\<lambda>_ s. Ok () (upd_page p (\<lambda>g. g\<lparr>pg_next := None, pg_prev := None\<rparr>) s))"

definition alloc_slot :: "'a memst_scheme \<Rightarrow> ('a memst_scheme, nat option) outcome" where
  "alloc_slot s =
     andThen (acquire L_swap s) (\<lambda>_ s.
     case first_index Not (swap_bitmap s) of
       None \<Rightarrow> andThen (release L_swap s) (\<lambda>_ s. Ok None s)
     | Some k \<Rightarrow>
         andThen (release L_swap (s\<lparr>swap_bitmap := (swap_bitmap s)[k := True]\<rparr>)) (\<lambda>_ s. Ok (Some k) s))"

definition swap_out :: "'a memst_scheme \<Rightarrow> ('a memst_scheme, uint64) outcome" where
  "swap_out s =
     andThen (acquire L_lru s) (\<lambda>_ s.
     case lru_head s of
       None \<Rightarrow> andThen (release L_lru s) (\<lambda>_ s. Ok 0 s)
     | Some h \<Rightarrow>
         andThen (clock CLOCK_BOUND (Some h) s) (\<lambda>(p, a) s.
         andThen (alloc_slot s) (\<lambda>slot s.
         case slot of
           None \<Rightarrow> andThen (release L_lru s) (\<lambda>_ s. Ok 0 s)
         | Some k \<Rightarrow>
             andThen (victim_unlink p s) (\<lambda>_ s.
             let pa = of_nat p * PGSIZE;
                 s = s\<lparr>mem := store64 (mem s) a (swap_pte (load64 (mem s) a) k)\<rparr> in
             andThen (release L_lru s) (\<lambda>_ s.
             andThen (swapwrite pa (int k) False s) (\<lambda>_ s. Ok pa s))))))"

definition kalloc :: "'a memst_scheme \<Rightarrow> ('a memst_scheme, uint64) outcome" where
  "kalloc s =
     andThen (acquire L_kmem s) (\<lambda>_ s.
     let r = freelist s;
         s = (if r \<noteq> 0 then s\<lparr>freelist := load64 (mem s) r\<rparr> else s) in
     andThen (release L_kmem s) (\<lambda>_ s.
     andThen (if r = 0 then swap_out s else Ok r s) (\<lambda>r s.
     if r = 0 then Ok 0 s else Ok r (s\<lparr>mem := memset (mem s) r 5 4096\<rparr>))))"

declare freerange_loop.simps [simp del]

section \<open>The free list is a stack of pages\<close>

fun kmem_chain :: "memory \<Rightarrow> uint64 \<Rightarrow> uint64 list \<Rightarrow> bool" where
  "kmem_chain m p [] \<longleftrightarrow> p = 0"
| "kmem_chain m p (x # xs) \<longleftrightarrow> p = x \<and> kmem_chain m (load64 m x) xs"

definition frame_ok :: "'a memst_scheme \<Rightarrow> uint64 \<Rightarrow> bool" where
  "frame_ok s pa \<longleftrightarrow> page_aligned pa \<and> kernel_end s \<le> pa \<and> pa < PHYSTOP \<and> pa \<noteq> 0"

definition kmem_ok :: "'a memst_scheme \<Rightarrow> uint64 list \<Rightarrow> bool" where
  "kmem_ok s fs \<longleftrightarrow> kmem_chain (mem s) (freelist s) fs \<and> distinct fs \<and> (\<forall>x \<in> set fs. frame_ok s x)"

text \<open>Only the page \<open>pa\<close> of memory, the list head and nothing else of the state differ.\<close>

definition page_frame :: "uint64 \<Rightarrow> 'a memst_scheme \<Rightarrow> 'a memst_scheme \<Rightarrow> bool" where
  "page_frame pa s t \<longleftrightarrow> (\<exists>m f. t = s\<lparr>mem := m, freelist := f\<rparr>) \<and>
     (\<forall>x. PGROUNDDOWN x \<noteq> pa \<longrightarrow> mem t x = mem s x)"

lemma frame_ok_mod: "frame_ok s pa \<Longrightarrow> pa mod PGSIZE = 0"
  by (simp add: frame_ok_def page_aligned_def)

lemma load64_page: "page_aligned p \<Longrightarrow> load64 m p = load64 m (slot p 0)"
  by simp

lemma free_chain_cong:
  assumes "kmem_chain m p fs" and "\<And>x. x \<in> set fs \<Longrightarrow> load64 m' x = load64 m x"
  shows "kmem_chain m' p fs"
  using assms by (induction fs arbitrary: p) auto

lemma load64_other_page:
  assumes "page_aligned p" and "page_aligned q" and "p \<noteq> q" and "\<And>x. PGROUNDDOWN x \<noteq> q \<Longrightarrow> m' x = m x"
  shows "load64 m' p = load64 m p"
  using load64_page_cong [OF assms(1), of 0 m' m] assms(3,4) by simp

lemma memset_page:
  "page_aligned p \<Longrightarrow> memset m p c 4096 x = (if PGROUNDDOWN x = p then c else m x)"
  by (simp add: memset_eq mem_set_page)

lemma store64_page_start:
  assumes "page_aligned p" and "PGROUNDDOWN x \<noteq> p"
  shows "store64 m p v x = m x"
  using store64_other_page [OF assms(1), of 0 x m v] assms(2) by simp

lemma kfree_eq:
  assumes "frame_ok s pa" and "L_kmem \<notin> set (held s)"
  shows "kfree pa s =
    Ok () (s\<lparr>mem := store64 (memset (mem s) pa 1 4096) pa (freelist s), freelist := pa\<rparr>)"
  using assms by (auto simp: kfree_def frame_ok_def page_aligned_def not_less)

lemma kfree_runs:
  assumes "kmem_ok s fs" and "frame_ok s pa" and "pa \<notin> set fs" and "L_kmem \<notin> set (held s)"
  shows "runs (kfree pa s) (\<lambda>_ t. kmem_ok t (pa # fs) \<and> page_frame pa s t)"
proof -
  let ?m = "store64 (memset (mem s) pa 1 4096) pa (freelist s)"
  let ?t = "s\<lparr>mem := ?m, freelist := pa\<rparr>"
  have pa: "page_aligned pa"
    using assms(2) by (simp add: frame_ok_def)
  have other: "?m x = mem s x" if "PGROUNDDOWN x \<noteq> pa" for x
    using that pa by (simp add: store64_page_start memset_page)
  have "kmem_chain ?m (freelist s) fs"
  proof (rule free_chain_cong)
    show "kmem_chain (mem s) (freelist s) fs"
      using assms(1) by (simp add: kmem_ok_def)
    fix x assume "x \<in> set fs"
    then have "page_aligned x" and "x \<noteq> pa"
      using assms(1,3) by (auto simp: kmem_ok_def frame_ok_def)
    then show "load64 ?m x = load64 (mem s) x"
      using pa other by (intro load64_other_page) auto
  qed
  then have "kmem_ok ?t (pa # fs)"
    using assms by (auto simp: kmem_ok_def frame_ok_def)
  moreover have "page_frame pa s ?t"
    using other unfolding page_frame_def by auto
  ultimately show ?thesis
    using kfree_eq [OF assms(2,4)] by simp
qed

lemma kalloc_pop_eq:
  assumes "kmem_ok s (pa # fs)" and "L_kmem \<notin> set (held s)"
  shows "kalloc s = Ok pa (s\<lparr>mem := memset (mem s) pa 5 4096, freelist := load64 (mem s) pa\<rparr>)"
proof -
  have "freelist s = pa" and "pa \<noteq> 0"
    using assms(1) by (auto simp: kmem_ok_def frame_ok_def)
  then show ?thesis
    using assms(2) by (simp add: kalloc_def Let_def)
qed

lemma kalloc_pop_runs:
  assumes "kmem_ok s (pa # fs)" and "L_kmem \<notin> set (held s)"
  shows "runs (kalloc s) (\<lambda>r t. r = pa \<and> kmem_ok t fs \<and> page_frame pa s t \<and>
    (\<forall>x. PGROUNDDOWN x = pa \<longrightarrow> mem t x = 5))"
proof -
  let ?m = "memset (mem s) pa 5 4096"
  let ?t = "s\<lparr>mem := ?m, freelist := load64 (mem s) pa\<rparr>"
  have pa: "page_aligned pa" and chain: "kmem_chain (mem s) (load64 (mem s) pa) fs"
    and d: "distinct (pa # fs)" and ok: "\<forall>x \<in> set fs. frame_ok s x"
    using assms(1) by (auto simp: kmem_ok_def frame_ok_def)
  have "kmem_chain ?m (load64 (mem s) pa) fs"
  proof (rule free_chain_cong [OF chain])
    fix x assume "x \<in> set fs"
    then have "page_aligned x" and "x \<noteq> pa"
      using ok d by (auto simp: frame_ok_def)
    then show "load64 ?m x = load64 (mem s) x"
      using pa by (intro load64_other_page) (auto simp: memset_page)
  qed
  then have "kmem_ok ?t fs"
    using d ok by (auto simp: kmem_ok_def frame_ok_def)
  moreover have "page_frame pa s ?t"
    using pa unfolding page_frame_def by (auto simp: memset_page)
  ultimately show ?thesis
    using kalloc_pop_eq [OF assms] pa by (simp add: memset_page)
qed

text \<open>The whole pages of a range, lowest first.\<close>

definition page_range :: "uint64 \<Rightarrow> nat \<Rightarrow> uint64 list" where
  "page_range p n = map (\<lambda>i. p + of_nat i * 4096) [0..<n]"

lemma page_range_Suc: "page_range p (Suc n) = p # page_range (p + 4096) n"
proof -
  have "[0..<Suc n] = 0 # map Suc [0..<n]"
    by (simp add: map_Suc_upt upt_conv_Cons)
  then show ?thesis
    by (simp add: page_range_def algebra_simps)
qed

lemma page_aligned_next: "page_aligned p \<Longrightarrow> unat p + 4096 < 2 ^ 64 \<Longrightarrow> page_aligned (p + 4096)"
  by (simp add: page_aligned_unat unat_plus_if')

lemma freerange_loop_runs:
  assumes "page_aligned p" and "unat p + n * 4096 \<le> unat e" and "unat e < unat p + n * 4096 + 4096"
    and "kernel_end s \<le> p" and "p \<noteq> 0" and "e \<le> PHYSTOP" and "kmem_ok s fs"
    and "\<And>x. x \<in> set fs \<Longrightarrow> x < p" and "L_kmem \<notin> set (held s)"
  shows "runs (freerange_loop p e s) (\<lambda>_ t. kmem_ok t (rev (page_range p n) @ fs) \<and>
    (\<exists>m f. t = s\<lparr>mem := m, freelist := f\<rparr>))"
  using assms
proof (induction n arbitrary: p s fs)
  case 0
  have e: "unat e \<le> 0x88000000"
    using "0.prems"(6) by (simp add: word_le_nat_alt)
  then have "unat (p + 4096) = unat p + 4096"
    using "0.prems"(2) by (subst unat_plus_if') simp
  then have "\<not> p + 4096 \<le> e"
    using "0.prems"(3) by (simp add: word_le_nat_alt)
  moreover have "\<exists>m f. s = s\<lparr>mem := m, freelist := f\<rparr>"
    by (rule exI [of _ "mem s"], rule exI [of _ "freelist s"]) simp
  ultimately show ?case
    using "0.prems"(7) by (subst freerange_loop.simps) (simp add: page_range_def)
next
  case (Suc n)
  have e: "unat e \<le> 0x88000000"
    using Suc.prems(6) by (simp add: word_le_nat_alt)
  then have next_p: "unat (p + 4096) = unat p + 4096"
    using Suc.prems(2) by (subst unat_plus_if') simp
  have le: "p + 4096 \<le> e"
    using Suc.prems(2) next_p by (simp add: word_le_nat_alt)
  have lt: "p < PHYSTOP"
    using Suc.prems(2) e by (simp add: word_less_nat_alt)
  have pp: "p < p + 4096"
    using next_p by (simp add: word_less_nat_alt)
  have "frame_ok s p"
    using Suc.prems(1,4,5) lt by (simp add: frame_ok_def)
  moreover have "p \<notin> set fs"
    using Suc.prems(8) by auto
  ultimately have free: "runs (kfree p s) (\<lambda>_ t. kmem_ok t (p # fs) \<and> page_frame p s t)"
    using Suc.prems(7,9) by (intro kfree_runs)
  have step: "runs (freerange_loop (p + 4096) e t) (\<lambda>_ u. kmem_ok u (rev (page_range p (Suc n)) @ fs) \<and>
      (\<exists>m f. u = s\<lparr>mem := m, freelist := f\<rparr>))"
    if t: "kmem_ok t (p # fs)" "page_frame p s t" for t
  proof -
    obtain m f where tm: "t = s\<lparr>mem := m, freelist := f\<rparr>"
      using t(2) by (auto simp: page_frame_def)
    have "runs (freerange_loop (p + 4096) e t) (\<lambda>_ u. kmem_ok u (rev (page_range (p + 4096) n) @ p # fs) \<and>
        (\<exists>m f. u = t\<lparr>mem := m, freelist := f\<rparr>))"
    proof (rule Suc.IH)
      show "page_aligned (p + 4096)"
        using Suc.prems(1,2) e by (intro page_aligned_next) auto
      show "x < p + 4096" if "x \<in> set (p # fs)" for x
        using that Suc.prems(8) [of x] pp by (auto intro: order.strict_trans)
      show "kernel_end t \<le> p + 4096"
        using Suc.prems(4) pp tm by simp
      show "p + 4096 \<noteq> 0"
        using next_p by (metis add_is_0 unsigned_0 zero_neq_numeral)
      show "unat (p + 4096) + n * 4096 \<le> unat e" "unat e < unat (p + 4096) + n * 4096 + 4096"
        using Suc.prems(2,3) next_p by simp_all
      show "L_kmem \<notin> set (held t)"
        using Suc.prems(9) tm by simp
    qed (use Suc.prems(6) t(1) in auto)
    then show ?thesis
      by (rule runs_mono) (auto simp: page_range_Suc tm)
  qed
  have "freerange_loop p e s = andThen (kfree p s) (\<lambda>_ s. freerange_loop (p + 4096) e s)"
    using le by (subst freerange_loop.simps) simp
  then show ?case
    unfolding runs_andThen by (simp only:, simp only: runs_andThen) (rule runs_mono [OF free], use step in blast)
qed

lemma page_alignedE:
  assumes "page_aligned p"
  obtains a where "unat p = 4096 * a"
proof
  show "unat p = 4096 * (unat p div 4096)"
    using assms mult_div_mod_eq [of 4096 "unat p"] by (simp add: page_aligned_unat)
qed

lemma round_le:
  fixes a b k :: nat
  assumes "k \<le> 4096 * a" and "4096 * a < k + 4096"
  shows "4096 * a \<le> 4096 * b \<longleftrightarrow> k \<le> 4096 * b"
proof
  assume "k \<le> 4096 * b"
  then have "4096 * a < 4096 * Suc b"
    using assms(2) by simp
  then have "a < Suc b"
    by (simp only: mult_less_cancel1)
  then show "4096 * a \<le> 4096 * b"
    by simp
qed (use assms(1) in simp)

lemma page_range_iff:
  assumes "page_aligned p" and "unat p + n * 4096 < 2 ^ 64"
  shows "x \<in> set (page_range p n) \<longleftrightarrow> page_aligned x \<and> unat p \<le> unat x \<and> unat x < unat p + n * 4096"
proof
  assume "x \<in> set (page_range p n)"
  then obtain i where i: "i < n" "x = p + of_nat i * 4096"
    by (auto simp: page_range_def)
  have "unat (of_nat i * 4096 :: uint64) = i * 4096"
    using i(1) assms(2) by (simp add: unat_word_ariths unat_of_nat)
  then have "unat x = unat p + i * 4096"
    using i assms(2) by (simp add: unat_plus_if')
  then show "page_aligned x \<and> unat p \<le> unat x \<and> unat x < unat p + n * 4096"
    using assms(1) i(1) by (simp add: page_aligned_unat)
next
  assume x: "page_aligned x \<and> unat p \<le> unat x \<and> unat x < unat p + n * 4096"
  obtain a where a: "unat p = 4096 * a"
    using assms(1) by (rule page_alignedE)
  obtain b where b: "unat x = 4096 * b"
    using x by (blast elim: page_alignedE)
  define i where "i = b - a"
  have i: "i < n" and eq: "unat x = unat p + i * 4096"
    using x a b by (auto simp: i_def algebra_simps)
  have "x = of_nat (unat x)"
    by simp
  also have "\<dots> = p + of_nat i * 4096"
    unfolding eq by simp
  finally show "x \<in> set (page_range p n)"
    using i by (auto simp: page_range_def)
qed

text \<open>After \<^verbatim>\<open>kinit()\<close> the free list holds every whole page between the kernel's end and \<^verbatim>\<open>PHYSTOP\<close>, once.\<close>

lemma kinit_runs:
  assumes "freelist s = 0" and "0 < kernel_end s" and "kernel_end s \<le> PHYSTOP" and "L_kmem \<notin> set (held s)"
  shows "runs (kinit s) (\<lambda>_ t. \<exists>fs. kmem_ok t fs \<and> lru_head t = None \<and>
    swap_bitmap t = replicate SWAPSLOTS False \<and> (\<forall>x. x \<in> set fs \<longleftrightarrow> frame_ok s x))"
proof -
  let ?s = "lru_init s"
  let ?p = "PGROUNDUP (kernel_end s)"
  let ?n = "(0x88000000 - unat ?p) div 4096"
  have ke: "unat (kernel_end s) \<le> 0x88000000" "0 < unat (kernel_end s)"
    using assms(2,3) by (simp_all add: word_le_nat_alt word_less_nat_alt)
  then have up: "unat ?p = (unat (kernel_end s) + 4095) div 4096 * 4096"
    by (intro unat_PGROUNDUP) simp
  have p: "unat ?p \<le> 0x88000000" "unat (kernel_end s) \<le> unat ?p" "unat ?p < unat (kernel_end s) + 4096"
    unfolding up using ke by auto
  have tot: "unat ?p + ?n * 4096 = 0x88000000"
    using p(1) unfolding up by simp
  have same: "frame_ok ?s x = frame_ok s x" for x
    by (simp add: lru_init_def frame_ok_def)
  have run: "runs (freerange_loop ?p PHYSTOP ?s) (\<lambda>_ t. kmem_ok t (rev (page_range ?p ?n) @ []) \<and>
      (\<exists>m f. t = ?s\<lparr>mem := m, freelist := f\<rparr>))"
  proof (rule freerange_loop_runs)
    show "?p \<noteq> 0"
      using p(2) ke(2) by (auto simp: word_unat_eq_iff)
    show "kernel_end ?s \<le> ?p"
      using p(2) by (simp add: lru_init_def word_le_nat_alt)
  qed (use tot assms in \<open>auto simp: kmem_ok_def lru_init_def\<close>)
  have range: "x \<in> set (page_range ?p ?n) \<longleftrightarrow> frame_ok s x" for x
  proof -
    have "x \<in> set (page_range ?p ?n) \<longleftrightarrow> page_aligned x \<and> unat ?p \<le> unat x \<and> unat x < 0x88000000"
      using page_range_iff [of ?p ?n x] tot by simp
    also have "\<dots> \<longleftrightarrow> frame_ok s x"
    proof -
      have "unat ?p \<le> unat x \<longleftrightarrow> unat (kernel_end s) \<le> unat x" if al: "page_aligned x"
      proof -
        obtain a where "unat ?p = 4096 * a"
          using PGROUNDUP_aligned by (rule page_alignedE)
        moreover obtain b where "unat x = 4096 * b"
          using al by (rule page_alignedE)
        ultimately show ?thesis
          using p(2,3) round_le [of "unat (kernel_end s)" a b] by simp
      qed
      moreover have "unat (kernel_end s) \<le> unat x \<Longrightarrow> x \<noteq> 0"
        using ke(2) by auto
      ultimately show ?thesis
        by (auto simp: frame_ok_def word_le_nat_alt word_less_nat_alt)
    qed
    finally show ?thesis .
  qed
  have "kinit s = freerange_loop ?p PHYSTOP ?s"
    by (simp add: kinit_def freerange_def lru_init_def)
  then show ?thesis
    using run
  proof (simp only:, elim runs_mono conjE exE)
    fix t m f
    assume "kmem_ok t (rev (page_range ?p ?n) @ [])" and "t = ?s\<lparr>mem := m, freelist := f\<rparr>"
    then show "\<exists>fs. kmem_ok t fs \<and> lru_head t = None \<and> swap_bitmap t = replicate SWAPSLOTS False \<and>
        (\<forall>x. x \<in> set fs \<longleftrightarrow> frame_ok s x)"
      by (intro exI [of _ "rev (page_range ?p ?n)"]) (simp add: range lru_init_def)
  qed
qed

section \<open>A machine with its memory set up\<close>

definition no_page :: page where
  "no_page = \<lparr>pg_next = None, pg_prev = None, pg_pagetable = 0, pg_vaddr = 0\<rparr>"

definition mem_boot :: "memory \<Rightarrow> uint64 \<Rightarrow> (nat \<Rightarrow> page) \<Rightarrow> nat option \<Rightarrow> uint64 \<Rightarrow> 'a \<Rightarrow> 'a memst_scheme" where
  "mem_boot m f ps h e z = bio_boot (memst_ext m f ps h (replicate SWAPSLOTS False) e 0 0 z)"

lemma mem_boot_fields [simp]:
  "mem (mem_boot m f ps h e z) = m" "freelist (mem_boot m f ps h e z) = f" "pages (mem_boot m f ps h e z) = ps"
  "lru_head (mem_boot m f ps h e z) = h" "kernel_end (mem_boot m f ps h e z) = e"
  "swap_bitmap (mem_boot m f ps h e z) = replicate SWAPSLOTS False" "held (mem_boot m f ps h e z) = []"
  "nr_sectors_read (mem_boot m f ps h e z) = 0" "nr_sectors_write (mem_boot m f ps h e z) = 0"
  "memst.more (mem_boot m f ps h e z) = z"
proof -
  let ?z = "memst_ext m f ps h (replicate SWAPSLOTS False) e 0 0 z"
  note fr = bio_boot_frame [where z = ?z and x = "\<lambda>_. \<lparr>sl_locked = False, sl_pid = 0\<rparr>" and y = "[]",
      folded mem_boot_def]
  show "mem (mem_boot m f ps h e z) = m" "freelist (mem_boot m f ps h e z) = f" "pages (mem_boot m f ps h e z) = ps"
    "lru_head (mem_boot m f ps h e z) = h" "kernel_end (mem_boot m f ps h e z) = e"
    "swap_bitmap (mem_boot m f ps h e z) = replicate SWAPSLOTS False" "held (mem_boot m f ps h e z) = []"
    "nr_sectors_read (mem_boot m f ps h e z) = 0" "nr_sectors_write (mem_boot m f ps h e z) = 0"
    "memst.more (mem_boot m f ps h e z) = z"
    using arg_cong [OF fr, of mem] arg_cong [OF fr, of freelist] arg_cong [OF fr, of pages]
      arg_cong [OF fr, of lru_head] arg_cong [OF fr, of kernel_end] arg_cong [OF fr, of swap_bitmap]
      arg_cong [OF fr, of held] arg_cong [OF fr, of nr_sectors_read] arg_cong [OF fr, of nr_sectors_write]
      arg_cong [OF fr, of memst.more]
    by (simp_all add: bio_blank_def)
qed

section \<open>Properties\<close>

text \<open>
  C27. After \<^verbatim>\<open>kinit()\<close> the free list holds every whole page between the end of the kernel and \<^verbatim>\<open>PHYSTOP\<close>, each exactly
  once and nothing else; the list of replaceable pages is empty and every swap slot is free.
\<close>

theorem kinit_frees_every_frame:
  assumes "freelist s = 0" and "0 < kernel_end s" and "kernel_end s \<le> PHYSTOP" and "L_kmem \<notin> set (held s)"
  shows "\<exists>t fs. kinit s = Ok () t \<and> kmem_ok t fs \<and> (\<forall>x. x \<in> set fs \<longleftrightarrow> frame_ok s x) \<and> lru_head t = None \<and>
    swap_bitmap t = replicate SWAPSLOTS False"
  using kinit_runs [OF assms] by (auto simp: runs_iff)

theorem kinit_frees_every_frame_witness:
  "\<exists>t fs. kinit (mem_boot (\<lambda>_. 0) 0 (\<lambda>_. no_page) None 0x87FFD001 () :: memst) = Ok () t \<and> kmem_ok t fs \<and>
     0x87FFE000 \<in> set fs \<and> 0x87FFD000 \<notin> set fs"
proof -
  let ?s = "mem_boot (\<lambda>_. 0) 0 (\<lambda>_. no_page) None 0x87FFD001 () :: memst"
  obtain t fs where t: "kinit ?s = Ok () t" "kmem_ok t fs" "\<And>x. x \<in> set fs \<longleftrightarrow> frame_ok ?s x"
    using kinit_frees_every_frame [of ?s] by auto
  have "frame_ok ?s 0x87FFE000" "\<not> frame_ok ?s 0x87FFD000"
    by (simp_all add: frame_ok_def page_aligned_def)
  then show ?thesis
    using t by blast
qed

text \<open>
  C28. A page given to \<^verbatim>\<open>kfree()\<close> is the next one \<^verbatim>\<open>kalloc()\<close> returns, filled with the pattern 5; the list is as before, and no byte
  outside that page has changed.
\<close>

theorem kfree_kalloc_lifo:
  assumes "kmem_ok s fs" and "frame_ok s pa" and "pa \<notin> set fs" and "L_kmem \<notin> set (held s)"
  shows "\<exists>t u. kfree pa s = Ok () t \<and> kmem_ok t (pa # fs) \<and> kalloc t = Ok pa u \<and> kmem_ok u fs \<and>
    (\<forall>x. mem u x = (if PGROUNDDOWN x = pa then 5 else mem s x))"
proof -
  obtain t where t: "kfree pa s = Ok () t" "kmem_ok t (pa # fs)" "page_frame pa s t"
    using kfree_runs [OF assms] by (auto simp: runs_iff)
  have "held t = held s"
    using t(3) by (auto simp: page_frame_def)
  then have "runs (kalloc t) (\<lambda>r u. r = pa \<and> kmem_ok u fs \<and> page_frame pa t u \<and> (\<forall>x. PGROUNDDOWN x = pa \<longrightarrow> mem u x = 5))"
    using kalloc_pop_runs [OF t(2)] assms(4) by simp
  then obtain u where u: "kalloc t = Ok pa u" "kmem_ok u fs" "page_frame pa t u" "\<forall>x. PGROUNDDOWN x = pa \<longrightarrow> mem u x = 5"
    by (auto simp: runs_iff)
  have "mem u x = mem s x" if "PGROUNDDOWN x \<noteq> pa" for x
    using t(3) u(3) that by (simp add: page_frame_def)
  then show ?thesis
    using t u by auto
qed

theorem kfree_kalloc_lifo_witness:
  "\<exists>t u. kfree 0x80005000 (mem_boot (\<lambda>_. 0) 0 (\<lambda>_. no_page) None 0x80000000 () :: memst) = Ok () t \<and> kalloc t = Ok 0x80005000 u \<and>
     mem u 0x80005008 = 5 \<and> mem u 0x80006000 = 0"
proof -
  let ?s = "mem_boot (\<lambda>_. 0) 0 (\<lambda>_. no_page) None 0x80000000 () :: memst"
  have "kmem_ok ?s []" "frame_ok ?s 0x80005000"
    by (simp_all add: kmem_ok_def frame_ok_def page_aligned_def)
  then obtain t u where "kfree 0x80005000 ?s = Ok () t" "kalloc t = Ok 0x80005000 u"
    "\<forall>x. mem u x = (if PGROUNDDOWN x = 0x80005000 then 5 else 0)"
    using kfree_kalloc_lifo [of ?s "[]" "0x80005000"] by auto
  moreover have "PGROUNDDOWN 0x80005008 = 0x80005000" "PGROUNDDOWN 0x80006000 = 0x80006000"
    by (simp_all add: PGROUNDDOWN_def)
  ultimately show ?thesis
    by simp
qed

end
