(* ===== verification/Lru.thy ===== *)
theory Lru
  imports Kalloc
begin

text \<open>
  The list of replaceable pages (\<^verbatim>\<open>lru_add()\<close>, \<^verbatim>\<open>lru_remove()\<close>) and the victim search of \<^verbatim>\<open>swap_out()\<close>
  (\<^verbatim>\<open>kernel/kalloc.c\<close>) against lists: the descriptors linked from \<^verbatim>\<open>lru_head\<close> are a list of page
  numbers, adding appends to it, removing deletes from it.  The victim search is the
  second-chance algorithm: the first page in list order whose entry is valid and not
  accessed; where all valid ones were accessed, the first valid one; and the pages passed over
  lose their accessed bit.  It ends if and only if some page of the list has a valid entry.
\<close>

section \<open>The ring of page descriptors\<close>

definition pnext :: "'a memst_scheme \<Rightarrow> nat option \<Rightarrow> nat option" where
  "pnext s p = (case p of None \<Rightarrow> None | Some i \<Rightarrow> pg_next (pages s i))"

definition pprev :: "'a memst_scheme \<Rightarrow> nat option \<Rightarrow> nat option" where
  "pprev s p = (case p of None \<Rightarrow> None | Some i \<Rightarrow> pg_prev (pages s i))"

definition lru_list :: "'a memst_scheme \<Rightarrow> nat list \<Rightarrow> bool" where
  "lru_list s xs \<longleftrightarrow> ring (pnext s) (pprev s) (map Some xs) \<and>
     lru_head s = (case xs of [] \<Rightarrow> None | x # _ \<Rightarrow> Some x) \<and>
     (\<forall>i. i \<notin> set xs \<longrightarrow> pg_next (pages s i) = None)"

lemma pnext_simps [simp]:
  "pnext s (Some i) = pg_next (pages s i)" "pprev s (Some i) = pg_prev (pages s i)"
  by (simp_all add: pnext_def pprev_def)

lemma upd_page_simps [simp]:
  "held (upd_page i f s) = held s" "mem (upd_page i f s) = mem s" "lru_head (upd_page i f s) = lru_head s"
  "pages (upd_page i f s) i = f (pages s i)" "j \<noteq> i \<Longrightarrow> pages (upd_page i f s) j = pages s j"
  by (simp_all add: upd_page_def)

lemma pnext_upd:
  "pnext (upd_page i f s) = (pnext s)(Some i := pg_next (f (pages s i)))"
  "pprev (upd_page i f s) = (pprev s)(Some i := pg_prev (f (pages s i)))"
  by (auto simp: pnext_def pprev_def upd_page_def fun_eq_iff split: option.split)

lemma pnext_frame:
  "pages t = pages s \<Longrightarrow> pnext t = pnext s" "pages t = pages s \<Longrightarrow> pprev t = pprev s"
  by (auto simp: pnext_def pprev_def fun_eq_iff split: option.split)

lemma lru_list_cong: "pages t = pages s \<Longrightarrow> lru_head t = lru_head s \<Longrightarrow> lru_list t xs = lru_list s xs"
  by (simp add: lru_list_def pnext_def [abs_def] pprev_def [abs_def])

lemma lru_list_distinct: "lru_list s xs \<Longrightarrow> distinct xs"
  by (auto simp: lru_list_def ring_def distinct_map)

lemma lru_list_ring:
  assumes "lru_list s (h # xs)"
  shows "ring (pnext s) (pprev s) (Some h # map Some xs)" and "lru_head s = Some h"
  using assms by (simp_all add: lru_list_def)

lemma ring_member:
  assumes "ring nx pv ps" and "p \<in> set ps"
  shows "nx p \<in> set ps" and "pv p \<in> set ps"
proof -
  obtain us vs where ps: "ps = us @ p # vs"
    using assms(2) by (meson split_list)
  then have "ring nx pv (p # vs @ us)"
    using assms(1) ring_rotate [of nx pv us p vs] by simp
  then have l: "linked nx pv p (vs @ us) p"
    by (simp add: ring_Cons)
  show "nx p \<in> set ps" and "pv p \<in> set ps"
    using linked_next [OF l] linked_prev [OF l] hd_in_set [of "(vs @ us) @ [p]"] last_in_set [of "p # vs @ us"]
    unfolding ps by auto
qed

lemma lru_list_links:
  assumes "lru_list s xs" and "i \<in> set xs"
  shows "\<exists>n\<in>set xs. pg_next (pages s i) = Some n" and "\<exists>q\<in>set xs. pg_prev (pages s i) = Some q"
  using ring_member [of "pnext s" "pprev s" "map Some xs" "Some i"] assms
  by (auto simp: lru_list_def)

lemma lru_list_mem: "lru_list s xs \<Longrightarrow> pg_next (pages s i) = None \<longleftrightarrow> i \<notin> set xs"
  using lru_list_links(1) [of s xs i] by (auto simp: lru_list_def)

subsection \<open>Adding and removing\<close>

text \<open>Nothing but links of descriptors and the head may change.\<close>

definition lru_erase :: "'a memst_scheme \<Rightarrow> 'a memst_scheme" where
  "lru_erase s = s\<lparr>pages := (\<lambda>i. (pages s i)\<lparr>pg_next := None, pg_prev := None\<rparr>), lru_head := None\<rparr>"

definition lru_frame :: "'a memst_scheme \<Rightarrow> 'a memst_scheme \<Rightarrow> bool" where
  "lru_frame s t \<longleftrightarrow> lru_erase t = lru_erase s"

lemma lru_frame_refl [simp]: "lru_frame s s"
  by (simp add: lru_frame_def)

lemma lru_frame_head [simp]: "lru_frame s (t\<lparr>lru_head := h\<rparr>) = lru_frame s t"
  by (simp add: lru_frame_def lru_erase_def)

lemma lru_frame_upd [simp]:
  assumes "\<And>g. (f g)\<lparr>pg_next := None, pg_prev := None\<rparr> = g\<lparr>pg_next := None, pg_prev := None\<rparr>"
  shows "lru_frame s (upd_page i f t) = lru_frame s t"
proof -
  have "lru_erase (upd_page i f t) = lru_erase t"
    using assms by (auto simp: lru_erase_def upd_page_def fun_eq_iff intro!: arg_cong [where f = "\<lambda>p. t\<lparr>pages := p, lru_head := None\<rparr>"])
  then show ?thesis
    by (simp add: lru_frame_def)
qed

lemma lru_frame_held:
  assumes "lru_frame (s\<lparr>held := h\<rparr>) u"
  shows "lru_frame s (u\<lparr>held := held s\<rparr>)"
proof -
  have comm: "lru_erase (x\<lparr>held := k\<rparr>) = (lru_erase x)\<lparr>held := k\<rparr>" for x :: "'a memst_scheme" and k
    by (simp add: lru_erase_def)
  have "(lru_erase u)\<lparr>held := held s\<rparr> = (lru_erase s)\<lparr>held := h, held := held s\<rparr>"
    using assms by (simp add: lru_frame_def comm)
  also have "\<dots> = lru_erase s"
    by (simp add: lru_erase_def)
  finally show ?thesis
    by (simp add: lru_frame_def comm)
qed

lemma lru_frameD:
  assumes "lru_frame s t"
  shows "t = s\<lparr>pages := pages t, lru_head := lru_head t\<rparr>"
    and "pg_pagetable (pages t i) = pg_pagetable (pages s i)" and "pg_vaddr (pages t i) = pg_vaddr (pages s i)"
proof -
  have eq: "lru_erase t = lru_erase s"
    using assms by (simp add: lru_frame_def)
  show "t = s\<lparr>pages := pages t, lru_head := lru_head t\<rparr>"
    using eq by (cases s, cases t) (simp add: lru_erase_def)
  have "pages (lru_erase t) i = pages (lru_erase s) i"
    using eq by simp
  then have "(pages t i)\<lparr>pg_next := None, pg_prev := None\<rparr> = (pages s i)\<lparr>pg_next := None, pg_prev := None\<rparr>"
    by (simp add: lru_erase_def)
  then show "pg_pagetable (pages t i) = pg_pagetable (pages s i)" and "pg_vaddr (pages t i) = pg_vaddr (pages s i)"
    by (cases "pages t i", cases "pages s i", simp)+
qed

lemma lru_add_runs:
  assumes l: "lru_list s xs" and p: "page_index pa \<notin> set xs" and lk: "L_lru \<notin> set (held s)"
  shows "runs (lru_add pa s) (\<lambda>_ t. lru_list t (xs @ [page_index pa]) \<and> lru_frame s t)"
proof (cases xs)
  case Nil
  let ?p = "page_index pa"
  let ?t = "upd_page ?p (\<lambda>g. g\<lparr>pg_next := Some ?p, pg_prev := Some ?p\<rparr>) (s\<lparr>lru_head := Some ?p\<rparr>)"
  have "lru_head s = None" and none: "\<And>i. pg_next (pages s i) = None"
    using l Nil by (auto simp: lru_list_def)
  then have "lru_add pa s = Ok () ?t"
    using lk by (simp add: lru_add_def Let_def upd_page_def)
  moreover have "lru_list ?t [?p]"
    using none by (simp add: lru_list_def ring_single pnext_upd upd_page_def)
  moreover have "lru_frame s ?t"
    by simp
  ultimately show ?thesis
    using Nil by simp
next
  case (Cons h ys)
  let ?p = "page_index pa"
  note r = lru_list_ring [OF l [unfolded Cons]]
  obtain t where t: "pg_prev (pages s h) = Some t" and tx: "t \<in> set xs"
    using lru_list_links(2) [OF l, of h] Cons by auto
  have pt: "?p \<noteq> t" and ph: "?p \<noteq> h"
    using p tx Cons by auto
  define u where "u = upd_page h (\<lambda>g. g\<lparr>pg_prev := Some ?p\<rparr>)
    (upd_page t (\<lambda>g. g\<lparr>pg_next := Some ?p\<rparr>)
      (upd_page ?p (\<lambda>g. g\<lparr>pg_next := Some h, pg_prev := Some t\<rparr>) s))"
  have "lru_add pa s = Ok () u"
    using lk r(2) t by (simp add: lru_add_def Let_def u_def upd_page_def)
  moreover have "pnext u = (pnext s)(Some ?p := Some h, pprev s (Some h) := Some ?p)"
    and "pprev u = (pprev s)(Some ?p := pprev s (Some h), Some h := Some ?p)"
    using t pt ph by (auto simp: u_def pnext_upd fun_eq_iff)
  then have "ring (pnext u) (pprev u) (Some h # map Some ys @ [Some ?p])"
    using ring_append [OF r(1), of "Some ?p"] p Cons by auto
  moreover have "pg_next (pages u i) = None" if "i \<notin> set (xs @ [?p])" for i
  proof -
    have "i \<noteq> h" "i \<noteq> t" "i \<noteq> ?p"
      using that tx Cons by auto
    then show ?thesis
      using l that by (simp add: u_def lru_list_def)
  qed
  ultimately have "runs (lru_add pa s) (\<lambda>_ v. v = u)" and "lru_list u (xs @ [?p])"
    using r(2) Cons by (auto simp: lru_list_def u_def)
  moreover have "lru_frame s u"
    by (simp add: u_def)
  ultimately show ?thesis
    by (auto elim!: runs_mono)
qed

lemma page_unlink_runs:
  assumes r: "ring (pnext s) (pprev s) (Some p # Some y # zs)"
  shows "\<exists>u. page_unlink p s = Ok () u \<and> ring (pnext u) (pprev u) (Some y # zs) \<and>
    pg_next (pages u p) = Some y \<and> lru_frame s u \<and> lru_head u = lru_head s \<and> held u = held s \<and>
    (\<forall>i. Some i \<notin> set (Some p # Some y # zs) \<longrightarrow> pages u i = pages s i)"
proof -
  have l: "linked (pnext s) (pprev s) (Some p) (Some y # zs) (Some p)" and d: "distinct (Some p # Some y # zs)"
    using r by (simp_all add: ring_Cons)
  have n: "pg_next (pages s p) = Some y"
    using l by simp
  have "pprev s (Some p) = last (Some p # Some y # zs)"
    using l by (rule linked_prev)
  then have "pg_prev (pages s p) \<in> set (Some y # zs)"
    using last_in_set [of "Some y # zs"] by simp
  moreover have "None \<notin> set (Some y # zs)"
  proof
    assume "None \<in> set (Some y # zs)"
    then have "pnext s None \<in> set (Some p # Some y # zs)" and "None \<in> set (Some p # Some y # zs)"
      using ring_member(1) [OF r, of None] by auto
    then have "None \<in> set (Some p # Some y # zs) \<and> pnext s None = None"
      by (simp add: pnext_def)
    then have "Some p # Some y # zs = [None]"
      using ring_next_self [OF r, of None] by blast
    then show False
      by simp
  qed
  ultimately obtain q where q: "pg_prev (pages s p) = Some q" "Some q \<in> set (Some y # zs)"
    by (metis option.exhaust)
  have qp: "q \<noteq> p" and yp: "y \<noteq> p"
    using q d by auto
  define u where "u = upd_page y (\<lambda>g. g\<lparr>pg_prev := Some q\<rparr>) (upd_page q (\<lambda>g. g\<lparr>pg_next := Some y\<rparr>) s)"
  have "page_unlink p s = Ok () u"
    using q n qp yp by (simp add: page_unlink_def Let_def u_def)
  moreover have "pnext u = (pnext s)(pprev s (Some p) := pnext s (Some p))"
    and "pprev u = (pprev s)(pnext s (Some p) := pprev s (Some p))"
    using q n by (auto simp: u_def pnext_upd fun_eq_iff)
  then have "ring (pnext u) (pprev u) (Some y # zs)"
    using ring_remove [OF r] by simp
  moreover have "pg_next (pages u p) = Some y"
    using n qp yp by (simp add: u_def)
  moreover have "pages u i = pages s i" if "Some i \<notin> set (Some p # Some y # zs)" for i
  proof -
    have "i \<noteq> y" and "i \<noteq> q"
      using that q by auto
    then show ?thesis
      by (simp add: u_def)
  qed
  ultimately show ?thesis
    by (auto simp: u_def)
qed

text \<open>Clearing the links of a node outside the ring.\<close>

lemma ring_clear:
  assumes "ring (pnext u) (pprev u) (map Some xs)" and "p \<notin> set xs"
  defines "v \<equiv> upd_page p (\<lambda>g. g\<lparr>pg_next := None, pg_prev := None\<rparr>) u"
  shows "ring (pnext v) (pprev v) (map Some xs)"
proof (cases xs)
  case (Cons h ys)
  then have "linked (pnext u) (pprev u) (Some h) (map Some ys) (Some h)" and "distinct (map Some xs)"
    using assms(1) by (simp_all add: ring_Cons)
  have e: "pnext v = (pnext u)(Some p := None)" "pprev v = (pprev u)(Some p := None)"
    by (simp_all add: v_def pnext_upd)
  have "linked (pnext v) (pprev v) (Some h) (map Some ys) (Some h)"
  proof (rule linked_cong)
    show "linked (pnext u) (pprev u) (Some h) (map Some ys) (Some h)" by fact
    show "pnext v x = pnext u x" "pprev v x = pprev u x" if "x \<in> insert (Some h) (set (map Some ys))" for x
      using that assms(2) Cons e by auto
  qed
  then show ?thesis
    using \<open>distinct (map Some xs)\<close> Cons by (simp add: ring_Cons)
qed simp

lemma lru_list_rotate:
  assumes "lru_list s (us @ p # vs)"
  shows "ring (pnext s) (pprev s) (Some p # map Some (vs @ us))"
  using ring_rotate [of "pnext s" "pprev s" "map Some us" "Some p" "map Some vs"] assms
  by (simp add: lru_list_def)

text \<open>Taking the victim off the list: the search goes on behind it next time.\<close>

lemma victim_unlink_runs:
  assumes l: "lru_list s (us @ p # vs)"
  shows "runs (victim_unlink p s) (\<lambda>_ t. lru_list t (vs @ us) \<and> lru_frame s t)"
proof -
  note r = lru_list_rotate [OF l]
  have off: "pg_next (pages s i) = None" if "i \<notin> set (us @ p # vs)" for i
    using l that by (simp add: lru_list_def)
  show ?thesis
  proof (cases "vs @ us")
    case Nil
    then have "pg_next (pages s p) = Some p"
      using r by (simp add: ring_Cons)
    then have "victim_unlink p s = Ok () (upd_page p (\<lambda>g. g\<lparr>pg_next := None, pg_prev := None\<rparr>) (s\<lparr>lru_head := None\<rparr>))"
      by (simp add: victim_unlink_def)
    moreover have "pg_next (pages s i) = None" if "i \<noteq> p" for i
      using off [of i] Nil that by simp
    ultimately have "runs (victim_unlink p s) (\<lambda>_ t. lru_frame s t)"
      and "runs (victim_unlink p s) (\<lambda>_ t. lru_list t [])"
      by (simp, simp add: lru_list_def upd_page_def)
    then show ?thesis
      unfolding Nil by (cases "victim_unlink p s") auto
  next
    case (Cons y zs)
    then obtain u where u: "page_unlink p s = Ok () u" "ring (pnext u) (pprev u) (map Some (vs @ us))"
      "pg_next (pages u p) = Some y" "lru_frame s u"
      "\<And>i. Some i \<notin> set (Some p # map Some (vs @ us)) \<Longrightarrow> pages u i = pages s i"
      using page_unlink_runs [of s p y "map Some zs"] r by auto
    have ne: "pg_next (pages s p) \<noteq> Some p"
      using ring_next_self [OF r, of "Some p"] Cons by simp
    define v where "v = upd_page p (\<lambda>g. g\<lparr>pg_next := None, pg_prev := None\<rparr>) (u\<lparr>lru_head := Some y\<rparr>)"
    have "victim_unlink p s = Ok () v"
      using u(1,3) ne by (simp add: victim_unlink_def v_def)
    moreover have "p \<notin> set (vs @ us)"
      using lru_list_distinct [OF l] by simp
    then have "ring (pnext v) (pprev v) (map Some (vs @ us))"
      using ring_clear [of "u\<lparr>lru_head := Some y\<rparr>" "vs @ us" p] u(2)
      by (simp add: v_def pnext_def [abs_def] pprev_def [abs_def])
    moreover have "pg_next (pages v i) = None" if "i \<notin> set (vs @ us)" for i
    proof (cases "i = p")
      case False
      then have "pages u i = pages s i"
        using that by (intro u(5)) auto
      then show ?thesis
        using off [of i] that False by (simp add: v_def)
    qed (simp add: v_def)
    ultimately show ?thesis
      using u(4) Cons by (auto simp: lru_list_def v_def)
  qed
qed

lemma remove1_middle: "p \<notin> set us \<Longrightarrow> remove1 p (us @ p # vs) = us @ vs"
  by (simp add: remove1_append)

lemma lru_remove_runs:
  assumes l: "lru_list s xs" and lk: "L_lru \<notin> set (held s)"
  shows "runs (lru_remove pa s) (\<lambda>_ t. lru_list t (remove1 (page_index pa) xs) \<and> lru_frame s t)"
proof (cases "page_index pa \<in> set xs")
  case False
  then have "lru_remove pa s = Ok () s"
    using lru_list_mem [OF l] lk by (simp add: lru_remove_def Let_def)
  then show ?thesis
    using l False by (simp add: remove1_idem)
next
  case True
  define p where "p = page_index pa"
  obtain us vs where xs: "xs = us @ p # vs" and pu: "p \<notin> set us"
    using True unfolding p_def by (meson split_list_first)
  let ?s = "s\<lparr>held := L_lru # held s\<rparr>"
  have l': "lru_list ?s (us @ p # vs)"
    using l xs lru_list_cong [of ?s s] by simp
  note r = lru_list_rotate [OF l']
  have pv: "p \<notin> set (vs @ us)" and some: "pg_next (pages s p) \<noteq> None"
    using lru_list_distinct [OF l'] lru_list_mem [OF l, of p] xs by auto
  have off: "pg_next (pages s i) = None" if "i \<notin> set (us @ p # vs)" for i
    using l that xs by (simp add: lru_list_def)
  show ?thesis
  proof (cases "vs @ us")
    case Nil
    then have "pg_next (pages s p) = Some p"
      using r by (simp add: ring_Cons)
    then have "lru_remove pa s = Ok () (upd_page p (\<lambda>g. g\<lparr>pg_next := None, pg_prev := None\<rparr>) (s\<lparr>lru_head := None\<rparr>))"
      using lk by (simp add: lru_remove_def Let_def p_def upd_page_def)
    moreover have "pg_next (pages s i) = None" if "i \<noteq> p" for i
      using off [of i] Nil that by simp
    ultimately have "runs (lru_remove pa s) (\<lambda>_ t. lru_frame s t)"
      and "runs (lru_remove pa s) (\<lambda>_ t. lru_list t [])"
      by (simp, simp add: lru_list_def upd_page_def)
    then show ?thesis
      using xs Nil by (cases "lru_remove pa s") (auto simp: p_def)
  next
    case (Cons y zs)
    then obtain u where u: "page_unlink p ?s = Ok () u" "ring (pnext u) (pprev u) (map Some (vs @ us))"
      "pg_next (pages u p) = Some y" "lru_frame ?s u" "lru_head u = lru_head s" "held u = held ?s"
      "\<And>i. Some i \<notin> set (Some p # map Some (vs @ us)) \<Longrightarrow> pages u i = pages s i"
      using page_unlink_runs [of ?s p y "map Some zs"] r by auto
    have ne: "pg_next (pages s p) \<noteq> Some p"
      using ring_next_self [OF r, of "Some p"] Cons by simp
    define h where "h = (if lru_head s = Some p then Some y else lru_head s)"
    define v where "v = upd_page p (\<lambda>g. g\<lparr>pg_next := None, pg_prev := None\<rparr>) (u\<lparr>held := held s, lru_head := h\<rparr>)"
    have "u\<lparr>lru_head := lru_head s\<rparr> = u"
      using u(5) by (metis memst.surjective memst.update_convs(4))
    moreover obtain n where "pg_next (pages s p) = Some n" and "n \<noteq> p"
      using some ne by auto
    ultimately have "lru_remove pa s = Ok () v"
      using u(1,3,5,6) lk
      by (cases "lru_head s = Some p")
        (simp_all add: lru_remove_def Let_def v_def h_def p_def [symmetric] upd_page_def)
    moreover have "ring (pnext v) (pprev v) (map Some (us @ vs))"
    proof -
      have "ring (pnext v) (pprev v) (map Some (vs @ us))"
        using ring_clear [OF _ pv, of "u\<lparr>held := held s, lru_head := h\<rparr>"] u(2)
        by (simp add: v_def pnext_def [abs_def] pprev_def [abs_def])
      then show ?thesis
        using ring_rotate [of "pnext v" "pprev v" "map Some vs"] by (cases us) auto
    qed
    moreover have "pg_next (pages v i) = None" if "i \<notin> set (us @ vs)" for i
    proof (cases "i = p")
      case False
      then have "pages u i = pages s i"
        using that by (intro u(7)) auto
      then show ?thesis
        using off [of i] that False by (simp add: v_def)
    qed (simp add: v_def)
    moreover have "lru_head v = (case us @ vs of [] \<Rightarrow> None | x # _ \<Rightarrow> Some x)"
      using l xs pu Cons by (cases us) (auto simp: v_def h_def lru_list_def)
    moreover have "lru_frame s v"
      using lru_frame_held [OF u(4)] by (simp add: v_def)
    ultimately show ?thesis
      using xs pu by (simp add: lru_list_def remove1_middle p_def)
  qed
qed

section \<open>Properties\<close>

text \<open>
  C18. The circular list of page descriptors behaves as a list: \<^verbatim>\<open>lru_add()\<close> of a page that is not listed appends it at the tail,
  \<^verbatim>\<open>lru_remove()\<close> deletes the page and does nothing for one that is not listed; neither touches anything but the links.
\<close>

theorem lru_refines_list:
  assumes "lru_list s xs" and "L_lru \<notin> set (held s)"
  shows "(page_index pa \<notin> set xs \<longrightarrow> (\<exists>t. lru_add pa s = Ok () t \<and> lru_list t (xs @ [page_index pa]) \<and> lru_frame s t)) \<and>
    (\<exists>t. lru_remove pa s = Ok () t \<and> lru_list t (remove1 (page_index pa) xs) \<and> lru_frame s t)"
  using lru_add_runs [OF assms(1) _ assms(2), of pa] lru_remove_runs [OF assms, of pa] by (auto simp: runs_iff)

theorem lru_refines_list_witness:
  "\<exists>t. lru_add 0x80005000 (mem_boot (\<lambda>_. 0) 0 (\<lambda>_. no_page) None 0x80000000 () :: memst) = Ok () t \<and> lru_list t [0x80005]"
proof -
  let ?s = "mem_boot (\<lambda>_. 0) 0 (\<lambda>_. no_page) None 0x80000000 () :: memst"
  have "lru_list ?s []" "page_index 0x80005000 = 0x80005"
    by (simp_all add: lru_list_def no_page_def page_index_def)
  then show ?thesis
    using lru_refines_list [of ?s "[]" "0x80005000"] by auto
qed

end
