(* ===== verification/Clock.thy ===== *)
theory Clock
  imports Lru
begin

text \<open>
  The victim search of \<^verbatim>\<open>swap_out()\<close> (\<^verbatim>\<open>kernel/kalloc.c\<close>) is the second-chance algorithm on the list
  of replaceable pages.  Clearing an accessed bit never changes how a page table is walked, so
  the search is a matter of two flags per page.
\<close>

section \<open>Clearing an accessed bit\<close>

definition unaccessed :: "uint64 \<Rightarrow> uint64" where
  "unaccessed pte = pte AND NOT PTE_A"

definition clear_a :: "memory \<Rightarrow> uint64 \<Rightarrow> memory" where
  "clear_a m a = store64 m a (unaccessed (load64 m a))"

lemma bit_flag: "n < 64 \<Longrightarrow> bit (2 ^ n :: uint64) k \<longleftrightarrow> k = n"
  by (auto simp: bit_exp_iff)

lemma bit_PTE_V: "bit (PTE_V :: uint64) k \<longleftrightarrow> k = 0" and bit_PTE_A: "bit PTE_A k \<longleftrightarrow> k = 6"
  using bit_flag [of 0 k] bit_flag [of 6 k] by simp_all

lemma PTE2PA_and_not:
  assumes "\<And>k. 10 \<le> k \<Longrightarrow> \<not> bit y k"
  shows "PTE2PA (x AND NOT y) = PTE2PA x"
  unfolding PTE2PA_def by (rule bit_word_eqI) (auto simp: bit_simps assms)

lemma unaccessed_flags [simp]:
  "unaccessed x AND PTE_V = x AND PTE_V" "PTE2PA (unaccessed x) = PTE2PA x" "unaccessed x AND PTE_A = 0"
proof -
  show "unaccessed x AND PTE_V = x AND PTE_V"
    by (rule bit_word_eqI) (auto simp: unaccessed_def bit_simps bit_PTE_V bit_PTE_A simp del: bit_numeral_iff)
  have "\<not> bit PTE_A k" if "10 \<le> k" for k
    using that unfolding bit_PTE_A by simp
  then show "PTE2PA (unaccessed x) = PTE2PA x"
    unfolding unaccessed_def by (rule PTE2PA_and_not)
  show "unaccessed x AND PTE_A = 0"
    by (rule bit_word_eqI) (auto simp: unaccessed_def bit_simps bit_PTE_A)
qed

lemma load64_clear_a:
  assumes "a mod 8 = 0" and "b mod 8 = 0"
  shows "load64 (clear_a m a) b = (if b = a then unaccessed (load64 m a) else load64 m b)"
  using assms by (auto simp: clear_a_def load64_store64_other)

lemma walk_levels_clear_a:
  assumes "a mod 8 = 0" and "page_aligned pt"
  shows "walk_levels l (clear_a m a) pt va = walk_levels l m pt va"
  using assms(2)
proof (induction l arbitrary: pt)
  case (Suc l)
  let ?b = "slot pt (PX (Suc l) va)"
  have "?b mod 8 = 0"
    using Suc.prems by (rule slot_mod8)
  then have e: "load64 (clear_a m a) ?b = (if ?b = a then unaccessed (load64 m ?b) else load64 m ?b)"
    using load64_clear_a [OF assms(1)] by simp
  have "load64 (clear_a m a) ?b AND PTE_V = load64 m ?b AND PTE_V"
    and "PTE2PA (load64 (clear_a m a) ?b) = PTE2PA (load64 m ?b)"
    unfolding e by simp_all
  then show ?case
    using Suc.IH [OF PTE2PA_aligned] by (simp add: Let_def)
qed simp

lemma walk_levels_aligned:
  "page_aligned pt \<Longrightarrow> walk_levels l m pt va = Some a \<Longrightarrow> a mod 8 = 0"
proof (induction l arbitrary: pt)
  case 0
  then show ?case
    using slot_mod8 by auto
next
  case (Suc l)
  then show ?case
    by (auto simp: Let_def split: if_splits intro: Suc.IH [OF PTE2PA_aligned])
qed

section \<open>The two flags of a page\<close>

definition pte_of :: "'a memst_scheme \<Rightarrow> nat \<Rightarrow> uint64 option" where
  "pte_of s i = walk_lookup (mem s) (pg_pagetable (pages s i)) (pg_vaddr (pages s i))"

definition present :: "'a memst_scheme \<Rightarrow> nat \<Rightarrow> bool" where
  "present s i \<longleftrightarrow> (case pte_of s i of None \<Rightarrow> False | Some a \<Rightarrow> load64 (mem s) a AND PTE_V \<noteq> 0)"

definition accessed :: "'a memst_scheme \<Rightarrow> nat \<Rightarrow> bool" where
  "accessed s i \<longleftrightarrow> (case pte_of s i of None \<Rightarrow> False | Some a \<Rightarrow> load64 (mem s) a AND PTE_A \<noteq> 0)"

text \<open>Passing over a page: a present one loses its accessed bit.\<close>

definition pass :: "nat \<Rightarrow> 'a memst_scheme \<Rightarrow> 'a memst_scheme" where
  "pass i s = (if present s i then s\<lparr>mem := clear_a (mem s) (the (pte_of s i))\<rparr> else s)"

text \<open>
  What the search relies on: the reverse mappings of the listed pages are page tables and
  addresses \<^verbatim>\<open>walk()\<close> accepts, and each page has an entry of its own.
\<close>

definition lru_mapped :: "'a memst_scheme \<Rightarrow> nat list \<Rightarrow> bool" where
  "lru_mapped s xs \<longleftrightarrow>
     (\<forall>i \<in> set xs. page_aligned (pg_pagetable (pages s i)) \<and> pg_vaddr (pages s i) < MAXVA) \<and>
     (\<forall>i \<in> set xs. \<forall>j \<in> set xs. pte_of s i \<noteq> None \<longrightarrow> pte_of s i = pte_of s j \<longrightarrow> i = j)"

lemma pass_simps [simp]:
  "pages (pass i s) = pages s" "lru_head (pass i s) = lru_head s" "held (pass i s) = held s"
  by (simp_all add: pass_def)

lemma pte_of_aligned:
  "lru_mapped s xs \<Longrightarrow> i \<in> set xs \<Longrightarrow> pte_of s i = Some a \<Longrightarrow> a mod 8 = 0"
  unfolding pte_of_def walk_lookup_def lru_mapped_def by (blast intro: walk_levels_aligned)

lemma pte_of_pass:
  assumes "lru_mapped s xs" and "i \<in> set xs" and "j \<in> set xs"
  shows "pte_of (pass i s) j = pte_of s j"
proof (cases "present s i")
  case True
  then obtain a where a: "pte_of s i = Some a"
    by (auto simp: present_def split: option.splits)
  then have "a mod 8 = 0"
    using assms by (blast intro: pte_of_aligned)
  moreover have "page_aligned (pg_pagetable (pages s j))"
    using assms(1,3) by (simp add: lru_mapped_def)
  moreover have "mem (pass i s) = clear_a (mem s) a"
    using True a by (simp add: pass_def)
  ultimately show ?thesis
    by (simp add: pte_of_def walk_lookup_def walk_levels_clear_a)
qed (simp add: pass_def)

lemma lru_mapped_pass:
  assumes "lru_mapped s xs" and "i \<in> set xs"
  shows "lru_mapped (pass i s) xs"
  unfolding lru_mapped_def pass_simps
proof (intro conjI ballI impI)
  fix j k assume jk: "j \<in> set xs" "k \<in> set xs"
    and "pte_of (pass i s) j \<noteq> None" "pte_of (pass i s) j = pte_of (pass i s) k"
  then show "j = k"
    using assms(1) unfolding lru_mapped_def pte_of_pass [OF assms jk(1)] pte_of_pass [OF assms jk(2)] by blast
qed (use assms(1) in \<open>simp_all add: lru_mapped_def\<close>)

lemma flags_pass:
  assumes "lru_mapped s xs" and "i \<in> set xs" and "j \<in> set xs"
  shows "present (pass i s) j = present s j" and "accessed (pass i s) j = (accessed s j \<and> (j = i \<longrightarrow> \<not> present s i))"
proof -
  have "present (pass i s) j = present s j \<and>
    accessed (pass i s) j = (accessed s j \<and> (j = i \<longrightarrow> \<not> present s i))"
  proof (cases "present s i")
    case True
    then obtain a where a: "pte_of s i = Some a"
      by (auto simp: present_def split: option.splits)
    have al: "a mod 8 = 0"
      using assms a by (blast intro: pte_of_aligned)
    show ?thesis
    proof (cases "pte_of s j")
      case None
      then show ?thesis
        using pte_of_pass [OF assms] by (simp add: present_def accessed_def)
    next
      case (Some b)
      then have "b mod 8 = 0"
        using assms by (blast intro: pte_of_aligned)
      moreover have "b = a \<longleftrightarrow> j = i"
        using Some a assms unfolding lru_mapped_def by (metis option.inject option.distinct(1))
      ultimately have "load64 (mem (pass i s)) b =
          (if j = i then unaccessed (load64 (mem s) b) else load64 (mem s) b)"
        using load64_clear_a [OF al, of b "mem s"] True a by (auto simp: pass_def)
      then show ?thesis
        using Some pte_of_pass [OF assms] True
        by (auto simp: present_def accessed_def)
    qed
  qed (auto simp: pass_def)
  then show "present (pass i s) j = present s j"
    and "accessed (pass i s) j = (accessed s j \<and> (j = i \<longrightarrow> \<not> present s i))"
    by blast+
qed

section \<open>One turn of the search\<close>

lemma clock_pass:
  assumes "pg_vaddr (pages s i) < MAXVA" and "present s i \<Longrightarrow> accessed s i"
  shows "clock (Suc n) (Some i) s = clock n (pg_next (pages s i)) (pass i s)"
  using assms
  by (auto simp: present_def accessed_def pte_of_def pass_def clear_a_def unaccessed_def not_le Let_def
      split: option.splits)

lemma clock_stop:
  assumes "pg_vaddr (pages s i) < MAXVA" and "present s i" and "\<not> accessed s i"
  shows "clock (Suc n) (Some i) s = Ok (i, the (pte_of s i)) s"
  using assms
  by (auto simp: present_def accessed_def pte_of_def not_le Let_def split: option.splits)

lemma ring_rotate1: "ring nx pv (x # xs) \<Longrightarrow> ring nx pv (xs @ [x])"
  using ring_rotate [of nx pv "[x]" "hd xs" "tl xs"] by (cases xs) auto

lemma lru_mapped_set: "set xs = set ys \<Longrightarrow> lru_mapped s xs = lru_mapped s ys"
  by (simp add: lru_mapped_def)

text \<open>Walking over a stretch of pages none of which can be taken.\<close>

lemma clock_walk:
  assumes "ring (pnext s) (pprev s) (map Some (us @ v # ws))" and "lru_mapped s (us @ v # ws)"
    and "\<And>i. i \<in> set us \<Longrightarrow> present s i \<Longrightarrow> accessed s i"
  shows "clock (length us + n) (Some (hd (us @ [v]))) s = clock n (Some v) (fold pass us s) \<and>
    lru_mapped (fold pass us s) (us @ v # ws) \<and> pages (fold pass us s) = pages s \<and>
    lru_head (fold pass us s) = lru_head s \<and> held (fold pass us s) = held s \<and>
    (\<forall>j \<in> set (us @ v # ws). present (fold pass us s) j = present s j \<and>
       accessed (fold pass us s) j = (accessed s j \<and> (j \<in> set us \<longrightarrow> \<not> present s j)))"
  using assms
proof (induction us arbitrary: s ws)
  case Nil
  then show ?case by simp
next
  case (Cons u us)
  let ?all = "(u # us) @ v # ws"
  let ?t = "pass u s"
  have u: "u \<in> set ?all"
    by simp
  have d: "distinct ?all"
    using Cons.prems(1) unfolding ring_def distinct_map by blast
  have va: "pg_vaddr (pages s u) < MAXVA"
    using Cons.prems(2) by (simp add: lru_mapped_def)
  have "linked (pnext s) (pprev s) (Some u) (map Some (us @ v # ws)) (Some u)"
    using Cons.prems(1) by (simp add: ring_Cons)
  then have "pnext s (Some u) = hd (map Some (us @ v # ws) @ [Some u])"
    by (rule linked_next)
  then have nx: "pg_next (pages s u) = Some (hd (us @ [v]))"
    by (cases us) auto
  note fp = flags_pass [OF Cons.prems(2) u]
  have "ring (pnext s) (pprev s) (map Some (us @ v # ws @ [u]))"
    using ring_rotate1 [of "pnext s" "pprev s" "Some u" "map Some (us @ v # ws)"] Cons.prems(1) by simp
  then have r: "ring (pnext ?t) (pprev ?t) (map Some (us @ v # ws @ [u]))"
    by (simp add: pnext_frame [of ?t s])
  have m: "lru_mapped ?t (us @ v # ws @ [u])"
    using lru_mapped_pass [OF Cons.prems(2) u] lru_mapped_set [of ?all "us @ v # ws @ [u]"] by auto
  have "present ?t i \<Longrightarrow> accessed ?t i" if "i \<in> set us" for i
    using fp [of i] Cons.prems(3) [of i] that d by auto
  note IH = Cons.IH [OF r m this]
  have "clock (length (u # us) + n) (Some u) s = clock (length us + n) (Some (hd (us @ [v]))) ?t"
    using clock_pass [OF va Cons.prems(3)] nx by simp
  moreover have "present (fold pass us ?t) j = present s j \<and>
      accessed (fold pass us ?t) j = (accessed s j \<and> (j \<in> set (u # us) \<longrightarrow> \<not> present s j))"
    if "j \<in> set ?all" for j
  proof -
    have "j \<in> set (us @ v # ws @ [u])"
      using that by auto
    then have "present (fold pass us ?t) j = present ?t j"
      and "accessed (fold pass us ?t) j = (accessed ?t j \<and> (j \<in> set us \<longrightarrow> \<not> present ?t j))"
      using IH by blast+
    then show ?thesis
      using fp [OF that] by auto
  qed
  moreover have "lru_mapped (fold pass us ?t) ?all"
    using IH lru_mapped_set [of ?all "us @ v # ws @ [u]"] by auto
  ultimately show ?case
    using IH by simp
qed

section \<open>The whole search\<close>

definition victim_of :: "'a memst_scheme \<Rightarrow> nat list \<Rightarrow> nat option" where
  "victim_of s xs =
     (case find (\<lambda>i. present s i \<and> \<not> accessed s i) xs of
        Some v \<Rightarrow> Some v
      | None \<Rightarrow> find (present s) xs)"

definition passed_over :: "'a memst_scheme \<Rightarrow> nat list \<Rightarrow> nat list" where
  "passed_over s xs =
     (if \<exists>i \<in> set xs. present s i \<and> \<not> accessed s i
      then takeWhile (\<lambda>i. present s i \<longrightarrow> accessed s i) xs else xs)"

text \<open>What the search leaves alone: everything but memory, and of memory all but the entries.\<close>

definition outside :: "'a memst_scheme \<Rightarrow> nat list \<Rightarrow> uint64 \<Rightarrow> bool" where
  "outside s xs x \<longleftrightarrow> (\<forall>i \<in> set xs. \<forall>a. pte_of s i = Some a \<longrightarrow> \<not> x - a < 8)"

definition clock_frame :: "'a memst_scheme \<Rightarrow> nat list \<Rightarrow> 'a memst_scheme \<Rightarrow> bool" where
  "clock_frame s xs t \<longleftrightarrow> t\<lparr>mem := mem s\<rparr> = s \<and> (\<forall>x. outside s xs x \<longrightarrow> mem t x = mem s x) \<and>
     (\<forall>i \<in> set xs. pte_of t i = pte_of s i \<and>
        (\<forall>a. pte_of s i = Some a \<longrightarrow> unaccessed (load64 (mem t) a) = unaccessed (load64 (mem s) a)))"

lemma lru_mapped_va: "lru_mapped s xs \<Longrightarrow> i \<in> set xs \<Longrightarrow> pg_vaddr (pages s i) < MAXVA"
  by (simp add: lru_mapped_def)

lemma clock_frame_pass:
  assumes "lru_mapped s xs" and "i \<in> set xs"
  shows "clock_frame s xs (pass i s)"
proof -
  have "mem (pass i s) x = mem s x" if "outside s xs x" for x
    using assms(2) that
    by (auto simp: pass_def outside_def clear_a_def store64_def present_def split: option.splits)
  moreover have "unaccessed (load64 (mem (pass i s)) b) = unaccessed (load64 (mem s) b)"
    if j: "j \<in> set xs" and b: "pte_of s j = Some b" for j b
  proof (cases "present s i")
    case True
    then obtain a where a: "pte_of s i = Some a"
      by (auto simp: present_def split: option.splits)
    have "a mod 8 = 0" "b mod 8 = 0"
      using assms a j b by (blast intro: pte_of_aligned)+
    then have "load64 (clear_a (mem s) a) b = (if b = a then unaccessed (load64 (mem s) a) else load64 (mem s) b)"
      by (rule load64_clear_a)
    moreover have "unaccessed (unaccessed x) = unaccessed x" for x
      by (simp add: unaccessed_def and.assoc)
    ultimately show ?thesis
      using True a by (simp add: pass_def)
  qed (simp add: pass_def)
  moreover have "(pass i s)\<lparr>mem := mem s\<rparr> = s"
    by (simp add: pass_def)
  ultimately show ?thesis
    using pte_of_pass [OF assms] by (simp add: clock_frame_def)
qed

lemma clock_frame_trans:
  assumes "clock_frame s xs t" and "clock_frame t xs u"
  shows "clock_frame s xs u"
proof -
  have "outside t xs x" if "outside s xs x" for x
    using that assms(1) by (auto simp: outside_def clock_frame_def)
  moreover have "u\<lparr>mem := mem s\<rparr> = (u\<lparr>mem := mem t\<rparr>)\<lparr>mem := mem s\<rparr>"
    by simp
  then have "u\<lparr>mem := mem s\<rparr> = s"
    using assms unfolding clock_frame_def by metis
  ultimately show ?thesis
    using assms by (simp add: clock_frame_def)
qed

lemma clock_frame_fold:
  assumes "lru_mapped s xs" and "set us \<subseteq> set xs"
  shows "clock_frame s xs (fold pass us s) \<and> lru_mapped (fold pass us s) xs"
  using assms
proof (induction us arbitrary: s)
  case Nil
  then show ?case
    by (simp add: clock_frame_def)
next
  case (Cons u us)
  then have "clock_frame s xs (pass u s)" and "lru_mapped (pass u s) xs"
    by (auto intro: clock_frame_pass lru_mapped_pass)
  then show ?case
    using Cons.IH [of "pass u s"] Cons.prems(2) by (auto intro: clock_frame_trans)
qed

text \<open>Some page is present and unaccessed: the first one is taken.\<close>

lemma clock_unaccessed:
  assumes l: "lru_list s xs" and m: "lru_mapped s xs" and xs: "xs = us @ v # ws"
    and us: "\<And>i. i \<in> set us \<Longrightarrow> present s i \<Longrightarrow> accessed s i" and v: "present s v" "\<not> accessed s v"
  shows "clock (length us + Suc n) (lru_head s) s = Ok (v, the (pte_of s v)) (fold pass us s)"
    and "\<And>j. j \<in> set xs \<Longrightarrow> present (fold pass us s) j = present s j \<and>
       accessed (fold pass us s) j = (accessed s j \<and> (j \<in> set us \<longrightarrow> \<not> present s j))"
proof -
  have r: "ring (pnext s) (pprev s) (map Some (us @ v # ws))"
    using l xs by (simp add: lru_list_def)
  note w = clock_walk [OF r m [unfolded xs] us, where n = "Suc n"]
  show fl: "\<And>j. j \<in> set xs \<Longrightarrow> present (fold pass us s) j = present s j \<and>
       accessed (fold pass us s) j = (accessed s j \<and> (j \<in> set us \<longrightarrow> \<not> present s j))"
    using w xs by blast
  have vx: "v \<in> set xs"
    using xs by simp
  have "lru_head s = Some (hd (us @ [v]))"
    using l xs by (cases us) (auto simp: lru_list_def)
  moreover have "pte_of (fold pass us s) v = pte_of s v"
    using clock_frame_fold [OF m, of us] xs vx by (auto simp: clock_frame_def)
  moreover have "pg_vaddr (pages (fold pass us s) v) < MAXVA"
    using lru_mapped_va [OF w [THEN conjunct2, THEN conjunct1]] by simp
  then have "clock (Suc n) (Some v) (fold pass us s) = Ok (v, the (pte_of (fold pass us s) v)) (fold pass us s)"
    using fl [OF vx] v by (intro clock_stop) auto
  ultimately show "clock (length us + Suc n) (lru_head s) s = Ok (v, the (pte_of s v)) (fold pass us s)"
    using w by simp
qed

text \<open>All present pages were accessed: a full turn clears them, and the first present one is taken.\<close>

lemma clock_all_accessed:
  assumes l: "lru_list s xs" and m: "lru_mapped s xs" and xs: "xs = us @ v # ws"
    and all: "\<And>i. i \<in> set xs \<Longrightarrow> present s i \<Longrightarrow> accessed s i"
    and us: "\<And>i. i \<in> set us \<Longrightarrow> \<not> present s i" and v: "present s v"
  defines "t \<equiv> fold pass (ws @ us) (pass v s)"
  shows "clock (length xs + length us + Suc n) (lru_head s) s = Ok (v, the (pte_of s v)) t"
    and "\<And>j. j \<in> set xs \<Longrightarrow> present t j = present s j \<and> accessed t j = (accessed s j \<and> \<not> present s j)"
proof -
  have r: "ring (pnext s) (pprev s) (map Some (us @ v # ws))"
    using l xs by (simp add: lru_list_def)
  have d: "distinct (us @ v # ws)"
    using lru_list_distinct [OF l] xs by simp
  have "fold pass us s = s"
    using us by (induction us) (auto simp: pass_def)
  moreover have head: "lru_head s = Some (hd (us @ [v]))"
    using l xs by (cases us) (auto simp: lru_list_def)
  ultimately have first: "clock (length us + k) (lru_head s) s = clock k (Some v) s" for k
    using clock_walk [OF r m [unfolded xs], of k] all xs by auto
  have vx: "v \<in> set xs" and va: "pg_vaddr (pages s v) < MAXVA"
    using xs m by (auto simp: lru_mapped_def)
  have r': "ring (pnext (pass v s)) (pprev (pass v s)) (map Some ((ws @ us) @ v # []))"
  proof -
    have "ring (pnext s) (pprev s) (Some v # map Some (ws @ us))"
      using lru_list_rotate [OF l [unfolded xs]] .
    then have "ring (pnext s) (pprev s) (map Some (ws @ us) @ [Some v])"
      by (rule ring_rotate1)
    then show ?thesis
      by (simp add: pnext_frame [of "pass v s" s])
  qed
  have "pg_next (pages s v) = Some (hd ((ws @ us) @ [v]))"
  proof -
    have "linked (pnext s) (pprev s) (Some v) (map Some (ws @ us)) (Some v)"
      using lru_list_rotate [OF l [unfolded xs]] by (simp add: ring_Cons)
    from linked_next [OF this] show ?thesis
      by (cases "ws @ us") (auto simp: hd_append hd_map)
  qed
  then have second: "clock (Suc k) (Some v) s = clock k (Some (hd ((ws @ us) @ [v]))) (pass v s)" for k
    using clock_pass [OF va] all [OF vx] by simp
  have set: "set ((ws @ us) @ [v]) = set xs"
    using xs by auto
  have m': "lru_mapped (pass v s) ((ws @ us) @ v # [])"
    using lru_mapped_pass [OF m vx] lru_mapped_set [OF set, of "pass v s"] by simp
  note fp = flags_pass [OF m vx]
  have "present (pass v s) i \<Longrightarrow> accessed (pass v s) i" if "i \<in> set (ws @ us)" for i
    using fp [of i] all [of i] that xs d by auto
  note w = clock_walk [OF r' m' this, of "Suc n", folded t_def]
  show fl: "\<And>j. j \<in> set xs \<Longrightarrow> present t j = present s j \<and> accessed t j = (accessed s j \<and> \<not> present s j)"
  proof -
    fix j assume j: "j \<in> set xs"
    then have "j \<in> set ((ws @ us) @ [v])"
      unfolding set .
    then have "present t j = present (pass v s) j \<and>
        accessed t j = (accessed (pass v s) j \<and> (j \<in> set (ws @ us) \<longrightarrow> \<not> present (pass v s) j))"
      using w by blast
    moreover have "j \<noteq> v \<Longrightarrow> j \<in> set (ws @ us)"
      using j xs by auto
    ultimately show "present t j = present s j \<and> accessed t j = (accessed s j \<and> \<not> present s j)"
      using fp [OF j] by blast
  qed
  have "pte_of t v = pte_of s v"
    using clock_frame_fold [OF m, of "v # ws @ us"] xs by (auto simp: clock_frame_def t_def)
  moreover have "pg_vaddr (pages t v) < MAXVA"
    using lru_mapped_va [OF w [THEN conjunct2, THEN conjunct1]] by simp
  then have "clock (Suc n) (Some v) t = Ok (v, the (pte_of t v)) t"
    using fl [OF vx] v by (intro clock_stop) auto
  moreover have "length xs + length us + Suc n = length us + Suc (length (ws @ us) + Suc n)"
    using xs by simp
  ultimately show "clock (length xs + length us + Suc n) (lru_head s) s = Ok (v, the (pte_of s v)) t"
    using first second w by (simp only:)
qed

lemma clock_victim:
  assumes l: "lru_list s xs" and m: "lru_mapped s xs" and v: "victim_of s xs = Some v" and n: "2 * length xs \<le> n"
  shows "runs (clock n (lru_head s) s) (\<lambda>(i, a) t. i = v \<and> pte_of s v = Some a \<and> clock_frame s xs t \<and>
    lru_mapped t xs \<and> (\<forall>j \<in> set xs. present t j = present s j \<and>
      accessed t j = (accessed s j \<and> \<not> (present s j \<and> j \<in> set (passed_over s xs)))))"
proof (cases "find (\<lambda>i. present s i \<and> \<not> accessed s i) xs")
  case (Some w)
  let ?P = "\<lambda>i. present s i \<longrightarrow> accessed s i"
  have w: "w = v" "v \<in> set xs" "present s v" "\<not> accessed s v"
    using v Some find_SomeD [OF Some] by (auto simp: victim_of_def)
  let ?us = "takeWhile ?P xs"
  have "dropWhile ?P xs \<noteq> []"
    using w by (auto simp: dropWhile_eq_Nil_conv)
  then obtain h ws where d: "dropWhile ?P xs = h # ws"
    by (meson neq_Nil_conv)
  have "h = v"
  proof -
    have "find (\<lambda>i. present s i \<and> \<not> accessed s i) xs = Some (hd (dropWhile ?P xs))"
      using \<open>dropWhile ?P xs \<noteq> []\<close> by (induction xs) auto
    then show ?thesis
      using Some d w(1) by simp
  qed
  then have xs: "xs = ?us @ v # ws"
    using d takeWhile_dropWhile_id [of ?P xs] by simp
  have us: "\<And>i. i \<in> set ?us \<Longrightarrow> ?P i"
    by (metis (no_types, lifting) set_takeWhileD)
  have po: "passed_over s xs = ?us"
    using w by (auto simp: passed_over_def)
  have "length xs = length ?us + Suc (length ws)"
    using arg_cong [OF xs, of length] by simp
  then have n': "n = length ?us + Suc (n - Suc (length ?us))"
    using n by simp
  have fr: "clock_frame s xs (fold pass ?us s)" "lru_mapped (fold pass ?us s) xs"
    using clock_frame_fold [OF m, of ?us] by (auto dest: set_takeWhileD)
  have pv: "pte_of s v = Some (the (pte_of s v))"
    using w(3) by (auto simp: present_def split: option.splits)
  note c = clock_unaccessed [OF l m xs]
  have "clock n (lru_head s) s = Ok (v, the (pte_of s v)) (fold pass ?us s)"
    using c(1) [of "n - Suc (length ?us)"] us w n' by auto
  moreover have "\<forall>j \<in> set xs. present (fold pass ?us s) j = present s j \<and>
      accessed (fold pass ?us s) j = (accessed s j \<and> \<not> (present s j \<and> j \<in> set (passed_over s xs)))"
    unfolding po using c(2) us w by blast
  ultimately show ?thesis
    using fr pv by simp
next
  case None
  then have all: "\<And>i. i \<in> set xs \<Longrightarrow> present s i \<Longrightarrow> accessed s i"
    by (auto simp: find_None_iff)
  have po: "passed_over s xs = xs"
    using all by (auto simp: passed_over_def)
  have f: "find (present s) xs = Some v"
    using v None by (simp add: victim_of_def)
  then obtain k where k: "k < length xs" "present s (xs ! k)" "v = xs ! k" "\<forall>j<k. \<not> present s (xs ! j)"
    by (auto simp: find_Some_iff)
  let ?us = "take k xs" and ?ws = "drop (Suc k) xs"
  have xs: "xs = ?us @ v # ?ws"
    using k(1,3) by (simp add: id_take_nth_drop)
  have us: "\<And>i. i \<in> set ?us \<Longrightarrow> \<not> present s i"
    using k(1,4) by (auto simp: in_set_conv_nth)
  define t where "t = fold pass (?ws @ ?us) (pass v s)"
  note c = clock_all_accessed [OF l m xs all us, folded t_def]
  have n': "n = length xs + length ?us + Suc (n - Suc (length xs + length ?us))"
    using n k(1) by simp
  have vx: "v \<in> set xs"
    using k(1,3) by simp
  have fr: "clock_frame s xs t" "lru_mapped t xs"
    using clock_frame_fold [OF m, of "v # ?ws @ ?us"] vx unfolding t_def
    by (auto dest: in_set_takeD in_set_dropD)
  have pv: "pte_of s v = Some (the (pte_of s v))"
    using k(2,3) by (auto simp: present_def split: option.splits)
  have "clock n (lru_head s) s = Ok (v, the (pte_of s v)) t"
    using c(1) [of "n - Suc (length xs + length ?us)"] k(2,3) n' by auto
  moreover have "\<forall>j \<in> set xs. present t j = present s j \<and>
      accessed t j = (accessed s j \<and> \<not> (present s j \<and> j \<in> set (passed_over s xs)))"
    unfolding po using c(2) k(2,3) by blast
  ultimately show ?thesis
    using fr pv by simp
qed

lemma and_not_self: "x AND y = 0 \<Longrightarrow> x AND NOT y = x" for x y :: uint64
  using bit.conj_disj_distrib [of x y "NOT y"] by simp

text \<open>The victim has just lost its accessed bit, or did not have it.\<close>

lemma clock_victim_entry:
  assumes "victim_of s xs = Some v" and "clock_frame s xs t"
    and "\<forall>j \<in> set xs. present t j = present s j \<and>
      accessed t j = (accessed s j \<and> \<not> (present s j \<and> j \<in> set (passed_over s xs)))"
  shows "v \<in> set xs" and "present t v" and "load64 (mem t) (the (pte_of s v)) = unaccessed (load64 (mem s) (the (pte_of s v)))"
proof -
  have v: "v \<in> set xs" "present s v"
    using assms(1) by (auto simp: victim_of_def dest: find_SomeD split: option.splits)
  then show "v \<in> set xs" and "present t v"
    using assms(3) by blast+
  have "\<not> accessed t v"
  proof (cases "find (\<lambda>i. present s i \<and> \<not> accessed s i) xs")
    case None
    then have "passed_over s xs = xs"
      by (auto simp: passed_over_def find_None_iff)
    then show ?thesis
      using assms(3) v by auto
  next
    case (Some w)
    then have "\<not> accessed s v"
      using assms(1) by (auto simp: victim_of_def dest: find_SomeD)
    then show ?thesis
      using assms(3) v by auto
  qed
  moreover obtain a where a: "pte_of s v = Some a" "pte_of t v = Some a"
    using v assms(2) by (auto simp: present_def clock_frame_def split: option.splits)
  ultimately have "load64 (mem t) a AND PTE_A = 0"
    by (simp add: accessed_def)
  then have "unaccessed (load64 (mem t) a) = load64 (mem t) a"
    unfolding unaccessed_def by (rule and_not_self)
  moreover have "unaccessed (load64 (mem t) a) = unaccessed (load64 (mem s) a)"
    using assms(2) v(1) a(1) by (simp add: clock_frame_def)
  ultimately show "load64 (mem t) (the (pte_of s v)) = unaccessed (load64 (mem s) (the (pte_of s v)))"
    using a by simp
qed

lemma clock_no_present:
  assumes l: "lru_list s xs" and va: "\<And>i. i \<in> set xs \<Longrightarrow> pg_vaddr (pages s i) < MAXVA"
    and np: "\<And>i. i \<in> set xs \<Longrightarrow> \<not> present s i" and i: "i \<in> set xs"
  shows "clock n (Some i) s = Spin"
  using i
proof (induction n arbitrary: i)
  case (Suc n)
  obtain j where "j \<in> set xs" "pg_next (pages s i) = Some j"
    using lru_list_links(1) [OF l Suc.prems] by blast
  moreover have "pass i s = s"
    using np Suc.prems by (simp add: pass_def)
  ultimately show ?case
    using clock_pass [of s i n] va np Suc by simp
qed simp

section \<open>Properties\<close>

text \<open>Two mapped pages: the first one was accessed, the second one was not.\<close>

definition two_page_memory :: memory where
  "two_page_memory = store64 (store64 one_page_memory 0x80003008 (PA2PTE 0x80004000 OR 0x57))
     0x80003010 (PA2PTE 0x80005000 OR 0x17)"

definition two_pages :: memst where
  "two_pages = mem_boot two_page_memory 0
     (\<lambda>i. if i = 4 then \<lparr>pg_next = Some 5, pg_prev = Some 5, pg_pagetable = 0x80001000, pg_vaddr = 0x1000\<rparr>
          else if i = 5 then \<lparr>pg_next = Some 4, pg_prev = Some 4, pg_pagetable = 0x80001000, pg_vaddr = 0x2000\<rparr>
          else no_page)
     (Some 4) 0x80000000 ()"

lemma PX_page2: "PX 2 0x2000 = 0" "PX 1 0x2000 = 0" "PX (Suc 0) 0x2000 = 0" "PX 0 0x2000 = 2"
  by (simp_all add: PX_def)

lemma two_page_tables:
  "load64 two_page_memory 0x80001000 = PA2PTE 0x80002000 OR 1"
  "load64 two_page_memory 0x80002000 = PA2PTE 0x80003000 OR 1"
  "load64 two_page_memory 0x80003008 = PA2PTE 0x80004000 OR 0x57"
  "load64 two_page_memory 0x80003010 = PA2PTE 0x80005000 OR 0x17"
  by (simp_all add: two_page_memory_def load64_store64_other one_page_tables)

lemma two_page_walk:
  "walk_lookup two_page_memory 0x80001000 0x1000 = Some 0x80003008"
  "walk_lookup two_page_memory 0x80001000 0x2000 = Some 0x80003010"
  by (simp_all add: walk_two_levels PX_page1 PX_page2 two_page_tables PTE_examples)

lemma two_pages_fields [simp]:
  "mem two_pages = two_page_memory" "lru_head two_pages = Some 4"
  "pages two_pages 4 = \<lparr>pg_next = Some 5, pg_prev = Some 5, pg_pagetable = 0x80001000, pg_vaddr = 0x1000\<rparr>"
  "pages two_pages 5 = \<lparr>pg_next = Some 4, pg_prev = Some 4, pg_pagetable = 0x80001000, pg_vaddr = 0x2000\<rparr>"
  "i \<noteq> 4 \<Longrightarrow> i \<noteq> 5 \<Longrightarrow> pages two_pages i = \<lparr>pg_next = None, pg_prev = None, pg_pagetable = 0, pg_vaddr = 0\<rparr>"
  by (simp_all add: two_pages_def no_page_def)

lemma two_pages_flags:
  "pte_of two_pages 4 = Some 0x80003008" "pte_of two_pages 5 = Some 0x80003010"
  "present two_pages 4" "present two_pages 5" "accessed two_pages 4" "\<not> accessed two_pages 5"
  by (simp_all add: present_def accessed_def pte_of_def two_page_walk two_page_tables)
    (simp_all add: PA2PTE_def)

lemma two_pages_list: "lru_list two_pages [4, 5]" and two_pages_mapped: "lru_mapped two_pages [4, 5]"
  by (auto simp: lru_list_def ring_Cons lru_mapped_def two_pages_flags page_aligned_def)

text \<open>
  C5. The victim search of \<^verbatim>\<open>swap_out()\<close> is the second-chance algorithm: it returns the first page of the
  list that is mapped and not accessed; where all mapped pages were accessed, the first
  mapped one.  The mapped pages it passes over lose their accessed bit, all others keep both flags, and nothing else in
  memory or in the kernel's state changes.  A number of steps that is twice the length of the
  list is enough.
\<close>

theorem clock_second_chance:
  assumes "lru_list s xs" and "lru_mapped s xs" and "victim_of s xs = Some v" and "2 * length xs \<le> n"
  shows "runs (clock n (lru_head s) s) (\<lambda>(i, a) t. i = v \<and> pte_of s v = Some a \<and> clock_frame s xs t \<and>
    (\<forall>j \<in> set xs. present t j = present s j \<and>
      accessed t j = (accessed s j \<and> \<not> (present s j \<and> j \<in> set (passed_over s xs)))))"
  using clock_victim [OF assms] by (rule runs_mono) auto

theorem clock_second_chance_witness:
  "runs (clock 4 (Some 4) two_pages) (\<lambda>(i, a) t. i = 5 \<and> a = 0x80003010 \<and> \<not> accessed t 4 \<and> present t 4)"
proof -
  have v: "victim_of two_pages [4, 5] = Some 5" "passed_over two_pages [4, 5] = [4]"
    by (simp_all add: victim_of_def passed_over_def two_pages_flags)
  have "runs (clock 4 (lru_head two_pages) two_pages) (\<lambda>(i, a) t. i = 5 \<and> pte_of two_pages 5 = Some a \<and>
      clock_frame two_pages [4, 5] t \<and> (\<forall>j \<in> set [4, 5]. present t j = present two_pages j \<and>
        accessed t j = (accessed two_pages j \<and> \<not> (present two_pages j \<and> j \<in> set [4]))))"
    using clock_second_chance [OF two_pages_list two_pages_mapped v(1), of 4] by (simp add: v(2))
  then show ?thesis
    unfolding two_pages_fields by (rule runs_mono) (auto simp: two_pages_flags)
qed

text \<open>
  C25. Where no page of the list is mapped (each of them has been swapped out or unmapped since it was added), the victim search never ends: it goes round the
  list, with \<^verbatim>\<open>lru_lock\<close> held, for every number of steps.
\<close>

theorem clock_spins:
  assumes "lru_list s xs" and "xs \<noteq> []" and "\<And>i. i \<in> set xs \<Longrightarrow> pg_vaddr (pages s i) < MAXVA"
    and "\<And>i. i \<in> set xs \<Longrightarrow> \<not> present s i"
  shows "clock n (lru_head s) s = Spin"
  using clock_no_present [OF assms(1,3,4)] assms(1,2) by (auto simp: lru_list_def neq_Nil_conv)

lemma load64_zero: "load64 (\<lambda>_. 0) a = 0"
  by (simp add: load64_def numeral_eq_Suc)

theorem clock_spins_witness:
  "clock 1000 (Some 4) (two_pages\<lparr>mem := \<lambda>_. 0\<rparr>) = Spin"
proof -
  have l: "lru_list (two_pages\<lparr>mem := \<lambda>_. 0\<rparr>) [4, 5]"
    using two_pages_list by (subst lru_list_cong [of _ two_pages]) simp_all
  have "\<not> present (two_pages\<lparr>mem := \<lambda>_. 0\<rparr>) i" for i
    by (simp add: present_def pte_of_def walk_two_levels load64_zero split: option.splits)
  moreover have "pg_vaddr (pages (two_pages\<lparr>mem := \<lambda>_. 0\<rparr>) i) < MAXVA" if "i \<in> set [4, 5]" for i
    using that by auto
  ultimately show ?thesis
    using clock_spins [OF l, of 1000] by simp
qed

end
