(* ===== verification/Swap.thy ===== *)
theory Swap
  imports Clock
begin

text \<open>
  The swap area on disk and the replacement of a page.  \<^verbatim>\<open>swapwrite()\<close> and \<^verbatim>\<open>swapread()\<close> of
  \<^verbatim>\<open>kernel/fs.c\<close> make the swap area an array of pages (\<open>swap_view\<close>); \<^verbatim>\<open>swap_out()\<close> of
  \<^verbatim>\<open>kernel/kalloc.c\<close> stores the victim in the first free slot and leaves the slot's number in the
  victim's page-table entry.
\<close>

section \<open>The swap area as an array of pages\<close>

definition swap_blocks :: "(uint32 \<times> uint32) set" where
  "swap_blocks = {(0, swap_block (int k) i) | k i. k < SWAPSLOTS \<and> i < 4}"

definition swap_ok :: "'a memst_scheme \<Rightarrow> bool" where
  "swap_ok s \<longleftrightarrow> (\<exists>xs. bcache_ok s xs) \<and> sleepable s \<and> idle_for swap_blocks s \<and>
     (\<forall>q \<in> swap_blocks. unshared q s)"

definition swap_view :: "'a memst_scheme \<Rightarrow> nat \<Rightarrow> byte list" where
  "swap_view s k = concat (map (\<lambda>i. bview s (0, swap_block (int k) i)) [0..<4])"

text \<open>Swap traffic changes the cache, the disk, the counters and the states of sleeping processes only.\<close>

definition swap_erase :: "'a memst_scheme \<Rightarrow> 'a memst_scheme" where
  "swap_erase s = s\<lparr>proc := [], slocks := (\<lambda>_. \<lparr>sl_locked = False, sl_pid = 0\<rparr>), bufs := [], disk := (\<lambda>_. []),
     nr_sectors_read := 0, nr_sectors_write := 0\<rparr>"

lemma unat_swap_block:
  assumes "k < SWAPSLOTS" and "i < 4"
  shows "unat (swap_block (int k) i) = 2000 + 4 * k + i"
proof -
  have "swap_block (int k) i = word_of_nat (2000 + 4 * k + i)"
    unfolding swap_block_def by simp
  then show ?thesis
    using assms by (simp add: unat_of_nat del: of_nat_add of_nat_mult of_nat_numeral)
qed

lemma swap_block_inj:
  assumes "k < SWAPSLOTS" "i < 4" "k' < SWAPSLOTS" "i' < 4"
  shows "swap_block (int k) i = swap_block (int k') i' \<longleftrightarrow> k = k' \<and> i = i'"
proof -
  have "2000 + 4 * k + i = 2000 + 4 * k' + i' \<longleftrightarrow> k = k' \<and> i = i'"
    using assms(2,4) by presburger
  then show ?thesis
    using unat_swap_block [OF assms(1,2)] unat_swap_block [OF assms(3,4)]
    by (metis (no_types, lifting) word_unat_eq_iff)
qed

lemma disk_sector_swap_inj:
  assumes "q \<in> swap_blocks" "r \<in> swap_blocks"
  shows "disk_sector (snd q) = disk_sector (snd r) \<longleftrightarrow> q = r"
proof -
  have s: "unat (disk_sector (snd q)) = 2 * unat (snd q) \<and> fst q = 0" if "q \<in> swap_blocks" for q
    using that unat_swap_block
    by (auto simp: swap_blocks_def disk_sector_def unat_mult_lem unsigned_ucast_eq take_bit_eq_mod unat_word_ariths)
  show ?thesis
    using s [OF assms(1)] s [OF assms(2)] by (auto simp: word_unat_eq_iff prod_eq_iff)
qed

lemma swap_blocksI: "k < SWAPSLOTS \<Longrightarrow> i < 4 \<Longrightarrow> (0, swap_block (int k) i) \<in> swap_blocks"
  by (auto simp: swap_blocks_def)

lemma zero_not_swap: "(0, 0) \<notin> swap_blocks"
proof
  assume "(0, 0) \<in> swap_blocks"
  then obtain k i where "k < SWAPSLOTS" "i < 4" "swap_block (int k) i = 0"
    by (auto simp: swap_blocks_def)
  then show False
    using unat_swap_block [of k i] by simp
qed

lemma length_bview: "bcache_ok s xs \<Longrightarrow> length (bview s k) = BSIZE"
  by (auto simp: bview_def bcache_ok_def buf_ok_def cached_def find_Some_iff split: option.splits)

lemma length_swap_view: "bcache_ok s xs \<Longrightarrow> length (swap_view s k) = 4096"
  by (simp add: swap_view_def length_bview upt_rec)

lemma swap_eraseD:
  assumes "swap_erase t = swap_erase s"
  shows "mem t = mem s" "pages t = pages s" "lru_head t = lru_head s" "swap_bitmap t = swap_bitmap s"
    "freelist t = freelist s" "kernel_end t = kernel_end s" "held t = held s" "cpu_proc t = cpu_proc s"
    "memst.more t = memst.more s"
  using arg_cong [OF assms, of mem] arg_cong [OF assms, of pages] arg_cong [OF assms, of lru_head]
    arg_cong [OF assms, of swap_bitmap] arg_cong [OF assms, of freelist] arg_cong [OF assms, of kernel_end]
    arg_cong [OF assms, of held] arg_cong [OF assms, of cpu_proc] arg_cong [OF assms, of memst.more]
  by (simp_all add: swap_erase_def)

lemma bio_frame_swap_erase:
  assumes "bio_frame s t"
  shows "swap_erase t = swap_erase s" "nr_sectors_read t = nr_sectors_read s" "nr_sectors_write t = nr_sectors_write s"
  using assms by (auto simp: bio_frame_def swap_erase_def)

lemma bio_frame_mem: "bio_frame s t \<Longrightarrow> bio_frame (s\<lparr>mem := m\<rparr>) (t\<lparr>mem := m\<rparr>)"
proof -
  assume "bio_frame s t"
  then obtain ps sl bs d where "t = s\<lparr>proc := ps, slocks := sl, bufs := bs, disk := d\<rparr>"
    by (auto simp: bio_frame_def)
  then have "t\<lparr>mem := m\<rparr> = s\<lparr>mem := m\<rparr>\<lparr>proc := ps, slocks := sl, bufs := bs, disk := d\<rparr>"
    by simp
  then show ?thesis
    unfolding bio_frame_def by blast
qed

lemma swap_ok_same:
  assumes "same_bio s t"
  shows "swap_ok t = swap_ok s" and "swap_view t = swap_view s"
  unfolding swap_ok_def swap_view_def [abs_def] same_bio_props [OF assms] by simp_all

lemma swap_ok_step:
  assumes ok: "swap_ok s" and q: "q \<in> swap_blocks" and step: "block_step swap_blocks q s u"
  shows "swap_ok u"
proof -
  have "unshared r u" if r: "r \<in> swap_blocks" for r
  proof (rule unshared_step [OF _ step])
    show "unshared r s"
      using ok r by (simp add: swap_ok_def)
    show "disk_sector (snd q) = disk_sector (snd r) \<Longrightarrow> q = r"
      using disk_sector_swap_inj [OF q r] by simp
  qed
  then show ?thesis
    using step by (simp add: swap_ok_def block_step_def)
qed

lemma swapwrite_blk_runs:
  assumes ok: "swap_ok s" and k: "k < SWAPSLOTS" and i: "i < 4"
  shows "runs (swapwrite_blk pa (int k) False i s) (\<lambda>_ u. swap_ok u \<and> swap_erase u = swap_erase s \<and>
    nr_sectors_write u = nr_sectors_write s + 1 \<and> nr_sectors_read u = nr_sectors_read s \<and>
    bview u (0, swap_block (int k) i) = mem_read (mem s) (pa + of_nat (i * BSIZE)) BSIZE \<and>
    (\<forall>q \<in> swap_blocks. q \<noteq> (0, swap_block (int k) i) \<longrightarrow> bview u q = bview s q))"
proof -
  let ?b = "swap_block (int k) i" and ?d = "mem_read (mem s) (pa + of_nat (i * BSIZE)) BSIZE"
  define s1 where "s1 = s\<lparr>nr_sectors_write := nr_sectors_write s + 1\<rparr>"
  have same: "same_bio s s1"
    by (simp add: same_bio_def s1_def)
  note q = swap_blocksI [OF k i]
  have ok1: "swap_ok s1"
    using swap_ok_same [OF same] ok by simp
  then obtain xs where xs: "bcache_ok s1 xs" and sl: "sleepable s1" and idle: "idle_for swap_blocks s1"
    and alone: "unshared (0, ?b) s1"
    using q by (auto simp: swap_ok_def)
  have "length ?d = BSIZE"
    by simp
  note w = write_block_runs [OF xs sl idle q zero_not_swap this alone]
  have "runs (bread 0 ?b s1) (bread_post 0 ?b xs s1)"
    by (rule bread_runs [OF xs sl idle_can_bread [OF xs idle q zero_not_swap]])
  then obtain j t where br: "bread 0 ?b s1 = Ok j t" and post: "bread_post 0 ?b xs s1 j t"
    by (auto simp: runs_iff)
  have "mem t = mem s"
    using post by (auto simp: bread_post_def bframe_def s1_def)
  then have "swapwrite_blk pa (int k) False i s = write_block 0 ?b ?d s1"
    using br by (simp add: swapwrite_blk_def write_block_def either_copyin_def s1_def)
  moreover have "swap_ok u \<and> swap_erase u = swap_erase s \<and>
      nr_sectors_write u = nr_sectors_write s + 1 \<and> nr_sectors_read u = nr_sectors_read s \<and>
      bview u (0, ?b) = ?d \<and> (\<forall>q \<in> swap_blocks. q \<noteq> (0, ?b) \<longrightarrow> bview u q = bview s q)"
    if u: "block_step swap_blocks (0, ?b) s1 u" "bview u (0, ?b) = ?d"
      "\<And>q. disk_sector (snd q) \<noteq> disk_sector ?b \<Longrightarrow> bview u q = bview s1 q" for u
  proof -
    have "bio_frame s1 u"
      using u(1) by (simp add: block_step_def)
    note fr = bio_frame_swap_erase [OF this]
    have "bview u r = bview s r" if r: "r \<in> swap_blocks" "r \<noteq> (0, ?b)" for r
    proof -
      have "disk_sector (snd r) \<noteq> disk_sector ?b"
        using disk_sector_swap_inj [OF r(1) q] r(2) by simp
      then show ?thesis
        using u(3) same_bio_props(5) [OF same] by simp
    qed
    moreover have "swap_erase s1 = swap_erase s"
      by (simp add: s1_def swap_erase_def)
    ultimately show ?thesis
      using u(2) swap_ok_step [OF ok1 q u(1)] fr by (simp add: s1_def)
  qed
  ultimately show ?thesis
    using runs_mono [OF w] by auto
qed

lemma swapread_blk_runs:
  assumes ok: "swap_ok s" and k: "k < SWAPSLOTS" and i: "i < 4"
  shows "runs (swapread_blk pa (int k) False i s) (\<lambda>_ u. swap_ok u \<and>
    mem u = mem_write (mem s) (pa + of_nat (i * BSIZE)) (bview s (0, swap_block (int k) i)) \<and>
    swap_erase (u\<lparr>mem := mem s\<rparr>) = swap_erase s \<and>
    nr_sectors_read u = nr_sectors_read s + 1 \<and> nr_sectors_write u = nr_sectors_write s \<and>
    bview u = bview s \<and> disk u = disk s)"
proof -
  let ?b = "swap_block (int k) i"
  define s1 where "s1 = s\<lparr>nr_sectors_read := nr_sectors_read s + 1\<rparr>"
  have same: "same_bio s s1"
    by (simp add: same_bio_def s1_def)
  note q = swap_blocksI [OF k i]
  have ok1: "swap_ok s1"
    using swap_ok_same [OF same] ok by simp
  then obtain xs where xs: "bcache_ok s1 xs" and sl: "sleepable s1" and idle: "idle_for swap_blocks s1"
    by (auto simp: swap_ok_def)
  have "runs (bread 0 ?b s1) (bread_post 0 ?b xs s1)"
    by (rule bread_runs [OF xs sl idle_can_bread [OF xs idle q zero_not_swap]])
  then obtain j t where br: "bread 0 ?b s1 = Ok j t" and post: "bread_post 0 ?b xs s1 j t"
    by (auto simp: runs_iff)
  note p = bread_post_fields [OF post]
  let ?v = "t\<lparr>mem := mem_write (mem s) (pa + of_nat (i * BSIZE)) (bview s (0, ?b))\<rparr>"
  have mt: "mem t = mem s" and view: "bview s1 = bview s"
    using post same_bio_props(5) [OF same] by (auto simp: bread_post_def bframe_def s1_def)
  have "same_bio t ?v"
    by (simp add: same_bio_def)
  note rel = release_after_read [OF xs post idle q zero_not_swap this]
  have eq: "swapread_blk pa (int k) False i s = brelse j ?v"
    using br p(7) mt view by (simp add: swapread_blk_def either_copyout_def s1_def)
  have "swap_ok u \<and> mem u = mem ?v \<and> swap_erase (u\<lparr>mem := mem s\<rparr>) = swap_erase s \<and>
    nr_sectors_read u = nr_sectors_read s + 1 \<and> nr_sectors_write u = nr_sectors_write s"
    if u: "\<exists>ys. bcache_ok u ys" "sleepable u" "idle_for swap_blocks u" "bio_frame ?v u"
      "\<forall>j<NBUF. b_valid (bufs u ! j) \<longrightarrow> bkey u j = (0, ?b) \<or> (b_valid (bufs s1 ! j) \<and> bkey u j = bkey s1 j)" for u
  proof -
    have e: "swap_erase (t\<lparr>mem := mem s\<rparr>) = swap_erase s" "nr_sectors_read t = nr_sectors_read s + 1"
      "nr_sectors_write t = nr_sectors_write s"
      using p(11) mt by (auto simp: bio_frame_def s1_def swap_erase_def)
    have "bio_frame s1 (u\<lparr>mem := mem s\<rparr>)"
    proof -
      have "bio_frame (?v\<lparr>mem := mem s\<rparr>) (u\<lparr>mem := mem s\<rparr>)"
        using u(4) by (rule bio_frame_mem)
      moreover have "bio_frame (s1\<lparr>mem := mem s\<rparr>) (t\<lparr>mem := mem s\<rparr>)"
        using p(11) by (rule bio_frame_mem)
      ultimately show ?thesis
        using bio_frame_trans by (simp add: s1_def)
    qed
    moreover have "same_bio u (u\<lparr>mem := mem s\<rparr>)"
      by (simp add: same_bio_def)
    note sb = same_bio_props [OF this]
    ultimately have "block_step swap_blocks (0, ?b) s1 (u\<lparr>mem := mem s\<rparr>)"
      using u unfolding block_step_def sb by simp
    then have "swap_ok (u\<lparr>mem := mem s\<rparr>)"
      by (rule swap_ok_step [OF ok1 q])
    then have "swap_ok u"
      unfolding swap_ok_def sb .
    moreover have "swap_erase (u\<lparr>mem := mem s\<rparr>) = swap_erase (t\<lparr>mem := mem s\<rparr>)" "mem u = mem ?v"
      "nr_sectors_read u = nr_sectors_read t" "nr_sectors_write u = nr_sectors_write t"
      using u(4) by (auto simp: bio_frame_def swap_erase_def)
    ultimately show ?thesis
      using e by simp
  qed
  then show ?thesis
    unfolding eq using runs_mono [OF rel] p(12) view by (auto simp: s1_def)
qed

lemma foreach_snoc:
  "runs (foreach [0..<Suc n] body s) P \<longleftrightarrow> runs (foreach [0..<n] body s) (\<lambda>_ t. runs (body n t) P)"
proof -
  have "foreach [n] body t = body n t" for t
    by (cases "body n t") auto
  then show ?thesis
    by (simp add: foreach_append)
qed

lemma swapwrite_steps:
  assumes ok: "swap_ok s" and k: "k < SWAPSLOTS" and n: "n \<le> 4"
  shows "runs (foreach [0..<n] (swapwrite_blk pa (int k) False) s) (\<lambda>_ u. swap_ok u \<and> swap_erase u = swap_erase s \<and>
    nr_sectors_write u = nr_sectors_write s + int n \<and> nr_sectors_read u = nr_sectors_read s \<and>
    (\<forall>i<n. bview u (0, swap_block (int k) i) = mem_read (mem s) (pa + of_nat (i * BSIZE)) BSIZE) \<and>
    (\<forall>j i. j < SWAPSLOTS \<longrightarrow> i < 4 \<longrightarrow> j \<noteq> k \<longrightarrow>
       bview u (0, swap_block (int j) i) = bview s (0, swap_block (int j) i)))"
  using n
proof (induction n)
  case 0
  then show ?case
    using ok by simp
next
  case (Suc n)
  let ?D = "\<lambda>i. mem_read (mem s) (pa + of_nat (i * BSIZE)) BSIZE" and ?V = "\<lambda>(u :: 'a memst_scheme) j i. bview u (0, swap_block (int j) i)"
  have "runs (swapwrite_blk pa (int k) False n t) (\<lambda>_ u. swap_ok u \<and> swap_erase u = swap_erase s \<and>
      nr_sectors_write u = nr_sectors_write s + int (Suc n) \<and> nr_sectors_read u = nr_sectors_read s \<and>
      (\<forall>i<Suc n. ?V u k i = ?D i) \<and>
      (\<forall>j i. j < SWAPSLOTS \<longrightarrow> i < 4 \<longrightarrow> j \<noteq> k \<longrightarrow> ?V u j i = ?V s j i))"
    if t: "swap_ok t" "swap_erase t = swap_erase s" "nr_sectors_write t = nr_sectors_write s + int n"
      "nr_sectors_read t = nr_sectors_read s" "\<forall>i<n. ?V t k i = ?D i"
      "\<forall>j i. j < SWAPSLOTS \<longrightarrow> i < 4 \<longrightarrow> j \<noteq> k \<longrightarrow> ?V t j i = ?V s j i" for t
  proof -
    have n4: "n < 4"
      using Suc.prems by simp
    have blocks: "(0, swap_block (int j) i) \<in> swap_blocks" "(0, swap_block (int j) i) \<noteq> (0, swap_block (int k) n)"
      if "j < SWAPSLOTS" "i < 4" "j \<noteq> k \<or> i \<noteq> n" for j i
      using that k n4 by (auto simp: swap_blocksI swap_block_inj)
    show ?thesis
    proof (rule runs_mono [OF swapwrite_blk_runs [OF t(1) k n4]], intro conjI allI impI; (elim conjE)?)
      fix u :: "'a memst_scheme" and i :: nat
      assume "i < Suc n" and u: "?V u k n = mem_read (mem t) (pa + of_nat (n * BSIZE)) BSIZE"
        "\<forall>q\<in>swap_blocks. q \<noteq> (0, swap_block (int k) n) \<longrightarrow> bview u q = bview t q"
      then show "?V u k i = ?D i"
        using blocks [OF k, of i] n4 t(5) swap_eraseD(1) [OF t(2)] by (cases "i = n") auto
    next
      fix u :: "'a memst_scheme" and j i :: nat
      assume "j < SWAPSLOTS" "i < 4" "j \<noteq> k"
        "\<forall>q\<in>swap_blocks. q \<noteq> (0, swap_block (int k) n) \<longrightarrow> bview u q = bview t q"
      then show "?V u j i = ?V s j i"
        using blocks [of j i] t(6) by auto
    qed (use t in auto)
  qed
  then show ?case
    unfolding foreach_snoc using Suc by (auto elim!: runs_mono)
qed

lemma four_blocks: "mem_read m a 4096 = concat (map (\<lambda>i. mem_read m (a + of_nat (i * BSIZE)) BSIZE) [0..<4])"
proof -
  have "mem_read m a (1024 + (1024 + (1024 + 1024))) =
      mem_read m a 1024 @ mem_read m (a + 1024) 1024 @ mem_read m (a + 2048) 1024 @ mem_read m (a + 3072) 1024"
    unfolding mem_read_append by (simp add: algebra_simps)
  then show ?thesis
    by (simp add: upt_rec)
qed

lemma swapwrite_runs:
  assumes ok: "swap_ok s" and k: "k < SWAPSLOTS"
  shows "runs (swapwrite pa (int k) False s) (\<lambda>_ u. swap_ok u \<and> swap_erase u = swap_erase s \<and>
    nr_sectors_write u = nr_sectors_write s + 4 \<and> nr_sectors_read u = nr_sectors_read s \<and>
    swap_view u k = mem_read (mem s) pa 4096 \<and> (\<forall>j<SWAPSLOTS. j \<noteq> k \<longrightarrow> swap_view u j = swap_view s j))"
proof -
  have eq: "swapwrite pa (int k) False s = foreach [0..<4] (swapwrite_blk pa (int k) False) s"
    using k by (simp add: swapwrite_def)
  have new: "swap_view u k = mem_read (mem s) pa 4096"
    if "\<forall>i<4. bview u (0, swap_block (int k) i) = mem_read (mem s) (pa + of_nat (i * BSIZE)) BSIZE"
    for u :: "'a memst_scheme"
    unfolding swap_view_def four_blocks using that by (intro arg_cong [where f = concat] map_cong) auto
  have old: "swap_view u j = swap_view s j"
    if "\<forall>i<4. bview u (0, swap_block (int j) i) = bview s (0, swap_block (int j) i)" for j and u :: "'a memst_scheme"
    unfolding swap_view_def using that by (intro arg_cong [where f = concat] map_cong) auto
  show ?thesis
    unfolding eq
    by (rule runs_mono [OF swapwrite_steps [OF ok k order.refl, of pa]], elim conjE, intro conjI allI impI)
      (blast intro: new old | simp)+
qed

lemma mem_write_append:
  assumes "length bs + length cs < 2 ^ 64"
  shows "mem_write (mem_write m a bs) (a + of_nat (length bs)) cs = mem_write m a (bs @ cs)"
proof
  fix x
  have l: "unat (of_nat (length bs) :: uint64) = length bs"
    using assms by (simp add: unat_of_nat)
  have x: "x - (a + of_nat (length bs)) = (x - a) - of_nat (length bs)"
    by (simp add: algebra_simps)
  have "unat (x - a) < length bs \<Longrightarrow> \<not> unat (x - (a + of_nat (length bs))) < length cs"
    using assms unfolding x unat_sub_if' l by auto
  moreover have "\<not> unat (x - a) < length bs \<Longrightarrow> unat (x - (a + of_nat (length bs))) = unat (x - a) - length bs"
    unfolding x unat_sub_if' l by auto
  ultimately show "mem_write (mem_write m a bs) (a + of_nat (length bs)) cs x = mem_write m a (bs @ cs) x"
    by (cases "unat (x - a) < length bs") (auto simp: mem_write_def nth_append)
qed

lemma swapread_steps:
  assumes ok: "swap_ok s" and k: "k < SWAPSLOTS" and n: "n \<le> 4"
  shows "runs (foreach [0..<n] (swapread_blk pa (int k) False) s) (\<lambda>_ u. swap_ok u \<and>
    mem u = mem_write (mem s) pa (concat (map (\<lambda>i. bview s (0, swap_block (int k) i)) [0..<n])) \<and>
    swap_erase (u\<lparr>mem := mem s\<rparr>) = swap_erase s \<and>
    nr_sectors_read u = nr_sectors_read s + int n \<and> nr_sectors_write u = nr_sectors_write s \<and>
    bview u = bview s \<and> disk u = disk s)"
  using n
proof (induction n)
  case 0
  then show ?case
    using ok by (simp add: mem_write_def)
next
  case (Suc n)
  let ?C = "\<lambda>n. concat (map (\<lambda>i. bview s (0, swap_block (int k) i)) [0..<n])"
  obtain xs where xs: "bcache_ok s xs"
    using ok by (auto simp: swap_ok_def)
  have len: "length (?C m) = m * BSIZE" for m
    by (induction m) (simp_all add: length_bview [OF xs])
  have n4: "n < 4"
    using Suc.prems by simp
  have w: "mem_write (mem_write (mem s) pa (?C n)) (pa + of_nat (n * BSIZE)) (bview s (0, swap_block (int k) n)) =
      mem_write (mem s) pa (?C (Suc n))"
    using mem_write_append [of "?C n" "bview s (0, swap_block (int k) n)" "mem s" pa] n4
    by (simp add: len length_bview [OF xs])
  have "runs (swapread_blk pa (int k) False n t) (\<lambda>_ u. swap_ok u \<and> mem u = mem_write (mem s) pa (?C (Suc n)) \<and>
      swap_erase (u\<lparr>mem := mem s\<rparr>) = swap_erase s \<and>
      nr_sectors_read u = nr_sectors_read s + int (Suc n) \<and> nr_sectors_write u = nr_sectors_write s \<and>
      bview u = bview s \<and> disk u = disk s)"
    if t: "swap_ok t" "mem t = mem_write (mem s) pa (?C n)" "swap_erase (t\<lparr>mem := mem s\<rparr>) = swap_erase s"
      "nr_sectors_read t = nr_sectors_read s + int n" "nr_sectors_write t = nr_sectors_write s"
      "bview t = bview s" "disk t = disk s" for t
  proof (rule runs_mono [OF swapread_blk_runs [OF t(1) k n4]], elim conjE)
    fix u
    assume u: "swap_ok u" "mem u = mem_write (mem t) (pa + of_nat (n * BSIZE)) (bview t (0, swap_block (int k) n))"
      "swap_erase (u\<lparr>mem := mem t\<rparr>) = swap_erase t" "nr_sectors_read u = nr_sectors_read t + 1"
      "nr_sectors_write u = nr_sectors_write t" "bview u = bview t" "disk u = disk t"
    have "swap_erase (u\<lparr>mem := mem s\<rparr>) = (swap_erase (u\<lparr>mem := mem t\<rparr>))\<lparr>mem := mem s\<rparr>"
      "swap_erase (t\<lparr>mem := mem s\<rparr>) = (swap_erase t)\<lparr>mem := mem s\<rparr>"
      by (simp_all add: swap_erase_def)
    then show "swap_ok u \<and> mem u = mem_write (mem s) pa (?C (Suc n)) \<and>
      swap_erase (u\<lparr>mem := mem s\<rparr>) = swap_erase s \<and>
      nr_sectors_read u = nr_sectors_read s + int (Suc n) \<and> nr_sectors_write u = nr_sectors_write s \<and>
      bview u = bview s \<and> disk u = disk s"
      using u t w by simp
  qed
  then show ?case
    unfolding foreach_snoc using Suc by (auto elim!: runs_mono)
qed

lemma swapread_runs:
  assumes ok: "swap_ok s" and k: "k < SWAPSLOTS"
  shows "runs (swapread pa (int k) False s) (\<lambda>_ u. swap_ok u \<and> mem u = mem_write (mem s) pa (swap_view s k) \<and>
    swap_erase (u\<lparr>mem := mem s\<rparr>) = swap_erase s \<and> nr_sectors_read u = nr_sectors_read s + 4 \<and>
    nr_sectors_write u = nr_sectors_write s \<and> swap_view u = swap_view s \<and> disk u = disk s)"
proof -
  have "swapread pa (int k) False s = foreach [0..<4] (swapread_blk pa (int k) False) s"
    using k by (simp add: swapread_def)
  then show ?thesis
    using swapread_steps [OF ok k order.refl, of pa] by (auto elim!: runs_mono simp: swap_view_def fun_eq_iff)
qed

section \<open>The slot number in a page-table entry\<close>

text \<open>
  \<^verbatim>\<open>usertrap()\<close> and \<^verbatim>\<open>uvmunmap()\<close> read the slot of a swapped-out page back from its entry with
  \<^verbatim>\<open>*pte >> 10\<close>.
\<close>

lemma bit_PTE_S: "bit PTE_S k \<longleftrightarrow> k = 9" and bit_3FF: "bit (0x3FF :: uint64) k \<longleftrightarrow> k < 10"
proof -
  show "bit PTE_S k \<longleftrightarrow> k = 9"
    using bit_flag [of 9 k] by simp
  have "(0x3FF :: uint64) = mask 10"
    by (simp add: mask_eq_exp_minus_1)
  then show "bit (0x3FF :: uint64) k \<longleftrightarrow> k < 10"
    by (simp only: bit_mask_iff) auto
qed

lemma bit_swap_pte:
  assumes "k < 64"
  shows "bit (swap_pte pte idx) k \<longleftrightarrow>
    (if 10 \<le> k then bit idx (k - 10) else k = 9 \<or> (k \<noteq> 0 \<and> bit pte k))"
proof -
  have *: "bit ((((pte AND m) OR push_bit 10 (of_nat idx)) AND NOT v) OR w) k \<longleftrightarrow>
      (if 10 \<le> k then bit idx (k - 10) else k = 9 \<or> (k \<noteq> 0 \<and> bit pte k))"
    if "\<And>j. bit m j \<longleftrightarrow> j < 10" "\<And>j. bit v j \<longleftrightarrow> j = 0" "\<And>j. bit w j \<longleftrightarrow> j = 9" for m v w :: uint64
    using assms that by (auto simp: bit_simps)
  show ?thesis
    unfolding swap_pte_def by (rule * [OF bit_3FF bit_PTE_V bit_PTE_S])
qed

lemma swap_pte_slot:
  assumes "idx < 2 ^ 54"
  shows "unat (drop_bit 10 (swap_pte pte idx)) = idx"
proof -
  have "take_bit 54 idx = idx"
    using assms by (simp add: take_bit_nat_eq_self_iff)
  then have b: "bit idx j \<Longrightarrow> j < 54" for j
    by (metis bit_take_bit_iff)
  have "drop_bit 10 (swap_pte pte idx) = of_nat idx"
  proof (rule bit_word_eqI)
    fix n assume "n < LENGTH(64)"
    then show "bit (drop_bit 10 (swap_pte pte idx)) n \<longleftrightarrow> bit (of_nat idx :: uint64) n"
      using b [of n] bit_swap_pte [of "10 + n" pte idx]
      by (cases "10 + n < 64") (auto simp: bit_drop_bit_eq bit_of_nat_iff dest: bit_imp_le_length)
  qed
  then show ?thesis
    using assms by (simp add: unat_of_nat)
qed

lemma word_bit_test: "(x AND (2 ^ n :: uint64) \<noteq> 0) \<longleftrightarrow> bit x n"
  by (simp add: bit_iff_and_push_bit_not_eq_0 flip: push_bit_of_1)

lemma swap_pte_flags:
  "swap_pte pte idx AND PTE_V = 0" "swap_pte pte idx AND PTE_S \<noteq> 0"
  "1 \<le> f \<and> f < 9 \<Longrightarrow> bit (swap_pte pte idx) f = bit pte f"
  using word_bit_test [of "swap_pte pte idx" 0] word_bit_test [of "swap_pte pte idx" 9]
    bit_swap_pte [of 0 pte idx] bit_swap_pte [of 9 pte idx] bit_swap_pte [of f pte idx]
  by auto

section \<open>Replacing a page\<close>

text \<open>The victim search looks at the memory and the descriptors only.\<close>

lemma clock_cong:
  assumes "mem t = mem s" and "pages t = pages s"
  shows "lru_mapped t xs = lru_mapped s xs" "victim_of t xs = victim_of s xs" "pte_of t i = pte_of s i" "present t i = present s i"
    "outside t xs x = outside s xs x"
proof -
  have p: "pte_of t j = pte_of s j" for j
    using assms by (simp add: pte_of_def)
  have f: "present t j = present s j" "accessed t j = accessed s j" for j
    unfolding present_def accessed_def p assms(1) by (rule refl)+
  show "lru_mapped t xs = lru_mapped s xs" "outside t xs x = outside s xs x"
    unfolding lru_mapped_def outside_def p assms by (rule refl)+
  show "victim_of t xs = victim_of s xs"
    unfolding victim_of_def f by (simp add: fun_eq_iff f)
  show "pte_of t i = pte_of s i" "present t i = present s i"
    by (rule p, rule f)
qed

lemma alloc_slot_eq:
  assumes "first_index Not (swap_bitmap s) = Some k" and "L_swap \<notin> set (held s)"
  shows "alloc_slot s = Ok (Some k) (s\<lparr>swap_bitmap := (swap_bitmap s)[k := True]\<rparr>)"
  using assms by (simp add: alloc_slot_def)

lemma mem_read_page_cong:
  assumes "page_aligned p" and "\<And>x. PGROUNDDOWN x = p \<Longrightarrow> m' x = m x"
  shows "mem_read m' p 4096 = mem_read m p 4096"
proof (rule mem_read_cong)
  fix i :: nat assume "i < 4096"
  then have "PGROUNDDOWN (p + of_nat i) = p"
    using assms(1) by (intro PGROUNDDOWN_offset) (simp_all add: unat_of_nat word_less_nat_alt)
  then show "m' (p + of_nat i) = m (p + of_nat i)"
    by (rule assms(2))
qed

definition frame_of :: "nat \<Rightarrow> uint64" where
  "frame_of p = of_nat p * PGSIZE"

lemma frame_of_aligned [simp]: "page_aligned (frame_of p)"
  unfolding page_aligned_def frame_of_def
  by (simp add: word_unat_eq_iff unat_mod unat_word_ariths unat_of_nat mod_mod_cancel mod_simps)

text \<open>
  What \<^verbatim>\<open>swap_out()\<close> does when it finds a page to replace: \<open>v\<close> is the victim, \<open>a\<close> the address of its entry, \<open>k\<close> the slot.
\<close>

definition evicted :: "nat list \<Rightarrow> nat \<Rightarrow> nat \<Rightarrow> 'a memst_scheme \<Rightarrow> 'a memst_scheme \<Rightarrow> bool" where
  "evicted xs v k s t \<longleftrightarrow>
     swap_view t k = mem_read (mem s) (frame_of v) 4096 \<and> (\<forall>j<SWAPSLOTS. j \<noteq> k \<longrightarrow> swap_view t j = swap_view s j) \<and>
     swap_bitmap t = (swap_bitmap s)[k := True] \<and>
     load64 (mem t) (the (pte_of s v)) = swap_pte (unaccessed (load64 (mem s) (the (pte_of s v)))) k \<and>
     (\<forall>x. outside s xs x \<longrightarrow> mem t x = mem s x) \<and>
     lru_list t (tl (dropWhile (\<lambda>i. i \<noteq> v) xs) @ takeWhile (\<lambda>i. i \<noteq> v) xs) \<and>
     nr_sectors_write t = nr_sectors_write s + 4 \<and> nr_sectors_read t = nr_sectors_read s \<and> held t = [] \<and> swap_ok t"

lemma split_at:
  assumes "v \<in> set xs"
  shows "xs = takeWhile (\<lambda>i. i \<noteq> v) xs @ v # tl (dropWhile (\<lambda>i. i \<noteq> v) xs)"
proof -
  have ne: "dropWhile (\<lambda>i. i \<noteq> v) xs \<noteq> []"
    using assms by (auto simp: dropWhile_eq_Nil_conv)
  then have "hd (dropWhile (\<lambda>i. i \<noteq> v) xs) = v"
    using hd_dropWhile [OF ne] by simp
  then have "dropWhile (\<lambda>i. i \<noteq> v) xs = v # tl (dropWhile (\<lambda>i. i \<noteq> v) xs)"
    using ne by (metis list.collapse)
  then show ?thesis
    using takeWhile_dropWhile_id [of "\<lambda>i. i \<noteq> v" xs] by simp
qed

lemma swap_out_runs:
  assumes ok: "swap_ok s" and l: "lru_list s xs" and m: "lru_mapped s xs" and v: "victim_of s xs = Some v"
    and n: "2 * length xs \<le> CLOCK_BOUND" and k: "first_index Not (swap_bitmap s) = Some k" "k < SWAPSLOTS"
    and sep: "\<And>x. PGROUNDDOWN x = frame_of v \<Longrightarrow> outside s xs x"
  shows "runs (swap_out s) (\<lambda>r t. r = frame_of v \<and> evicted xs v k s t)"
proof -
  define s1 where "s1 = s\<lparr>held := [L_lru]\<rparr>"
  have h: "held s = []"
    using ok by (simp add: swap_ok_def)
  have s1: "mem s1 = mem s" "pages s1 = pages s" "lru_head s1 = lru_head s" "swap_bitmap s1 = swap_bitmap s"
    by (simp_all add: s1_def)
  note cc = clock_cong [OF s1(1,2)]
  have l1: "lru_list s1 xs"
    using l lru_list_cong [OF s1(2,3)] by simp
  have "runs (clock CLOCK_BOUND (lru_head s1) s1) (\<lambda>(i, a) t. i = v \<and> pte_of s1 v = Some a \<and> clock_frame s1 xs t \<and>
      lru_mapped t xs \<and> (\<forall>j \<in> set xs. present t j = present s1 j \<and>
        accessed t j = (accessed s1 j \<and> \<not> (present s1 j \<and> j \<in> set (passed_over s1 xs)))))"
    using clock_victim [OF l1 _ _ n, of v] m v cc by simp
  then obtain a t where cl: "clock CLOCK_BOUND (lru_head s) s1 = Ok (v, a) t" "pte_of s v = Some a" "clock_frame s1 xs t"
    and fl: "\<forall>j \<in> set xs. present t j = present s1 j \<and>
        accessed t j = (accessed s1 j \<and> \<not> (present s1 j \<and> j \<in> set (passed_over s1 xs)))"
    unfolding s1 cc by (auto simp: runs_iff)
  have "victim_of s1 xs = Some v"
    using v cc by simp
  note ve = clock_victim_entry [OF this cl(3) fl]
  have la: "load64 (mem t) a = unaccessed (load64 (mem s) a)"
    using ve(3) cl(2) unfolding cc s1 by simp
  have "t\<lparr>mem := mem s1\<rparr> = s1"
    using cl(3) by (simp add: clock_frame_def)
  then have t: "t = s1\<lparr>mem := mem t\<rparr>"
    by (metis memst.surjective memst.update_convs(1))
  have tm: "mem t x = mem s x" if "outside s xs x" for x
    using cl(3) that unfolding clock_frame_def cc s1 by blast
  define t2 where "t2 = t\<lparr>swap_bitmap := (swap_bitmap s)[k := True]\<rparr>"
  have tf: "held t = [L_lru]" "swap_bitmap t = swap_bitmap s" "pages t = pages s" "lru_head t = lru_head s"
    "proc t = proc s" "cpu_proc t = cpu_proc s" "slocks t = slocks s" "bufs t = bufs s" "disk t = disk s"
    "nr_sectors_write t = nr_sectors_write s" "nr_sectors_read t = nr_sectors_read s"
    by (subst t; simp add: s1_def)+
  have al: "alloc_slot t = Ok (Some k) t2"
    using alloc_slot_eq [of t k] k(1) tf by (simp add: t2_def)
  have l2: "lru_list t2 (takeWhile (\<lambda>i. i \<noteq> v) xs @ v # tl (dropWhile (\<lambda>i. i \<noteq> v) xs))"
    unfolding split_at [OF ve(1), symmetric] using l tf lru_list_cong [of t2 s] by (simp add: t2_def)
  obtain t3 where t3: "victim_unlink v t2 = Ok () t3" "lru_frame t2 t3"
    "lru_list t3 (tl (dropWhile (\<lambda>i. i \<noteq> v) xs) @ takeWhile (\<lambda>i. i \<noteq> v) xs)"
    using victim_unlink_runs [OF l2] by (auto simp: runs_iff)
  note f3 = lru_frameD(1) [OF t3(2)]
  have e3: "mem t3 = mem t" "held t3 = [L_lru]" "swap_bitmap t3 = (swap_bitmap s)[k := True]"
    "proc t3 = proc s" "cpu_proc t3 = cpu_proc s" "slocks t3 = slocks s" "bufs t3 = bufs s" "disk t3 = disk s"
    "nr_sectors_write t3 = nr_sectors_write s" "nr_sectors_read t3 = nr_sectors_read s"
    by (subst f3; simp add: t2_def tf)+
  define t5 where "t5 = t3\<lparr>mem := store64 (mem t) a (swap_pte (load64 (mem t) a) k), held := []\<rparr>"
  have sb: "same_bio s t5"
    using e3 h by (simp add: same_bio_def t5_def)
  have e5: "swap_bitmap t5 = (swap_bitmap s)[k := True]" "held t5 = []"
    "nr_sectors_write t5 = nr_sectors_write s" "nr_sectors_read t5 = nr_sectors_read s"
    "lru_list t5 (tl (dropWhile (\<lambda>i. i \<noteq> v) xs) @ takeWhile (\<lambda>i. i \<noteq> v) xs)"
    using e3 t3(3) lru_list_cong [of t5 t3]
    by (simp_all add: t5_def)
  have m5: "mem t5 x = mem s x" if "outside s xs x" for x
    using tm [OF that] that ve(1) cl(2) by (simp add: t5_def store64_def outside_def)
  have rd: "mem_read (mem t5) (frame_of v) 4096 = mem_read (mem s) (frame_of v) 4096"
    by (rule mem_read_page_cong) (use m5 sep in auto)
  have "lru_head s \<noteq> None"
    using l ve(1) by (auto simp: lru_list_def split: list.splits)
  then obtain hd where hd: "lru_head s = Some hd"
    by blast
  have eq: "swap_out s = andThen (swapwrite (frame_of v) (int k) False t5) (\<lambda>_ s. Ok (frame_of v) s)"
    using cl(1) al t3(1) e3 hd h s1(3)
    by (simp add: swap_out_def s1_def [symmetric] Let_def t5_def frame_of_def)
  have ok5: "swap_ok t5" and v5: "swap_view t5 = swap_view s"
    using swap_ok_same [OF sb] ok by simp_all
  have "evicted xs v k s u"
    if u: "swap_ok u" "swap_erase u = swap_erase t5" "nr_sectors_write u = nr_sectors_write t5 + 4"
      "nr_sectors_read u = nr_sectors_read t5" "swap_view u k = mem_read (mem t5) (frame_of v) 4096"
      "\<forall>j<SWAPSLOTS. j \<noteq> k \<longrightarrow> swap_view u j = swap_view t5 j" for u
  proof -
    note se = swap_eraseD [OF u(2)]
    have "load64 (mem u) a = swap_pte (unaccessed (load64 (mem s) a)) k"
      using se(1) la by (simp add: t5_def)
    moreover have "lru_list u ys = lru_list t5 ys" for ys
      using se by (intro lru_list_cong)
    ultimately show ?thesis
      unfolding evicted_def using u se e5 rd m5 cl(2) v5 by simp
  qed
  note ev = this
  show ?thesis
    unfolding eq runs_andThen
    by (rule runs_mono [OF swapwrite_runs [OF ok5 k(2), of "frame_of v"]], elim conjE) (simp add: ev)
qed

section \<open>Properties\<close>

lemma swap_ok_fresh:
  assumes "bcache_ok s xs" and "sleepable s" and "\<And>i. i < NBUF \<Longrightarrow> bkey s i = (0, 0)"
  shows "swap_ok s"
proof -
  have b: "\<not> b_valid (bufs s ! i) \<and> b_refcnt (bufs s ! i) = 0" if "i < NBUF" for i
    using bcache_okD(3) [OF assms(1)] assms(3) that by (auto simp: buf_ok_def)
  have "idle_for swap_blocks s"
    unfolding idle_for_def using b by (auto intro: exI [of _ 0])
  moreover have "unshared q s" for q
    unfolding unshared_def using b by auto
  ultimately show ?thesis
    using assms(1,2) by (auto simp: swap_ok_def)
qed

lemma mem_boot_swap_ok: "swap_ok (mem_boot m f ps h e z)"
  unfolding mem_boot_def by (rule swap_ok_fresh [OF bio_boot_ok bio_boot_sleepable bio_boot_keys])

text \<open>
  C17. The swap area keeps pages: what \<^verbatim>\<open>swapwrite()\<close> has stored from a frame, \<^verbatim>\<open>swapread()\<close> of the same slot brings
  back into any frame; four sectors are counted each way, all other slots and all other memory are unchanged.
\<close>

theorem swap_area_roundtrip:
  assumes "swap_ok s" and "k < SWAPSLOTS"
  shows "\<exists>t u. swapwrite pa (int k) False s = Ok () t \<and> swapread pa' (int k) False t = Ok () u \<and>
    mem u = mem_write (mem s) pa' (mem_read (mem s) pa 4096) \<and> mem_read (mem u) pa' 4096 = mem_read (mem s) pa 4096 \<and>
    (\<forall>j<SWAPSLOTS. j \<noteq> k \<longrightarrow> swap_view u j = swap_view s j) \<and>
    nr_sectors_write u = nr_sectors_write s + 4 \<and> nr_sectors_read u = nr_sectors_read s + 4 \<and> swap_ok u"
proof -
  obtain t where t: "swapwrite pa (int k) False s = Ok () t" "swap_ok t" "swap_erase t = swap_erase s"
    "nr_sectors_write t = nr_sectors_write s + 4" "nr_sectors_read t = nr_sectors_read s"
    "swap_view t k = mem_read (mem s) pa 4096" "\<forall>j<SWAPSLOTS. j \<noteq> k \<longrightarrow> swap_view t j = swap_view s j"
    using swapwrite_runs [OF assms, of pa] by (auto simp: runs_iff)
  obtain u where u: "swapread pa' (int k) False t = Ok () u" "swap_ok u" "mem u = mem_write (mem t) pa' (swap_view t k)"
    "nr_sectors_read u = nr_sectors_read t + 4" "nr_sectors_write u = nr_sectors_write t" "swap_view u = swap_view t"
    using swapread_runs [OF t(2) assms(2), of pa'] by (auto simp: runs_iff)
  have m: "mem u = mem_write (mem s) pa' (mem_read (mem s) pa 4096)"
    using u(3) t(6) swap_eraseD(1) [OF t(3)] by simp
  then have "mem_read (mem u) pa' 4096 = mem_read (mem s) pa 4096"
    using mem_read_write_same [of "mem_read (mem s) pa 4096" "mem s" pa'] by simp
  then show ?thesis
    using t u m by auto
qed

theorem swap_area_roundtrip_witness:
  "\<exists>t u. swapwrite 0x80004000 6999 False two_pages = Ok () t \<and> swapread 0x80006000 6999 False t = Ok () u \<and>
     mem_read (mem u) 0x80006000 4096 = mem_read two_page_memory 0x80004000 4096"
proof -
  have ok: "swap_ok two_pages"
    unfolding two_pages_def by (rule mem_boot_swap_ok)
  show ?thesis
    using swap_area_roundtrip [OF ok, of 6999 "0x80004000" "0x80006000"] by auto
qed


text \<open>The two pages again, with their descriptors where the frames say.\<close>

definition two_frames :: memst where
  "two_frames = mem_boot two_page_memory 0
     (\<lambda>i. if i = 0x80004 then \<lparr>pg_next = Some 0x80005, pg_prev = Some 0x80005, pg_pagetable = 0x80001000, pg_vaddr = 0x1000\<rparr>
          else if i = 0x80005 then \<lparr>pg_next = Some 0x80004, pg_prev = Some 0x80004, pg_pagetable = 0x80001000, pg_vaddr = 0x2000\<rparr>
          else no_page)
     (Some 0x80004) 0x80000000 ()"

lemma two_frames_fields [simp]:
  "mem two_frames = two_page_memory" "lru_head two_frames = Some 0x80004"
  "pages two_frames 0x80004 = \<lparr>pg_next = Some 0x80005, pg_prev = Some 0x80005, pg_pagetable = 0x80001000, pg_vaddr = 0x1000\<rparr>"
  "pages two_frames 0x80005 = \<lparr>pg_next = Some 0x80004, pg_prev = Some 0x80004, pg_pagetable = 0x80001000, pg_vaddr = 0x2000\<rparr>"
  "i \<noteq> 0x80004 \<Longrightarrow> i \<noteq> 0x80005 \<Longrightarrow> pages two_frames i = no_page"
  "swap_bitmap two_frames = replicate SWAPSLOTS False"
  by (simp_all add: two_frames_def)

lemma two_frames_flags:
  "pte_of two_frames 0x80004 = Some 0x80003008" "pte_of two_frames 0x80005 = Some 0x80003010"
  "present two_frames 0x80004" "present two_frames 0x80005" "accessed two_frames 0x80004" "\<not> accessed two_frames 0x80005"
  by (simp_all add: present_def accessed_def pte_of_def two_page_walk two_page_tables)
    (simp_all add: PA2PTE_def)

lemma two_frames_list: "lru_list two_frames [0x80004, 0x80005]" and two_frames_mapped: "lru_mapped two_frames [0x80004, 0x80005]"
  by (auto simp: lru_list_def ring_Cons lru_mapped_def two_frames_flags page_aligned_def no_page_def)

lemma two_frames_outside:
  assumes "PGROUNDDOWN x = 0x80005000"
  shows "outside two_frames [0x80004, 0x80005] x"
proof -
  have "unat x - unat x mod 4096 = 0x80005000"
    using assms unat_PGROUNDDOWN [of x] by simp
  then have x: "0x80005000 \<le> unat x"
    by linarith
  have "\<not> x - a < 8" if "a = 0x80003008 \<or> a = 0x80003010" for a
  proof -
    have "a \<le> x" "unat a \<le> 0x80003010"
      using that x by (auto simp: word_le_nat_alt)
    then have "unat (x - a) = unat x - unat a"
      by (simp add: unat_sub)
    then show ?thesis
      using x \<open>unat a \<le> 0x80003010\<close> by (simp add: word_less_nat_alt)
  qed
  then show ?thesis
    by (simp add: outside_def two_frames_flags)
qed


end
