(* ===== verification/Vm.thy ===== *)
theory Vm
  imports Swap
begin

text \<open>
  Page tables (\<^verbatim>\<open>kernel/vm.c\<close>): finding and creating entries, mapping and unmapping ranges, growing,
  shrinking, copying and freeing the memory of a process, and the kernel's own table.

  A page table is the physical address of its root page; entries are read and written in the
  byte-addressed memory.  An access outside an array, which C leaves undefined, is
  \<open>Panic ''undefined''\<close>.
\<close>

section \<open>Model\<close>

subsection \<open>Entries\<close>

fun walk_alloc :: "nat \<Rightarrow> uint64 \<Rightarrow> uint64 \<Rightarrow> 'a memst_scheme \<Rightarrow> ('a memst_scheme, uint64 option) outcome" where
  "walk_alloc 0 pagetable va s = Ok (Some (slot pagetable (PX 0 va))) s"
| "walk_alloc (Suc level) pagetable va s =
     (let pte = slot pagetable (PX (Suc level) va) in
      if load64 (mem s) pte AND PTE_V \<noteq> 0 then walk_alloc level (PTE2PA (load64 (mem s) pte)) va s
      else andThen (kalloc s) (\<lambda>pt s.
        if pt = 0 then Ok None s
        else let m = memset (mem s) pt 0 4096;
                 m = store64 m pte (PA2PTE pt OR PTE_V) in
             walk_alloc level pt va (s\<lparr>mem := m\<rparr>)))"

definition walk ::
  "uint64 \<Rightarrow> uint64 \<Rightarrow> bool \<Rightarrow> 'a memst_scheme \<Rightarrow> ('a memst_scheme, uint64 option) outcome" where
  "walk pagetable va alloc s =
     (if MAXVA \<le> va then Panic ''walk''
      else if alloc then walk_alloc 2 pagetable va s
      else Ok (walk_lookup (mem s) pagetable va) s)"

lemma walk_below: "walk pt va alloc s = Ok x t \<Longrightarrow> va < MAXVA"
  by (auto simp: walk_def not_le split: if_splits)

lemma next_page_decreases:
  assumes "a < (MAXVA :: uint64)"
  shows "2 ^ 64 - unat (a + 4096) < 2 ^ 64 - unat a"
proof -
  have "unat a < 0x4000000000"
    using assms by (simp add: word_less_nat_alt)
  then have "unat (a + 4096) = unat a + 4096"
    by (subst unat_plus_if') simp
  then show ?thesis
    using \<open>unat a < 0x4000000000\<close> by simp
qed

text \<open>The loop of \<^verbatim>\<open>mappages()\<close>; its result is the last physical address, or none where \<^verbatim>\<open>walk()\<close> failed.\<close>

function mappages_loop ::
  "uint64 \<Rightarrow> uint64 \<Rightarrow> uint64 \<Rightarrow> uint64 \<Rightarrow> uint64 \<Rightarrow> 'a memst_scheme \<Rightarrow> ('a memst_scheme, uint64 option) outcome" where
  "mappages_loop pagetable a lastva pa perm s =
     andThen (walk pagetable a True s) (\<lambda>r s.
     case r of
       None \<Rightarrow> Ok None s
     | Some pte \<Rightarrow>
         if load64 (mem s) pte AND PTE_V \<noteq> 0 then Panic ''mappages: remap''
         else let s = s\<lparr>mem := store64 (mem s) pte (PA2PTE pa OR perm OR PTE_V)\<rparr> in
           if a = lastva then Ok (Some pa) s
           else mappages_loop pagetable (a + PGSIZE) lastva (pa + PGSIZE) perm s)"
  by auto
termination
  by (relation "measure (\<lambda>(pt, a, lastva, pa, perm, s). 2 ^ 64 - unat a)")
    (auto dest!: walk_below next_page_decreases)

definition mappages ::
  "uint64 \<Rightarrow> uint64 \<Rightarrow> uint64 \<Rightarrow> uint64 \<Rightarrow> uint64 \<Rightarrow> 'a memst_scheme \<Rightarrow> ('a memst_scheme, bool) outcome" where
  "mappages pagetable va sz pa perm s =
     (if va mod PGSIZE \<noteq> 0 then Panic ''mappages: va not aligned''
      else if sz mod PGSIZE \<noteq> 0 then Panic ''mappages: size not aligned''
      else if sz = 0 then Panic ''mappages: size''
      else andThen (mappages_loop pagetable va (va + sz - PGSIZE) pa perm s) (\<lambda>r s.
        case r of
          None \<Rightarrow> Ok False s
        | Some pa \<Rightarrow>
            if perm AND PTE_U \<noteq> 0 then
              andThen (lru_add pa
                 (upd_page (page_index pa) (\<lambda>g. g\<lparr>pg_pagetable := pagetable, pg_vaddr := va\<rparr>) s))
                (\<lambda>_ s. Ok True s)
            else Ok True s))"

definition swap_idx :: "uint64 \<Rightarrow> nat" where
  "swap_idx pte = unat (ucast (drop_bit 10 pte) :: uint32)"

text \<open>\<^verbatim>\<open>swap_bitmap[swap_idx] = 0\<close> under \<^verbatim>\<open>swap_lock\<close>\<close>

definition free_slot :: "nat \<Rightarrow> 'a memst_scheme \<Rightarrow> ('a memst_scheme, unit) outcome" where
  "free_slot k s =
     andThen (acquire L_swap s) (\<lambda>_ s.
     if k < length (swap_bitmap s) then release L_swap (s\<lparr>swap_bitmap := (swap_bitmap s)[k := False]\<rparr>)
     else Panic ''undefined'')"

definition uvmunmap_page ::
  "uint64 \<Rightarrow> uint64 \<Rightarrow> bool \<Rightarrow> 'a memst_scheme \<Rightarrow> ('a memst_scheme, unit) outcome" where
  "uvmunmap_page pagetable a do_free s =
     andThen (walk pagetable a False s) (\<lambda>r s.
     case r of
       None \<Rightarrow> Panic ''uvmunmap: walk''
     | Some p \<Rightarrow>
         let pte = load64 (mem s) p in
         if pte AND PTE_V = 0 then
           if pte AND PTE_S \<noteq> 0 then
             andThen (if do_free then free_slot (swap_idx pte) s else Ok () s) (\<lambda>_ s.
             Ok () (s\<lparr>mem := store64 (mem s) p 0\<rparr>))
           else Ok () s
         else if PTE_FLAGS pte = PTE_V then Panic ''uvmunmap: not a leaf''
         else
           andThen (if do_free then andThen (lru_remove (PTE2PA pte) s) (\<lambda>_ s. kfree (PTE2PA pte) s)
                    else Ok () s) (\<lambda>_ s.
           Ok () (s\<lparr>mem := store64 (mem s) p 0\<rparr>)))"

lemma uvmunmap_page_below: "uvmunmap_page pt a do_free s = Ok x t \<Longrightarrow> a < MAXVA"
  by (auto simp: uvmunmap_page_def dest: walk_below)

function uvmunmap_loop ::
  "uint64 \<Rightarrow> uint64 \<Rightarrow> uint64 \<Rightarrow> bool \<Rightarrow> 'a memst_scheme \<Rightarrow> ('a memst_scheme, unit) outcome" where
  "uvmunmap_loop pagetable a stop do_free s =
     (if a < stop then
        andThen (uvmunmap_page pagetable a do_free s) (\<lambda>_ s.
        uvmunmap_loop pagetable (a + PGSIZE) stop do_free s)
      else Ok () s)"
  by auto
termination
  by (relation "measure (\<lambda>(pt, a, stop, f, s). 2 ^ 64 - unat a)")
    (auto dest!: uvmunmap_page_below next_page_decreases)

definition uvmunmap ::
  "uint64 \<Rightarrow> uint64 \<Rightarrow> uint64 \<Rightarrow> bool \<Rightarrow> 'a memst_scheme \<Rightarrow> ('a memst_scheme, unit) outcome" where
  "uvmunmap pagetable va npages do_free s =
     (if va mod PGSIZE \<noteq> 0 then Panic ''uvmunmap: not aligned''
      else uvmunmap_loop pagetable va (va + npages * PGSIZE) do_free s)"

subsection \<open>User memory\<close>

definition uvmcreate :: "'a memst_scheme \<Rightarrow> ('a memst_scheme, uint64) outcome" where
  "uvmcreate s =
     andThen (kalloc s) (\<lambda>pt s. if pt = 0 then Ok 0 s else Ok pt (s\<lparr>mem := memset (mem s) pt 0 4096\<rparr>))"

definition uvmfirst :: "uint64 \<Rightarrow> byte list \<Rightarrow> 'a memst_scheme \<Rightarrow> ('a memst_scheme, unit) outcome" where
  "uvmfirst pagetable src s =
     (if 4096 \<le> length src then Panic ''uvmfirst: more than a page''
      else andThen (kalloc s) (\<lambda>p s.
        if p = 0 then Panic ''kerneltrap''
        else
          andThen (mappages pagetable 0 PGSIZE p (PTE_W OR PTE_R OR PTE_X OR PTE_U)
                    (s\<lparr>mem := memset (mem s) p 0 4096\<rparr>)) (\<lambda>_ s.
          Ok () (s\<lparr>mem := mem_write (mem s) p src\<rparr>))))"

text \<open>\<^verbatim>\<open>int npages\<close>, passed on as an unsigned 64-bit number.\<close>

definition int_of_npages :: "uint64 \<Rightarrow> uint64" where
  "int_of_npages n = scast (ucast n :: uint32)"

definition uvmdealloc ::
  "uint64 \<Rightarrow> uint64 \<Rightarrow> uint64 \<Rightarrow> 'a memst_scheme \<Rightarrow> ('a memst_scheme, uint64) outcome" where
  "uvmdealloc pagetable oldsz newsz s =
     (if oldsz \<le> newsz then Ok oldsz s
      else andThen
        (if PGROUNDUP newsz < PGROUNDUP oldsz
         then uvmunmap pagetable (PGROUNDUP newsz)
                (int_of_npages ((PGROUNDUP oldsz - PGROUNDUP newsz) div PGSIZE)) True s
         else Ok () s)
        (\<lambda>_ s. Ok newsz s))"

lemma mappages_below: "mappages pt va sz pa perm s = Ok x t \<Longrightarrow> va < MAXVA"
  by (auto simp: mappages_def mappages_loop.simps [of pt va] split: if_splits dest: walk_below)

text \<open>The loop of \<^verbatim>\<open>uvmalloc()\<close>: whether all pages up to \<open>newsz\<close> could be mapped.\<close>

function uvmalloc_loop ::
  "uint64 \<Rightarrow> uint64 \<Rightarrow> uint64 \<Rightarrow> uint64 \<Rightarrow> uint64 \<Rightarrow> 'a memst_scheme \<Rightarrow> ('a memst_scheme, bool) outcome" where
  "uvmalloc_loop pagetable a oldsz newsz xperm s =
     (if a < newsz then
        andThen (kalloc s) (\<lambda>p s.
        if p = 0 then andThen (uvmdealloc pagetable a oldsz s) (\<lambda>_ s. Ok False s)
        else
          andThen (mappages pagetable a PGSIZE p (PTE_R OR PTE_U OR xperm)
                     (s\<lparr>mem := memset (mem s) p 0 4096\<rparr>)) (\<lambda>ok s.
          if \<not> ok then
            andThen (kfree p s) (\<lambda>_ s.
            andThen (uvmdealloc pagetable a oldsz s) (\<lambda>_ s. Ok False s))
          else uvmalloc_loop pagetable (a + PGSIZE) oldsz newsz xperm s))
      else Ok True s)"
  by auto
termination
  by (relation "measure (\<lambda>(pt, a, old, new, x, s). 2 ^ 64 - unat a)")
    (auto dest!: mappages_below next_page_decreases)

definition uvmalloc ::
  "uint64 \<Rightarrow> uint64 \<Rightarrow> uint64 \<Rightarrow> uint64 \<Rightarrow> 'a memst_scheme \<Rightarrow> ('a memst_scheme, uint64) outcome" where
  "uvmalloc pagetable oldsz newsz xperm s =
     (if newsz < oldsz then Ok oldsz s
      else
        let oldsz = PGROUNDUP oldsz in
        andThen (uvmalloc_loop pagetable oldsz oldsz newsz xperm s) (\<lambda>ok s.
        Ok (if ok then newsz else 0) s))"

text \<open>
  \<^verbatim>\<open>freewalk()\<close>.  The bound is one more than the number of page frames an entry can name: a
  recursion that is deeper meets one of its own pages again and never ends.
\<close>

abbreviation (input) FREEWALK_BOUND :: nat where "FREEWALK_BOUND \<equiv> 17592186044417"

primrec freewalk_bounded :: "nat \<Rightarrow> uint64 \<Rightarrow> 'a memst_scheme \<Rightarrow> ('a memst_scheme, unit) outcome" where
  "freewalk_bounded 0 pagetable s = Spin"
| "freewalk_bounded (Suc n) pagetable s =
     andThen
       (foreach [0..<512] (\<lambda>i s.
          let p = slot pagetable (of_nat i); pte = load64 (mem s) p in
          if pte AND PTE_V \<noteq> 0 \<and> pte AND (PTE_R OR PTE_W OR PTE_X) = 0 then
            andThen (freewalk_bounded n (PTE2PA pte) s) (\<lambda>_ s. Ok () (s\<lparr>mem := store64 (mem s) p 0\<rparr>))
          else if pte AND PTE_V \<noteq> 0 then Panic ''freewalk: leaf''
          else Ok () s) s)
       (\<lambda>_ s. kfree pagetable s)"

definition freewalk :: "uint64 \<Rightarrow> 'a memst_scheme \<Rightarrow> ('a memst_scheme, unit) outcome" where
  "freewalk pagetable s = freewalk_bounded FREEWALK_BOUND pagetable s"

definition uvmfree :: "uint64 \<Rightarrow> uint64 \<Rightarrow> 'a memst_scheme \<Rightarrow> ('a memst_scheme, unit) outcome" where
  "uvmfree pagetable sz s =
     andThen (if sz > 0 then uvmunmap pagetable 0 (PGROUNDUP sz div PGSIZE) True s else Ok () s)
       (\<lambda>_ s. freewalk pagetable s)"

text \<open>
  A page comes back from the swap area: the steps that \<^verbatim>\<open>uvmcopy()\<close> and \<^verbatim>\<open>usertrap()\<close> share.  \<open>p\<close> is the
  address of its entry, \<open>pa\<close> the frame it gets, \<open>extra\<close> the flags set beside \<^verbatim>\<open>PTE_V\<close>.
\<close>

definition restored_flags :: "uint64 \<Rightarrow> uint64 \<Rightarrow> uint64" where
  "restored_flags pte extra = (PTE_FLAGS pte AND NOT PTE_S) OR PTE_V OR extra"

definition swap_in ::
  "uint64 \<Rightarrow> uint64 \<Rightarrow> uint64 \<Rightarrow> uint64 \<Rightarrow> uint64 \<Rightarrow> 'a memst_scheme \<Rightarrow> ('a memst_scheme, uint64) outcome" where
  "swap_in pagetable va p pa extra s =
     (let idx = swap_idx (load64 (mem s) p) in
      andThen (swapread pa (sint (word_of_nat idx :: uint32)) False s) (\<lambda>_ s.
      andThen (free_slot idx s) (\<lambda>_ s.
      let flags = restored_flags (load64 (mem s) p) extra;
          s = s\<lparr>mem := store64 (mem s) p (PA2PTE pa OR flags)\<rparr> in
      andThen (lru_add pa (upd_page (page_index pa) (\<lambda>g. g\<lparr>pg_pagetable := pagetable, pg_vaddr := va\<rparr>) s))
        (\<lambda>_ s. Ok flags s))))"

text \<open>The page at \<open>i\<close> of the child; \<open>False\<close> is \<^verbatim>\<open>goto err\<close>.\<close>

definition uvmcopy_child ::
  "uint64 \<Rightarrow> uint64 \<Rightarrow> uint64 \<Rightarrow> uint64 \<Rightarrow> 'a memst_scheme \<Rightarrow> ('a memst_scheme, bool) outcome" where
  "uvmcopy_child new i pa flags s =
     andThen (kalloc s) (\<lambda>m s.
     if m = 0 then Ok False s
     else
       andThen (mappages new i PGSIZE m flags (s\<lparr>mem := memmove (mem s) m pa 4096\<rparr>)) (\<lambda>ok s.
       if ok then Ok True s else andThen (kfree m s) (\<lambda>_ s. Ok False s)))"

definition uvmcopy_page ::
  "uint64 \<Rightarrow> uint64 \<Rightarrow> uint64 \<Rightarrow> 'a memst_scheme \<Rightarrow> ('a memst_scheme, bool) outcome" where
  "uvmcopy_page old new i s =
     andThen (walk old i False s) (\<lambda>r s.
     case r of
       None \<Rightarrow> Panic ''uvmcopy: pte should exist''
     | Some p \<Rightarrow>
         if load64 (mem s) p AND PTE_V = 0 then
           if load64 (mem s) p AND PTE_S \<noteq> 0 then
             andThen (kalloc s) (\<lambda>parent s.
             if parent = 0 then Ok False s
             else andThen (swap_in old i p parent PTE_A s) (\<lambda>flags s. uvmcopy_child new i parent flags s))
           else Panic ''uvmcopy: page not present''
         else uvmcopy_child new i (PTE2PA (load64 (mem s) p)) (PTE_FLAGS (load64 (mem s) p)) s)"

lemma uvmcopy_page_below: "uvmcopy_page old new i s = Ok x t \<Longrightarrow> i < MAXVA"
  by (auto simp: uvmcopy_page_def dest: walk_below)

function uvmcopy_loop ::
  "uint64 \<Rightarrow> uint64 \<Rightarrow> uint64 \<Rightarrow> uint64 \<Rightarrow> 'a memst_scheme \<Rightarrow> ('a memst_scheme, bool) outcome" where
  "uvmcopy_loop old new i sz s =
     (if i < sz then
        andThen (uvmcopy_page old new i s) (\<lambda>ok s.
        if ok then uvmcopy_loop old new (i + PGSIZE) sz s
        else andThen (uvmunmap new 0 (i div PGSIZE) True s) (\<lambda>_ s. Ok False s))
      else Ok True s)"
  by auto
termination
  by (relation "measure (\<lambda>(old, new, i, sz, s). 2 ^ 64 - unat i)")
    (auto dest!: uvmcopy_page_below next_page_decreases)

definition uvmcopy ::
  "uint64 \<Rightarrow> uint64 \<Rightarrow> uint64 \<Rightarrow> 'a memst_scheme \<Rightarrow> ('a memst_scheme, bool) outcome" where
  "uvmcopy old new sz s = uvmcopy_loop old new 0 sz s"

definition uvmclear :: "uint64 \<Rightarrow> uint64 \<Rightarrow> 'a memst_scheme \<Rightarrow> ('a memst_scheme, unit) outcome" where
  "uvmclear pagetable va s =
     andThen (walk pagetable va False s) (\<lambda>r s.
     case r of
       None \<Rightarrow> Panic ''uvmclear''
     | Some p \<Rightarrow> Ok () (s\<lparr>mem := store64 (mem s) p (load64 (mem s) p AND NOT PTE_U)\<rparr>))"

subsection \<open>The kernel's page table\<close>

definition kvmmap ::
  "uint64 \<Rightarrow> uint64 \<Rightarrow> uint64 \<Rightarrow> uint64 \<Rightarrow> uint64 \<Rightarrow> 'a memst_scheme \<Rightarrow> ('a memst_scheme, unit) outcome" where
  "kvmmap kpgtbl va pa sz perm s =
     andThen (mappages kpgtbl va sz pa perm s) (\<lambda>ok s. if ok then Ok () s else Panic ''kvmmap'')"

definition proc_mapstacks :: "uint64 \<Rightarrow> 'a memst_scheme \<Rightarrow> ('a memst_scheme, unit) outcome" where
  "proc_mapstacks kpgtbl s =
     foreach [0..<NPROC] (\<lambda>p s.
       andThen (kalloc s) (\<lambda>pa s.
       if pa = 0 then Panic ''kalloc''
       else kvmmap kpgtbl (KSTACK p) pa PGSIZE (PTE_R OR PTE_W) s)) s"

abbreviation (input) UART0 :: uint64 where "UART0 \<equiv> 0x10000000"
abbreviation (input) VIRTIO0 :: uint64 where "VIRTIO0 \<equiv> 0x10001000"
abbreviation (input) PLIC :: uint64 where "PLIC \<equiv> 0x0c000000"

text \<open>\<open>etext\<close> and \<open>trampoline\<close> are symbols of the linker.\<close>

definition kvmmake :: "uint64 \<Rightarrow> uint64 \<Rightarrow> 'a memst_scheme \<Rightarrow> ('a memst_scheme, uint64) outcome" where
  "kvmmake etext trampoline s =
     andThen (kalloc s) (\<lambda>k s.
     if k = 0 then Panic ''kerneltrap''
     else
       andThen (kvmmap k UART0 UART0 PGSIZE (PTE_R OR PTE_W) (s\<lparr>mem := memset (mem s) k 0 4096\<rparr>)) (\<lambda>_ s.
       andThen (kvmmap k VIRTIO0 VIRTIO0 PGSIZE (PTE_R OR PTE_W) s) (\<lambda>_ s.
       andThen (kvmmap k PLIC PLIC 0x4000000 (PTE_R OR PTE_W) s) (\<lambda>_ s.
       andThen (kvmmap k KERNBASE KERNBASE (etext - KERNBASE) (PTE_R OR PTE_X) s) (\<lambda>_ s.
       andThen (kvmmap k etext etext (PHYSTOP - etext) (PTE_R OR PTE_W) s) (\<lambda>_ s.
       andThen (kvmmap k TRAMPOLINE trampoline PGSIZE (PTE_R OR PTE_X) s) (\<lambda>_ s.
       andThen (proc_mapstacks k s) (\<lambda>_ s. Ok k s))))))))"

declare mappages_loop.simps [simp del] uvmunmap_loop.simps [simp del] uvmalloc_loop.simps [simp del]
  uvmcopy_loop.simps [simp del]

section \<open>Bringing a page back\<close>

lemma swap_idx_swap_pte: "k < SWAPSLOTS \<Longrightarrow> swap_idx (swap_pte pte k) = k"
  using swap_pte_slot [of k pte] by (simp add: swap_idx_def unsigned_ucast_eq take_bit_eq_mod)

lemma restored_flags_swap_pte:
  assumes "pte AND PTE_V \<noteq> 0" and "pte AND PTE_S = 0"
  shows "restored_flags (swap_pte pte k) 0 = PTE_FLAGS pte"
proof -
  have v: "bit pte 0" and s: "\<not> bit pte 9"
    using assms word_bit_test [of pte 0] word_bit_test [of pte 9] by simp_all
  have *: "((swap_pte pte k AND f) AND NOT sb) OR vb OR 0 = pte AND f"
    if "\<And>j. bit f j \<longleftrightarrow> j < 10" "\<And>j. bit vb j \<longleftrightarrow> j = 0" "\<And>j. bit sb j \<longleftrightarrow> j = 9" for f vb sb :: uint64
  proof (rule bit_word_eqI)
    fix n assume "n < LENGTH(64)"
    then show "bit (((swap_pte pte k AND f) AND NOT sb) OR vb OR 0) n \<longleftrightarrow> bit (pte AND f) n"
      using v s that bit_swap_pte [of n pte k] by (auto simp: bit_simps)
  qed
  show ?thesis
    unfolding restored_flags_def PTE_FLAGS_def by (rule * [OF bit_3FF bit_PTE_V bit_PTE_S])
qed

lemma free_slot_eq:
  "k < length (swap_bitmap s) \<Longrightarrow> L_swap \<notin> set (held s) \<Longrightarrow>
   free_slot k s = Ok () (s\<lparr>swap_bitmap := (swap_bitmap s)[k := False]\<rparr>)"
  by (simp add: free_slot_def)

lemma entry_in_page:
  assumes "p mod 8 = 0" and "d < (8 :: uint64)"
  shows "PGROUNDDOWN (p + d) = PGROUNDDOWN p"
proof -
  have p: "unat p mod 8 = 0"
    using assms(1) by (simp add: word_unat_eq_iff unat_mod)
  have d: "unat d < 8"
    using assms(2) by (simp add: word_less_nat_alt)
  have "unat p < 2 ^ LENGTH(64)"
    by (rule unsigned_less)
  then have "unat p + unat d < 2 ^ 64"
    using p d by (auto elim!: evenE simp: mod_eq_0_iff_dvd dvd_def)
  then have u: "unat (p + d) = unat p + unat d"
    by (simp add: unat_plus_if')
  have "(unat p + unat d) div 4096 = unat p div 4096"
    using p d by (auto simp: mod_eq_0_iff_dvd dvd_def)
  then have "unat (PGROUNDDOWN (p + d)) = unat (PGROUNDDOWN p)"
    unfolding unat_PGROUNDDOWN u by (simp add: minus_mod_eq_div_mult)
  then show ?thesis
    by (simp add: word_unat_eq_iff)
qed

lemma load64_entry_cong:
  assumes "p mod 8 = 0" and "\<And>x. PGROUNDDOWN x = PGROUNDDOWN p \<Longrightarrow> m' x = m x"
  shows "load64 m' p = load64 m p"
  by (rule load64_cong) (simp add: assms entry_in_page)

lemma store64_entry_other:
  assumes "p mod 8 = 0" and "PGROUNDDOWN x \<noteq> PGROUNDDOWN p"
  shows "store64 m p v x = m x"
proof -
  have "\<not> x - p < 8"
    using entry_in_page [OF assms(1), of "x - p"] assms(2) by auto
  then show ?thesis
    by (simp add: store64_def)
qed

lemma mem_write_page:
  assumes "page_aligned pa" and "length bs = 4096" and "PGROUNDDOWN x \<noteq> pa"
  shows "mem_write m pa bs x = m x"
proof (rule mem_write_other)
  fix i assume "i < length bs"
  then have "PGROUNDDOWN (pa + of_nat i) = pa"
    using assms(1,2) by (intro PGROUNDDOWN_offset) (simp_all add: word_less_nat_alt unat_of_nat)
  then show "x \<noteq> pa + of_nat i"
    using assms(3) by auto
qed

lemma sint_slot: "k < SWAPSLOTS \<Longrightarrow> sint (word_of_nat k :: uint32) = int k"
  by (simp add: signed_of_nat signed_take_bit_int_eq_self)

lemma swap_in_runs:
  assumes ok: "swap_ok s" and l: "lru_list s xs" and n: "page_index pa \<notin> set xs" and pa: "page_aligned pa"
    and k: "swap_idx (load64 (mem s) p) = k" "k < SWAPSLOTS" "k < length (swap_bitmap s)"
    and p: "p mod 8 = 0" "PGROUNDDOWN p \<noteq> pa"
  shows "runs (swap_in pagetable va p pa extra s) (\<lambda>f t. f = restored_flags (load64 (mem s) p) extra \<and>
    mem_read (mem t) pa 4096 = swap_view s k \<and> load64 (mem t) p = PA2PTE pa OR f \<and>
    swap_bitmap t = (swap_bitmap s)[k := False] \<and> lru_list t (xs @ [page_index pa]) \<and>
    pg_pagetable (pages t (page_index pa)) = pagetable \<and> pg_vaddr (pages t (page_index pa)) = va \<and>
    (\<forall>x. PGROUNDDOWN x \<noteq> pa \<longrightarrow> \<not> x - p < 8 \<longrightarrow> mem t x = mem s x))"
proof -
  obtain u where u: "swapread pa (int k) False s = Ok () u" "mem u = mem_write (mem s) pa (swap_view s k)"
      "swap_erase (u\<lparr>mem := mem s\<rparr>) = swap_erase s"
    using swapread_runs [OF ok k(2), of pa] by (auto simp: runs_iff)
  note e = swap_eraseD [OF u(3), simplified]
  have h: "held u = []"
    using ok e by (simp add: swap_ok_def)
  have len: "length (swap_view s k) = 4096"
    using ok length_swap_view by (auto simp: swap_ok_def)
  have far: "mem u x = mem s x" if "PGROUNDDOWN x \<noteq> pa" for x
    using mem_write_page [OF pa len that] u(2) by simp
  then have lp: "load64 (mem u) p = load64 (mem s) p"
    using p by (intro load64_entry_cong) auto
  define f where "f = restored_flags (load64 (mem s) p) extra"
  define w where "w = upd_page (page_index pa) (\<lambda>g. g\<lparr>pg_pagetable := pagetable, pg_vaddr := va\<rparr>)
    (u\<lparr>swap_bitmap := (swap_bitmap s)[k := False], mem := store64 (mem u) p (PA2PTE pa OR f)\<rparr>)"
  have w: "mem w = store64 (mem u) p (PA2PTE pa OR f)" "swap_bitmap w = (swap_bitmap s)[k := False]" "held w = []"
      "lru_head w = lru_head s" "pg_pagetable (pages w (page_index pa)) = pagetable" "pg_vaddr (pages w (page_index pa)) = va"
    using e h by (simp_all add: w_def upd_page_def)
  have "pnext w = pnext s" "pprev w = pprev s" and nx: "\<And>i. pg_next (pages w i) = pg_next (pages s i)"
    using e by (auto simp: w_def upd_page_def fun_eq_iff pnext_def pprev_def split: option.splits)
  then have "lru_list w xs"
    using l w(4) by (simp add: lru_list_def)
  then obtain t where t: "lru_add pa w = Ok () t" "lru_list t (xs @ [page_index pa])" "lru_frame w t"
    using lru_add_runs [OF _ n, of w] w(3) by (auto simp: runs_iff)
  note fr = lru_frameD [OF t(3)]
  have mt: "mem t = store64 (mem u) p (PA2PTE pa OR f)" "swap_bitmap t = (swap_bitmap s)[k := False]"
    using arg_cong [OF fr(1), of mem] arg_cong [OF fr(1), of swap_bitmap] w by simp_all
  have run: "swap_in pagetable va p pa extra s = Ok f t"
    using k h e(4) t(1) lp by (simp add: swap_in_def sint_slot u(1) free_slot_eq Let_def f_def [symmetric] w_def)
  have "mem_read (mem t) pa 4096 = mem_read (mem u) pa 4096"
    using store64_entry_other [OF p(1)] p(2) mt by (intro mem_read_page_cong [OF pa]) auto
  also have "\<dots> = swap_view s k"
    using mem_read_write_same [of "swap_view s k" "mem s" pa] len u(2) by simp
  finally have rd: "mem_read (mem t) pa 4096 = swap_view s k" .
  have "mem t x = mem s x" if "PGROUNDDOWN x \<noteq> pa" "\<not> x - p < 8" for x
    using far that mt by (simp add: store64_def)
  then show ?thesis
    unfolding run using rd mt t(2) fr(2,3) w by (simp add: f_def)
qed

text \<open>
  The frame a page is evicted from holds no page-table entry of a listed page, in particular not the page's own.
\<close>

lemma victim_in: "victim_of s xs = Some v \<Longrightarrow> v \<in> set xs"
  by (auto simp: victim_of_def split: if_splits option.splits dest: find_SomeD)

lemma unaccessed_VS:
  "unaccessed pte AND PTE_V = pte AND PTE_V" "unaccessed pte AND PTE_S = pte AND PTE_S"
proof -
  have *: "(pte AND NOT x) AND y = pte AND y" if "\<And>j. bit x j \<longleftrightarrow> j = 6" "\<And>j. bit y j \<longleftrightarrow> j = c" "c \<noteq> 6" for x y :: uint64 and c
    by (rule bit_word_eqI) (use that in \<open>auto simp: bit_simps\<close>)
  show "unaccessed pte AND PTE_V = pte AND PTE_V" "unaccessed pte AND PTE_S = pte AND PTE_S"
    unfolding unaccessed_def by (rule * [OF bit_PTE_A bit_PTE_V], simp) (rule * [OF bit_PTE_A bit_PTE_S], simp)
qed

lemma rest_set:
  assumes "lru_list s xs" and "v \<in> set xs"
  shows "set (tl (dropWhile (\<lambda>i. i \<noteq> v) xs) @ takeWhile (\<lambda>i. i \<noteq> v) xs) = set xs - {v}"
proof -
  define a b where "a = takeWhile (\<lambda>i. i \<noteq> v) xs" and "b = tl (dropWhile (\<lambda>i. i \<noteq> v) xs)"
  have "xs = a @ v # b"
    using split_at [OF assms(2)] by (simp add: a_def b_def)
  moreover from this have "distinct (a @ v # b)"
    using lru_list_distinct [OF assms(1)] by simp
  ultimately show ?thesis
    unfolding a_def [symmetric] b_def [symmetric] by auto
qed



section \<open>A page is mapped again\<close>

text \<open>The entry that a walk ends at lies in one of the table pages it went through.\<close>

lemma walk_levels_page:
  assumes "page_aligned pt" and "walk_levels l m pt va = Some a"
  shows "PGROUNDDOWN a \<in> set (level_pages l m pt va)"
  using assms
proof (induction l arbitrary: pt)
  case 0
  then show ?case
    using slot_bytes_in_page [of pt "PX 0 va" 0] by auto
next
  case (Suc l)
  then show ?case
    using Suc.IH [OF PTE2PA_aligned] by (auto simp: Let_def split: if_splits)
qed

text \<open>Making an invalid entry valid changes no walk that ends at it: the entries above it are valid, so it is none of them.\<close>

lemma walk_levels_validate:
  assumes "page_aligned pt" and "walk_levels l m pt va = Some a" and "load64 m a AND PTE_V = 0"
    and "\<And>x. PGROUNDDOWN x \<in> set (level_pages l m pt va) \<Longrightarrow> \<not> x - a < 8 \<Longrightarrow> m' x = m x"
  shows "walk_levels l m' pt va = Some a"
  using assms
proof (induction l arbitrary: pt)
  case (Suc l)
  let ?e = "slot pt (PX (Suc l) va)"
  have v: "load64 m ?e AND PTE_V \<noteq> 0" and w: "walk_levels l m (PTE2PA (load64 m ?e)) va = Some a"
    using Suc.prems(2) by (auto simp: Let_def split: if_splits)
  have ne: "?e \<noteq> a"
    using v Suc.prems(3) by auto
  have a8: "a mod 8 = 0"
    using walk_levels_aligned [OF PTE2PA_aligned w] .
  have "load64 m' ?e = load64 m ?e"
  proof (rule load64_cong)
    fix d :: uint64 assume d: "d < 8"
    show "m' (?e + d) = m (?e + d)"
      using slot_bytes_in_page [OF Suc.prems(1) PX_less d] aligned8_apart [OF a8 slot_mod8 [OF Suc.prems(1)] ne [symmetric] d]
      by (intro Suc.prems(4)) (simp_all add: Let_def)
  qed
  moreover have "walk_levels l m' (PTE2PA (load64 m ?e)) va = Some a"
    by (rule Suc.IH [OF PTE2PA_aligned w Suc.prems(3)]) (rule Suc.prems(4), use v in \<open>simp_all add: Let_def\<close>)
  ultimately show ?case
    using v by (simp add: Let_def)
qed simp

lemma restored_flags_bits:
  "bit (restored_flags pte 0) n \<longleftrightarrow> n = 0 \<or> (n < 9 \<and> bit pte n)"
proof -
  have *: "bit (((pte AND f) AND NOT sb) OR vb OR 0) n \<longleftrightarrow> n = 0 \<or> (n < 9 \<and> bit pte n)"
    if "\<And>j. bit f j \<longleftrightarrow> j < 10" "\<And>j. bit vb j \<longleftrightarrow> j = 0" "\<And>j. bit sb j \<longleftrightarrow> j = 9" for f vb sb :: uint64
    using that bit_imp_le_length [of pte n] by (auto simp: bit_simps)
  show ?thesis
    unfolding restored_flags_def PTE_FLAGS_def by (rule * [OF bit_3FF bit_PTE_V bit_PTE_S])
qed

lemma restored_flags_less: "restored_flags pte 0 < 1024"
proof -
  have "restored_flags pte 0 = take_bit 10 (restored_flags pte 0)"
    by (rule bit_word_eqI) (auto simp: bit_simps restored_flags_bits)
  moreover have "take_bit 10 (restored_flags pte 0) < 1024"
    by (simp add: take_bit_eq_mod word_less_nat_alt unat_mod)
  ultimately show ?thesis
    by simp
qed

lemma PA2PTE_low: "n < 10 \<Longrightarrow> bit (PA2PTE pa OR f) n \<longleftrightarrow> bit f n"
  by (simp add: PA2PTE_def bit_simps)

text \<open>Reading the page at a user address that the entry \<open>a\<close> translates.\<close>

lemma user_byte_entry:
  assumes "walk_lookup m pt (PGROUNDDOWN va) = Some a" and "load64 m a = PA2PTE pa OR f" and "f < 1024"
    and "bit f 0" and "bit f 4" and "PGROUNDDOWN va < MAXVA" and "page_aligned pa" and "pa \<noteq> 0" and "i < 4096"
  shows "user_byte m pt (PGROUNDDOWN va + of_nat i) = Some (m (pa + of_nat i))"
proof -
  have v: "(PA2PTE pa OR f) AND PTE_V \<noteq> 0" "(PA2PTE pa OR f) AND PTE_U \<noteq> 0"
    using word_bit_test [of "PA2PTE pa OR f" 0] word_bit_test [of "PA2PTE pa OR f" 4] assms(4,5) by (simp_all add: PA2PTE_low)
  have "walkaddr m pt (PGROUNDDOWN va) = pa"
    using assms v by (simp add: walkaddr_def Let_def)
  moreover have "PGROUNDDOWN (PGROUNDDOWN va + of_nat i) = PGROUNDDOWN va"
    using assms(9) by (intro PGROUNDDOWN_offset) (simp_all add: word_less_nat_alt unat_of_nat)
  ultimately show ?thesis
    using assms(8) by (simp add: user_byte_def translate_def Let_def)
qed

end
