(* ===== verification/Bytes.thy ===== *)
theory Bytes
  imports Prelude
begin

text \<open>
  Little-endian fields of C structures inside a block of bytes: the casts of \<^verbatim>\<open>b->data\<close> to \<^verbatim>\<open>struct logheader\<close>,
  \<^verbatim>\<open>struct dinode\<close>, \<^verbatim>\<open>struct dirent\<close> and \<^verbatim>\<open>uint\<close> arrays.
\<close>

definition get16 :: "byte list \<Rightarrow> nat \<Rightarrow> uint16" where
  "get16 bs i = ucast (bs ! i) OR push_bit 8 (ucast (bs ! Suc i))"

definition get32 :: "byte list \<Rightarrow> nat \<Rightarrow> uint32" where
  "get32 bs i = ucast (get16 bs i) OR push_bit 16 (ucast (get16 bs (i + 2)))"

definition bytes16 :: "uint16 \<Rightarrow> byte list" where
  "bytes16 x = [ucast x, ucast (drop_bit 8 x)]"

definition bytes32 :: "uint32 \<Rightarrow> byte list" where
  "bytes32 x = bytes16 (ucast x) @ bytes16 (ucast (drop_bit 16 x))"

text \<open>Writing a run of bytes into a block.\<close>

definition put_bytes :: "byte list \<Rightarrow> nat \<Rightarrow> byte list \<Rightarrow> byte list" where
  "put_bytes bs i vs = take i bs @ vs @ drop (i + length vs) bs"

definition put16 :: "byte list \<Rightarrow> nat \<Rightarrow> uint16 \<Rightarrow> byte list" where
  "put16 bs i x = put_bytes bs i (bytes16 x)"

definition put32 :: "byte list \<Rightarrow> nat \<Rightarrow> uint32 \<Rightarrow> byte list" where
  "put32 bs i x = put_bytes bs i (bytes32 x)"

lemma length_put_bytes [simp]: "i + length vs \<le> length bs \<Longrightarrow> length (put_bytes bs i vs) = length bs"
  by (simp add: put_bytes_def)

lemma nth_put_bytes:
  "i + length vs \<le> length bs \<Longrightarrow> j < length bs \<Longrightarrow>
   put_bytes bs i vs ! j = (if i \<le> j \<and> j < i + length vs then vs ! (j - i) else bs ! j)"
  by (auto simp: put_bytes_def nth_append)

lemma length_bytes [simp]: "length (bytes16 x) = 2" "length (bytes32 y) = 4"
  by (simp_all add: bytes16_def bytes32_def)

lemma length_put [simp]:
  "i + 2 \<le> length bs \<Longrightarrow> length (put16 bs i x) = length bs" "i + 4 \<le> length bs \<Longrightarrow> length (put32 bs i y) = length bs"
  by (simp_all add: put16_def put32_def)

lemma get16_bytes16: "bs ! i = bytes16 x ! 0 \<Longrightarrow> bs ! Suc i = bytes16 x ! 1 \<Longrightarrow> get16 bs i = x"
  unfolding get16_def bytes16_def
  by (rule bit_word_eqI) (auto simp: bit_simps)

lemma split_uint32: "ucast (ucast x :: uint16) OR push_bit 16 (ucast (ucast (drop_bit 16 x) :: uint16)) = (x :: uint32)"
  by (rule bit_word_eqI) (auto simp: bit_simps)

lemma get32_bytes32:
  assumes "\<And>k. k < 4 \<Longrightarrow> bs ! (i + k) = bytes32 x ! k"
  shows "get32 bs i = x"
proof -
  have b: "bytes32 x ! k = (if k < 2 then bytes16 (ucast x) ! k else bytes16 (ucast (drop_bit 16 x)) ! (k - 2))" for k
    by (simp add: bytes32_def nth_append)
  have "get16 bs i = ucast x"
    using assms [of 0] assms [of 1] by (intro get16_bytes16) (simp_all add: b)
  moreover have "get16 bs (i + 2) = ucast (drop_bit 16 x)"
    using assms [of 2] assms [of 3] by (intro get16_bytes16) (simp_all add: b numeral_eq_Suc)
  ultimately show ?thesis
    by (simp add: get32_def split_uint32)
qed

lemma get16_put16_same [simp]: "i + 2 \<le> length bs \<Longrightarrow> get16 (put16 bs i x) i = x"
  by (intro get16_bytes16) (simp_all add: put16_def nth_put_bytes)

lemma get32_put32_same [simp]: "i + 4 \<le> length bs \<Longrightarrow> get32 (put32 bs i x) i = x"
  by (intro get32_bytes32) (simp add: put32_def nth_put_bytes)

lemma get16_put_other:
  assumes "i + length vs \<le> length bs" and "j + 2 \<le> length bs" and "j + 2 \<le> i \<or> i + length vs \<le> j"
  shows "get16 (put_bytes bs i vs) j = get16 bs j"
  using assms by (auto simp: get16_def nth_put_bytes)

lemma get32_put_other:
  assumes "i + length vs \<le> length bs" and "j + 4 \<le> length bs" and "j + 4 \<le> i \<or> i + length vs \<le> j"
  shows "get32 (put_bytes bs i vs) j = get32 bs j"
proof -
  have "get16 (put_bytes bs i vs) j = get16 bs j" "get16 (put_bytes bs i vs) (j + 2) = get16 bs (j + 2)"
    using assms by (auto intro!: get16_put_other)
  then show ?thesis
    by (simp add: get32_def)
qed

lemma get_put_other [simp]:
  "i + 2 \<le> length bs \<Longrightarrow> j + 2 \<le> length bs \<Longrightarrow> j + 2 \<le> i \<or> i + 2 \<le> j \<Longrightarrow> get16 (put16 bs i x) j = get16 bs j"
  "i + 4 \<le> length bs \<Longrightarrow> j + 2 \<le> length bs \<Longrightarrow> j + 2 \<le> i \<or> i + 4 \<le> j \<Longrightarrow> get16 (put32 bs i y) j = get16 bs j"
  "i + 2 \<le> length bs \<Longrightarrow> j + 4 \<le> length bs \<Longrightarrow> j + 4 \<le> i \<or> i + 2 \<le> j \<Longrightarrow> get32 (put16 bs i x) j = get32 bs j"
  "i + 4 \<le> length bs \<Longrightarrow> j + 4 \<le> length bs \<Longrightarrow> j + 4 \<le> i \<or> i + 4 \<le> j \<Longrightarrow> get32 (put32 bs i y) j = get32 bs j"
  by (simp_all add: put16_def put32_def get16_put_other get32_put_other)

text \<open>Arrays of \<^verbatim>\<open>uint\<close>.\<close>

definition get_uints :: "byte list \<Rightarrow> nat \<Rightarrow> nat \<Rightarrow> uint32 list" where
  "get_uints bs i n = map (\<lambda>k. get32 bs (i + 4 * k)) [0..<n]"

primrec put_uints :: "byte list \<Rightarrow> nat \<Rightarrow> uint32 list \<Rightarrow> byte list" where
  "put_uints bs i [] = bs"
| "put_uints bs i (x # xs) = put_uints (put32 bs i x) (i + 4) xs"

lemma length_put_uints [simp]: "i + 4 * length xs \<le> length bs \<Longrightarrow> length (put_uints bs i xs) = length bs"
  by (induction xs arbitrary: bs i) simp_all

lemma length_get_uints [simp]: "length (get_uints bs i n) = n"
  by (simp add: get_uints_def)

lemma get_put_uints_other:
  "i + 4 * length xs \<le> length bs \<Longrightarrow> j + 4 \<le> i \<Longrightarrow> get32 (put_uints bs i xs) j = get32 bs j"
  "i + 4 * length xs \<le> length bs \<Longrightarrow> j + 2 \<le> i \<Longrightarrow> get16 (put_uints bs i xs) j = get16 bs j"
  by (induction xs arbitrary: bs i) simp_all

lemma get_put_uints:
  "i + 4 * length xs \<le> length bs \<Longrightarrow> k < length xs \<Longrightarrow> get32 (put_uints bs i xs) (i + 4 * k) = xs ! k"
proof (induction xs arbitrary: bs i k)
  case (Cons x xs)
  show ?case
  proof (cases k)
    case 0
    then show ?thesis
      using Cons.prems by (simp add: get_put_uints_other)
  next
    case (Suc k')
    then show ?thesis
      using Cons.IH [of "i + 4" "put32 bs i x" k'] Cons.prems by (simp add: algebra_simps)
  qed
qed simp

lemma get_uints_put_uints [simp]:
  "i + 4 * length xs \<le> length bs \<Longrightarrow> get_uints (put_uints bs i xs) i (length xs) = xs"
  by (rule nth_equalityI) (simp_all add: get_uints_def get_put_uints)

end
