(* ===== verification/Log.thy ===== *)
theory Log
  imports Vm Bytes
begin

text \<open>
  The write-ahead log (\<^verbatim>\<open>kernel/log.c\<close>).  \<^verbatim>\<open>struct log\<close> is part of the state; the header block on disk
  is the count followed by the block numbers, each a little-endian 32-bit number.
\<close>

section \<open>Model\<close>

abbreviation (input) LOGSIZE :: nat where "LOGSIZE \<equiv> 30"
abbreviation (input) MAXOPBLOCKS :: nat where "MAXOPBLOCKS \<equiv> 10"

record logst = memst +
  log_start :: int
  log_size :: int
  log_outstanding :: int
  log_committing :: bool
  log_dev :: uint32
  lh_n :: int
  lh_block :: "uint32 list"

text \<open>The log block number \<open>tail\<close>: \<^verbatim>\<open>log.start+tail+1\<close>.\<close>

definition log_block :: "'a logst_scheme \<Rightarrow> nat \<Rightarrow> uint32" where
  "log_block s tail = of_int (log_start s + int tail + 1)"

definition install_one :: "bool \<Rightarrow> nat \<Rightarrow> 'a logst_scheme \<Rightarrow> ('a logst_scheme, unit) outcome" where
  "install_one recovering tail s =
     andThen (bread (log_dev s) (log_block s tail) s) (\<lambda>lbuf s.
     andThen (bread (log_dev s) (lh_block s ! tail) s) (\<lambda>dbuf s.
     andThen (bwrite dbuf (set_data dbuf (b_data (bufs s ! lbuf)) s)) (\<lambda>_ s.
     andThen (if recovering then Ok () s else bunpin dbuf s) (\<lambda>_ s.
     andThen (brelse lbuf s) (\<lambda>_ s. brelse dbuf s)))))"

definition install_trans :: "bool \<Rightarrow> 'a logst_scheme \<Rightarrow> ('a logst_scheme, unit) outcome" where
  "install_trans recovering s = foreach [0..<nat (lh_n s)] (install_one recovering) s"

text \<open>The header block as \<^verbatim>\<open>struct logheader\<close>; a count beyond \<^verbatim>\<open>LOGSIZE\<close> would overrun \<^verbatim>\<open>log.lh.block\<close>.\<close>

definition header_n :: "byte list \<Rightarrow> int" where
  "header_n d = sint (get32 d 0)"

definition read_head :: "'a logst_scheme \<Rightarrow> ('a logst_scheme, unit) outcome" where
  "read_head s =
     andThen (bread (log_dev s) (of_int (log_start s)) s) (\<lambda>b s.
     let d = b_data (bufs s ! b); n = header_n d in
     if int LOGSIZE < n then Panic ''undefined''
     else brelse b (s\<lparr>lh_n := n,
       lh_block := get_uints d 4 (nat n) @ drop (nat n) (lh_block s)\<rparr>))"

definition write_head :: "'a logst_scheme \<Rightarrow> ('a logst_scheme, unit) outcome" where
  "write_head s =
     andThen (bread (log_dev s) (of_int (log_start s)) s) (\<lambda>b s.
     let d = put32 (b_data (bufs s ! b)) 0 (of_int (lh_n s));
         d = put_uints d 4 (take (nat (lh_n s)) (lh_block s)) in
     andThen (bwrite b (set_data b d s)) (\<lambda>_ s. brelse b s))"

definition recover_from_log :: "'a logst_scheme \<Rightarrow> ('a logst_scheme, unit) outcome" where
  "recover_from_log s =
     andThen (read_head s) (\<lambda>_ s.
     andThen (install_trans True s) (\<lambda>_ s.
     write_head (s\<lparr>lh_n := 0\<rparr>)))"

definition initlog :: "uint32 \<Rightarrow> uint32 \<Rightarrow> uint32 \<Rightarrow> 'a logst_scheme \<Rightarrow> ('a logst_scheme, unit) outcome" where
  "initlog dev logstart nlog s =
     recover_from_log (s\<lparr>log_start := sint logstart, log_size := sint nlog, log_dev := dev\<rparr>)"

definition begin_op_loop :: "'a logst_scheme \<Rightarrow> ('a logst_scheme, unit) outcome" where
  "begin_op_loop s =
     (if log_committing s then sleep Ch_log L_log s
      else if lh_n s + (log_outstanding s + 1) * int MAXOPBLOCKS > int LOGSIZE then sleep Ch_log L_log s
      else release L_log (s\<lparr>log_outstanding := log_outstanding s + 1\<rparr>))"

definition begin_op :: "'a logst_scheme \<Rightarrow> ('a logst_scheme, unit) outcome" where
  "begin_op s = andThen (acquire L_log s) (\<lambda>_ s. begin_op_loop s)"

text \<open>A process that has slept in \<^verbatim>\<open>begin_op()\<close> tests again when it is woken.\<close>

definition begin_op_resume :: "'a logst_scheme \<Rightarrow> ('a logst_scheme, unit) outcome" where
  "begin_op_resume s = andThen (sleep_resume L_log s) (\<lambda>_ s. begin_op_loop s)"

definition write_log_one :: "nat \<Rightarrow> 'a logst_scheme \<Rightarrow> ('a logst_scheme, unit) outcome" where
  "write_log_one tail s =
     andThen (bread (log_dev s) (log_block s tail) s) (\<lambda>to s.
     andThen (bread (log_dev s) (lh_block s ! tail) s) (\<lambda>from s.
     andThen (bwrite to (set_data to (b_data (bufs s ! from)) s)) (\<lambda>_ s.
     andThen (brelse from s) (\<lambda>_ s. brelse to s))))"

definition write_log :: "'a logst_scheme \<Rightarrow> ('a logst_scheme, unit) outcome" where
  "write_log s = foreach [0..<nat (lh_n s)] write_log_one s"

definition commit :: "'a logst_scheme \<Rightarrow> ('a logst_scheme, unit) outcome" where
  "commit s =
     (if lh_n s > 0 then
        andThen (write_log s) (\<lambda>_ s.
        andThen (write_head s) (\<lambda>_ s.
        andThen (install_trans False s) (\<lambda>_ s.
        write_head (s\<lparr>lh_n := 0\<rparr>))))
      else Ok () s)"

definition end_op :: "'a logst_scheme \<Rightarrow> ('a logst_scheme, unit) outcome" where
  "end_op s =
     andThen (acquire L_log s) (\<lambda>_ s.
     let s = s\<lparr>log_outstanding := log_outstanding s - 1\<rparr> in
     if log_committing s then Panic ''log.committing''
     else if log_outstanding s = 0 then
       andThen (release L_log (s\<lparr>log_committing := True\<rparr>)) (\<lambda>_ s.
       andThen (commit s) (\<lambda>_ s.
       andThen (acquire L_log s) (\<lambda>_ s.
       andThen (wakeup (Some Ch_log) (s\<lparr>log_committing := False\<rparr>)) (\<lambda>_ s.
       release L_log s))))
     else andThen (wakeup (Some Ch_log) s) (\<lambda>_ s. release L_log s))"

text \<open>\<open>i\<close>: the entry that \<^verbatim>\<open>log_write()\<close> fills, an old one of the same block or the next free one.\<close>

definition log_write :: "nat \<Rightarrow> 'a logst_scheme \<Rightarrow> ('a logst_scheme, unit) outcome" where
  "log_write b s =
     andThen (acquire L_log s) (\<lambda>_ s.
     if lh_n s \<ge> int LOGSIZE \<or> lh_n s \<ge> log_size s - 1 then Panic ''too big a transaction''
     else if log_outstanding s < 1 then Panic ''log_write outside of trans''
     else
       let n = nat (lh_n s); blk = b_blockno (bufs s ! b) in
       case first_index (\<lambda>x. x = blk) (take n (lh_block s)) of
         Some i \<Rightarrow> release L_log (s\<lparr>lh_block := (lh_block s)[i := blk]\<rparr>)
       | None \<Rightarrow>
           andThen (bpin b (s\<lparr>lh_block := (lh_block s)[n := blk]\<rparr>)) (\<lambda>_ s.
           release L_log (s\<lparr>lh_n := lh_n s + 1\<rparr>)))"

section \<open>What the log's operations leave alone\<close>

lemma more_log:
  fixes s t :: "'a logst_scheme"
  assumes "biost.more t = biost.more s"
  shows "lh_n t = lh_n s" "lh_block t = lh_block s" "log_outstanding t = log_outstanding s"
    "log_committing t = log_committing s" "log_size t = log_size s" "log_start t = log_start s" "log_dev t = log_dev s"
  using assms by (cases s, cases t, simp)+

lemma more_last:
  "safe m (\<lambda>_ u. biost.more u = biost.more t) \<Longrightarrow> biost.more t = biost.more s \<Longrightarrow>
   safe m (\<lambda>_ u. biost.more u = biost.more s)"
  by (auto simp: safe_iff)

lemma safe_write_head: "safe (write_head s) (\<lambda>_ t. biost.more t = biost.more s)"
  unfolding write_head_def Let_def
  by (rule more_step [OF safe_bread_more refl], rule more_step [OF safe_bwrite_more])
    (simp, erule more_last [OF safe_brelse_more])

lemma safe_install_one: "safe (install_one r tail s) (\<lambda>_ t. biost.more t = biost.more s)"
proof -
  have u: "safe (if r then Ok () t else bunpin b t) (\<lambda>_ u. biost.more u = biost.more t)" for b t
    by (simp add: safe_bunpin_more)
  show ?thesis
    unfolding install_one_def
    by (rule more_step [OF safe_bread_more refl], rule more_step [OF safe_bread_more], assumption,
        rule more_step [OF safe_bwrite_more], simp, rule more_step [OF u], assumption,
        rule more_step [OF safe_brelse_more], assumption, erule more_last [OF safe_brelse_more])
qed

lemma safe_write_log_one: "safe (write_log_one tail s) (\<lambda>_ t. biost.more t = biost.more s)"
  unfolding write_log_one_def
  by (rule more_step [OF safe_bread_more refl], rule more_step [OF safe_bread_more], assumption,
      rule more_step [OF safe_bwrite_more], simp,
      rule more_step [OF safe_brelse_more], assumption, erule more_last [OF safe_brelse_more])

lemma safe_foreach_more:
  assumes "\<And>i u. safe (body i u) (\<lambda>_ t. biost.more t = biost.more u)"
  shows "safe (foreach xs body s) (\<lambda>_ t. biost.more t = biost.more s)"
  by (rule foreach_inv_safe) (simp, erule more_last [OF assms])

lemma safe_write_log: "safe (write_log s) (\<lambda>_ t. biost.more t = biost.more s)"
  unfolding write_log_def by (rule safe_foreach_more [OF safe_write_log_one])

lemma safe_install_trans: "safe (install_trans r s) (\<lambda>_ t. biost.more t = biost.more s)"
  unfolding install_trans_def by (rule safe_foreach_more [OF safe_install_one])

text \<open>A commit empties the header in memory and changes nothing else of \<^verbatim>\<open>struct log\<close>.\<close>

lemma safe_commit:
  "safe (commit s) (\<lambda>_ t. biost.more t = biost.more (if lh_n s > 0 then s\<lparr>lh_n := 0\<rparr> else s))"
proof -
  have "safe (andThen (write_log s) (\<lambda>_ u. andThen (write_head u) (\<lambda>_ u. andThen (install_trans False u) (\<lambda>_ u.
      write_head (u\<lparr>lh_n := 0\<rparr>))))) (\<lambda>_ t. biost.more t = biost.more (s\<lparr>lh_n := 0\<rparr>))"
  proof (rule more_step [OF safe_write_log refl], rule more_step [OF safe_write_head], assumption,
      rule more_step [OF safe_install_trans], assumption)
    fix u :: "'a logst_scheme"
    assume "biost.more u = biost.more s"
    then have "biost.more (u\<lparr>lh_n := 0\<rparr>) = biost.more (s\<lparr>lh_n := 0\<rparr>)"
      by (cases s, cases u) simp
    then show "safe (write_head (u\<lparr>lh_n := 0\<rparr>)) (\<lambda>_ t. biost.more t = biost.more (s\<lparr>lh_n := 0\<rparr>))"
      using safe_write_head [of "u\<lparr>lh_n := 0\<rparr>"] by simp
  qed
  then show ?thesis
    by (auto simp: commit_def)
qed

section \<open>Transactions share the log\<close>

text \<open>
  Operations of several processes are in flight at once; each may log up to \<^verbatim>\<open>MAXOPBLOCKS\<close> blocks.  A state is the
  kernel's state with what is left of each operation's allowance.  The calls of \<^verbatim>\<open>begin_op()\<close>, \<^verbatim>\<open>log_write()\<close>
  and \<^verbatim>\<open>end_op()\<close> come in any order, and in between any code may run that does not touch \<^verbatim>\<open>struct log\<close>.  The commit
  at the end of the last operation runs without the lock, but with \<^verbatim>\<open>log.committing\<close> set no operation begins
  before it is over, so \<^verbatim>\<open>end_op()\<close> is one step.
\<close>

definition same_log :: "'a logst_scheme \<Rightarrow> 'a logst_scheme \<Rightarrow> bool" where
  "same_log s t \<longleftrightarrow> lh_n t = lh_n s \<and> lh_block t = lh_block s \<and> log_outstanding t = log_outstanding s \<and>
     log_committing t = log_committing s \<and> log_size t = log_size s"

inductive log_step :: "'a logst_scheme \<times> nat list \<Rightarrow> 'a logst_scheme \<times> nat list \<Rightarrow> bool" where
  begins: "begin_op s = Ok () t \<Longrightarrow> log_step (s, bs) (t, MAXOPBLOCKS # bs)"
| writes: "i < length bs \<Longrightarrow> 0 < bs ! i \<Longrightarrow> log_write b s = Ok () t \<Longrightarrow> log_step (s, bs) (t, bs[i := bs ! i - 1])"
| ends: "i < length bs \<Longrightarrow> end_op s = Ok () t \<Longrightarrow> log_step (s, bs) (t, take i bs @ drop (Suc i) bs)"
| other: "same_log s t \<Longrightarrow> log_step (s, bs) (t, bs)"

definition log_init :: "'a logst_scheme \<times> nat list \<Rightarrow> bool" where
  "log_init x \<longleftrightarrow> (case x of (s, bs) \<Rightarrow> bs = [] \<and> log_outstanding s = 0 \<and> \<not> log_committing s \<and> lh_n s = 0 \<and>
     length (lh_block s) = LOGSIZE)"

definition log_inv :: "'a logst_scheme \<times> nat list \<Rightarrow> bool" where
  "log_inv x \<longleftrightarrow> (case x of (s, bs) \<Rightarrow> log_outstanding s = int (length bs) \<and> \<not> log_committing s \<and>
     0 \<le> lh_n s \<and> lh_n s + int (sum_list bs) \<le> int LOGSIZE \<and> (\<forall>b \<in> set bs. b \<le> MAXOPBLOCKS) \<and>
     length (lh_block s) = LOGSIZE)"

lemma begin_op_Ok:
  "begin_op s = Ok x t \<longleftrightarrow> L_log \<notin> set (held s) \<and> \<not> log_committing s \<and>
     lh_n s + (log_outstanding s + 1) * int MAXOPBLOCKS \<le> int LOGSIZE \<and>
     t = s\<lparr>log_outstanding := log_outstanding s + 1\<rparr>"
proof -
  have "sleep ch lk u \<noteq> Ok y v" for ch lk y and u v :: "'a logst_scheme"
    using safe_sleep [of ch lk u "\<lambda>_ _. False"] by (auto simp: safe_iff)
  then show ?thesis
    by (auto simp: begin_op_def begin_op_loop_def acquire_def holding_def release_def)
qed

lemma log_write_Ok:
  assumes "log_write b s = Ok x t"
  shows "log_outstanding t = log_outstanding s" "log_committing t = log_committing s" "log_size t = log_size s"
    "length (lh_block t) = length (lh_block s)" "lh_n t = lh_n s \<or> lh_n t = lh_n s + 1"
  using assms
  by (auto simp: log_write_def acquire_def release_def bpin_def upd_buf_def Let_def split: if_splits option.splits)

lemma end_op_Ok:
  assumes "end_op s = Ok x t" and "0 \<le> lh_n s"
  shows "log_outstanding t = log_outstanding s - 1" "\<not> log_committing t" "log_size t = log_size s"
    "length (lh_block t) = length (lh_block s)"
    "lh_n t = (if log_outstanding t = 0 then 0 else lh_n s)"
proof -
  let ?s = "s\<lparr>held := L_log # held s, log_outstanding := log_outstanding s - 1\<rparr>"
  have nc: "\<not> log_committing s" and lk: "L_log \<notin> set (held s)"
    using assms by (auto simp: end_op_def acquire_def holding_def split: if_splits)
  have "log_outstanding t = log_outstanding s - 1 \<and> \<not> log_committing t \<and> log_size t = log_size s \<and>
    length (lh_block t) = length (lh_block s) \<and> lh_n t = (if log_outstanding t = 0 then 0 else lh_n s)"
  proof (cases "log_outstanding s = 1")
    case True
    then obtain c w where c: "commit (s\<lparr>log_outstanding := log_outstanding s - 1, log_committing := True\<rparr>) = Ok () c"
      and w: "wakeup (Some Ch_log) (c\<lparr>held := L_log # held c, log_committing := False\<rparr>) = Ok () w"
      and t: "t = w\<lparr>held := remove1 L_log (held w)\<rparr>"
      using assms nc lk by (auto simp: end_op_def acquire_def release_def holding_def split: if_splits)
    have "biost.more c = biost.more (s\<lparr>log_outstanding := log_outstanding s - 1, log_committing := True, lh_n := 0\<rparr>)"
    proof -
      let ?u = "s\<lparr>log_outstanding := log_outstanding s - 1, log_committing := True\<rparr>"
      have "biost.more c = biost.more (if lh_n ?u > 0 then ?u\<lparr>lh_n := 0\<rparr> else ?u)"
        using safe_commit [of ?u] c unfolding safe_iff by blast
      moreover have "biost.more (?u\<lparr>lh_n := 0\<rparr>) = biost.more ?u" if "\<not> lh_n ?u > 0"
        using that assms(2) by (cases s) simp
      ultimately show ?thesis
        by metis
    qed
    note m = more_log [OF this]
    have "biost.more w = biost.more (c\<lparr>held := L_log # held c, log_committing := False\<rparr>)"
      using safe_wakeup_more [of "Some Ch_log" "c\<lparr>held := L_log # held c, log_committing := False\<rparr>"] w
      unfolding safe_iff by blast
    note n = more_log [OF this]
    show ?thesis
      using m n t True by simp
  next
    case False
    then obtain w where w: "wakeup (Some Ch_log) ?s = Ok () w" and t: "t = w\<lparr>held := remove1 L_log (held w)\<rparr>"
      using assms nc lk by (auto simp: end_op_def acquire_def release_def holding_def split: if_splits)
    have "biost.more w = biost.more ?s"
      using safe_wakeup_more [of "Some Ch_log" ?s] w unfolding safe_iff by blast
    note n = more_log [OF this]
    show ?thesis
      using n t False nc by simp
  qed
  then show "log_outstanding t = log_outstanding s - 1" "\<not> log_committing t" "log_size t = log_size s"
    "length (lh_block t) = length (lh_block s)" "lh_n t = (if log_outstanding t = 0 then 0 else lh_n s)"
    by blast+
qed

lemma sum_list_le: "(\<forall>b \<in> set bs. b \<le> (n :: nat)) \<Longrightarrow> sum_list bs \<le> length bs * n"
  by (induction bs) auto

lemma sum_list_remove: "i < length bs \<Longrightarrow> sum_list bs = bs ! i + sum_list (take i bs @ drop (Suc i) bs)" for bs :: "nat list"
  using id_take_nth_drop [of i bs] by (metis add.left_commute sum_list.Cons sum_list.append)

lemma sum_list_dec:
  fixes bs :: "nat list"
  assumes "i < length bs" and "0 < bs ! i"
  shows "Suc (sum_list (bs[i := bs ! i - 1])) = sum_list bs"
  using sum_list_update [OF assms(1), of "bs ! i - 1"] sum_list_remove [OF assms(1)] assms by simp

lemma log_inv_step:
  assumes "log_inv x" and "log_step x y"
  shows "log_inv y"
  using assms(2,1)
proof cases
  case (begins s t bs)
  then show ?thesis
    using assms(1) sum_list_le [of bs MAXOPBLOCKS] by (auto simp: log_inv_def begin_op_Ok)
next
  case (writes i bs b s t)
  have "\<forall>b \<in> set (bs[i := bs ! i - 1]). b \<le> MAXOPBLOCKS"
    using assms(1) nth_mem [OF writes(3)] writes(1)
    by (fastforce simp: log_inv_def dest!: set_update_subset_insert [THEN subsetD])
  then show ?thesis
    using log_write_Ok [OF writes(5)] sum_list_dec [OF writes(3,4)] assms(1) writes(1,2)
    by (auto simp: log_inv_def)
next
  case (ends i bs s t)
  have "\<forall>b \<in> set (take i bs @ drop (Suc i) bs). b \<le> MAXOPBLOCKS"
    using assms(1) ends(1) by (auto simp: log_inv_def dest: in_set_takeD in_set_dropD)
  moreover have "length (take i bs @ drop (Suc i) bs) = length bs - 1"
    using ends(3) by simp
  moreover have "int (sum_list (take i bs @ drop (Suc i) bs)) \<le> int (sum_list bs)"
    using sum_list_remove [OF ends(3)] by simp
  moreover have "0 \<le> lh_n s"
    using assms(1) ends(1) by (simp add: log_inv_def)
  ultimately show ?thesis
    using end_op_Ok [OF ends(4)] assms(1) ends by (auto simp: log_inv_def)
next
  case (other s t bs)
  then show ?thesis
    using assms(1) by (auto simp: log_inv_def same_log_def)
qed

interpretation log_budget: invariant_system log_init log_step log_inv
proof unfold_locales
  show "log_inv x" if "log_init x" for x :: "'a logst_scheme \<times> nat list"
    using that by (auto simp: log_init_def log_inv_def)
qed (rule log_inv_step)

text \<open>The blocks the header lists.\<close>

definition logged :: "'a logst_scheme \<Rightarrow> uint32 list" where
  "logged s = take (nat (lh_n s)) (lh_block s)"

lemma log_write_eq:
  assumes "0 \<le> lh_n s" "lh_n s < int LOGSIZE" "lh_n s < log_size s - 1" "1 \<le> log_outstanding s"
    "length (lh_block s) = LOGSIZE" "L_log \<notin> set (held s)" "L_bcache \<notin> set (held s)"
  shows "\<exists>t. log_write b s = Ok () t \<and> held t = held s \<and>
    logged t = (if b_blockno (bufs s ! b) \<in> set (logged s) then logged s else logged s @ [b_blockno (bufs s ! b)])"
proof (cases "first_index (\<lambda>x. x = b_blockno (bufs s ! b)) (logged s)")
  case None
  let ?blk = "b_blockno (bufs s ! b)" and ?n = "nat (lh_n s)"
  have "log_write b s = Ok () (upd_buf b (\<lambda>b. b\<lparr>b_refcnt := b_refcnt b + 1\<rparr>)
      (s\<lparr>lh_block := (lh_block s)[?n := ?blk], lh_n := lh_n s + 1\<rparr>))"
    using None assms by (simp add: log_write_def acquire_def release_def holding_def bpin_def upd_buf_def Let_def logged_def)
  moreover have "take (nat (lh_n s + 1)) ((lh_block s)[?n := ?blk]) = logged s @ [?blk]"
  proof -
    have "nat (lh_n s + 1) = Suc ?n" and "?n < length (lh_block s)"
      using assms by auto
    then show ?thesis
      by (simp add: take_Suc_conv_app_nth logged_def)
  qed
  moreover have "?blk \<notin> set (logged s)"
    using None by (auto simp: first_index_None)
  ultimately show ?thesis
    by (simp add: logged_def upd_buf_def)
next
  case (Some i)
  note D = first_index_SomeD [OF Some]
  have "(lh_block s)[i := b_blockno (bufs s ! b)] = lh_block s"
    using D by (simp add: logged_def list_update_same_conv)
  then have "log_write b s = Ok () s"
    using Some assms by (simp add: log_write_def acquire_def release_def holding_def Let_def logged_def)
  moreover have "b_blockno (bufs s ! b) \<in> set (logged s)"
    using D nth_mem by metis
  ultimately show ?thesis
    by simp
qed

section \<open>A machine with its log set up\<close>

definition log_boot :: "int \<Rightarrow> 'a \<Rightarrow> 'a logst_scheme" where
  "log_boot sz z = mem_boot (\<lambda>_. 0) 0 (\<lambda>_. no_page) None 0x80030000
     (logst_ext 2 sz 0 False 1 0 (replicate LOGSIZE 0) z)"

lemma log_boot_fields [simp]:
  "log_start (log_boot sz z) = 2" "log_size (log_boot sz z) = sz" "log_outstanding (log_boot sz z) = 0"
  "log_committing (log_boot sz z) = False" "log_dev (log_boot sz z) = 1" "lh_n (log_boot sz z) = 0"
  "lh_block (log_boot sz z) = replicate LOGSIZE 0" "held (log_boot sz z) = []" "logst.more (log_boot sz z) = z"
proof -
  have m: "memst.more (log_boot sz z) = logst_ext 2 sz 0 False 1 0 (replicate LOGSIZE 0) z"
    by (simp add: log_boot_def)
  show "log_start (log_boot sz z) = 2" "log_size (log_boot sz z) = sz" "log_outstanding (log_boot sz z) = 0"
    "log_committing (log_boot sz z) = False" "log_dev (log_boot sz z) = 1" "lh_n (log_boot sz z) = 0"
    "lh_block (log_boot sz z) = replicate LOGSIZE 0" "logst.more (log_boot sz z) = z"
    using m by (cases "log_boot sz z", simp)+
  show "held (log_boot sz z) = []"
    by (simp add: log_boot_def)
qed

lemma log_boot_ok: "bcache_ok (log_boot sz z) (rev [0..<NBUF])" and log_boot_sleepable: "sleepable (log_boot sz z)"
  by (simp_all add: log_boot_def mem_boot_def bio_boot_ok bio_boot_sleepable)

lemma log_boot_init: "log_init (log_boot sz z, [])"
  by (simp add: log_init_def)

section \<open>Properties\<close>

text \<open>
  C8. However the operations of several processes interleave, an operation that has logged fewer than
  \<^verbatim>\<open>MAXOPBLOCKS\<close> blocks can log one more when the log is larger than \<^verbatim>\<open>LOGSIZE\<close> blocks: \<^verbatim>\<open>log_write()\<close> does not
  panic, the block is in the header afterwards, once, and no other block is lost from it.
\<close>

theorem log_write_fits:
  assumes "reachable log_init log_step (s, bs)" and "i < length bs" and "0 < bs ! i" and "int LOGSIZE < log_size s"
    and "L_log \<notin> set (held s)" and "L_bcache \<notin> set (held s)"
  shows "\<exists>t. log_write b s = Ok () t \<and> held t = held s \<and> length (logged t) \<le> LOGSIZE \<and>
    logged t = (if b_blockno (bufs s ! b) \<in> set (logged s) then logged s else logged s @ [b_blockno (bufs s ! b)])"
proof -
  have inv: "log_inv (s, bs)"
    using assms(1) by (rule log_budget.reachable_inv)
  have "Suc (sum_list (bs[i := bs ! i - 1])) = sum_list bs"
    using assms(2,3) by (rule sum_list_dec)
  then have pos: "1 \<le> sum_list bs"
    by linarith
  have "1 \<le> log_outstanding s" and n: "lh_n s < int LOGSIZE"
    using inv assms(2) pos by (auto simp: log_inv_def)
  then have "\<exists>t. log_write b s = Ok () t \<and> held t = held s \<and>
      logged t = (if b_blockno (bufs s ! b) \<in> set (logged s) then logged s else logged s @ [b_blockno (bufs s ! b)])"
    using inv assms(4-6) by (intro log_write_eq) (auto simp: log_inv_def)
  moreover have "length (logged s) < LOGSIZE"
    using inv n by (auto simp: log_inv_def logged_def)
  ultimately show ?thesis
    by (auto split: if_splits)
qed

theorem log_write_fits_witness:
  "\<exists>t. log_write 3 ((log_boot 31 () :: logst)\<lparr>log_outstanding := 1\<rparr>) = Ok () t \<and> length (logged t) \<le> LOGSIZE"
proof -
  let ?s = "log_boot 31 () :: logst"
  have "reachable log_init log_step (?s, [])"
    by (rule reach_init) (rule log_boot_init)
  moreover have "log_step (?s, []) (?s\<lparr>log_outstanding := 1\<rparr>, [MAXOPBLOCKS])"
    by (rule begins) (simp add: begin_op_Ok)
  ultimately have "reachable log_init log_step (?s\<lparr>log_outstanding := 1\<rparr>, [MAXOPBLOCKS])"
    by (rule reach_step)
  then show ?thesis
    using log_write_fits [of "?s\<lparr>log_outstanding := 1\<rparr>" "[MAXOPBLOCKS]" 0 3] by auto
qed

text \<open>Logging \<open>n\<close> different blocks in the first of three operations' turns.\<close>

definition with_block :: "uint32 \<Rightarrow> 'a logst_scheme \<Rightarrow> 'a logst_scheme" where
  "with_block k s = s\<lparr>bufs := [bss_buf\<lparr>b_blockno := k\<rparr>], held := []\<rparr>"

lemma log_step_new_block:
  fixes s :: "'a logst_scheme"
  assumes r: "reachable log_init log_step (s, bs)" and i: "i < length bs" "0 < bs ! i"
    and sz: "log_size s = 30" and n: "lh_n s = int n" "n < 29" and old: "set (logged s) \<subseteq> of_nat ` {..<n}"
  shows "\<exists>t :: 'a logst_scheme. reachable log_init log_step (t, bs[i := bs ! i - 1]) \<and> log_size t = 30 \<and> lh_n t = int (Suc n) \<and>
    set (logged t) \<subseteq> of_nat ` {..<Suc n}"
proof -
  let ?s = "with_block (of_nat n) s"
  have inv: "log_inv (s, bs)"
    using r by (rule log_budget.reachable_inv)
  have "log_step (s, bs) (?s, bs)"
    by (rule other) (simp add: same_log_def with_block_def)
  then have r': "reachable log_init log_step (?s, bs)"
    using r by (blast intro: reach_step)
  have eq: "logged ?s = logged s" "b_blockno (bufs ?s ! 0) = of_nat n" "log_size ?s = 30" "lh_n ?s = int n" "held ?s = []"
    "log_outstanding ?s = int (length bs)" "length (lh_block ?s) = LOGSIZE"
    using inv n sz by (simp_all add: logged_def with_block_def bss_buf_def log_inv_def)
  have "(of_nat n :: uint32) \<notin> of_nat ` {..<n}"
  proof
    assume "(of_nat n :: uint32) \<in> of_nat ` {..<n}"
    then obtain k where "k < n" "(of_nat n :: uint32) = of_nat k"
      by auto
    then have "unat (of_nat n :: uint32) = unat (of_nat k :: uint32)"
      by simp
    then show False
      using \<open>k < n\<close> n(2) by (simp add: unat_of_nat)
  qed
  then have new: "b_blockno (bufs ?s ! 0) \<notin> set (logged ?s)"
    using old eq by auto
  obtain t where t: "log_write 0 ?s = Ok () t" "logged t = logged s @ [of_nat n]"
    using log_write_eq [of ?s 0] eq n(2) i(1) new by auto
  have len: "length (logged s) = n"
    using inv n by (simp add: log_inv_def logged_def)
  have "lh_n t = lh_n ?s \<or> lh_n t = lh_n ?s + 1" and t30: "length (lh_block t) = LOGSIZE" and "log_size t = 30"
    using log_write_Ok [OF t(1)] eq by simp_all
  moreover have "lh_n t \<noteq> lh_n ?s"
    using t(2) len eq n t30 by (auto simp: logged_def dest: arg_cong [where f = length])
  ultimately have "lh_n t = int (Suc n)" "log_size t = 30"
    using eq by auto
  moreover have "reachable log_init log_step (t, bs[i := bs ! i - 1])"
    using r' writes [OF i t(1)] by (rule reach_step)
  moreover have "set (logged t) \<subseteq> of_nat ` {..<Suc n}"
    using t(2) old by auto
  ultimately show ?thesis
    by blast
qed

lemma log_can_fill:
  "n \<le> 29 \<Longrightarrow> \<exists>(s :: logst) bs. reachable log_init log_step (s, bs) \<and> length bs = 3 \<and> sum_list bs = 30 - n \<and>
     log_size s = 30 \<and> lh_n s = int n \<and> set (logged s) \<subseteq> of_nat ` {..<n}"
proof (induction n)
  case 0
  let ?s = "log_boot 30 () :: logst"
  have "reachable log_init log_step (?s, [])"
    by (rule reach_init) (rule log_boot_init)
  moreover have "log_step (?s, []) (?s\<lparr>log_outstanding := 1\<rparr>, [10])"
    "log_step (?s\<lparr>log_outstanding := 1\<rparr>, [10]) (?s\<lparr>log_outstanding := 2\<rparr>, [10, 10])"
    "log_step (?s\<lparr>log_outstanding := 2\<rparr>, [10, 10]) (?s\<lparr>log_outstanding := 3\<rparr>, [10, 10, 10])"
    by (rule begins, simp add: begin_op_Ok)+
  ultimately have "reachable log_init log_step (?s\<lparr>log_outstanding := 3\<rparr>, [10, 10, 10])"
    by (blast intro: reach_step)
  then show ?case
    by (intro exI [of _ "?s\<lparr>log_outstanding := 3\<rparr>"] exI [of _ "[10, 10, 10]"]) (simp add: logged_def)
next
  case (Suc n)
  then obtain s :: logst and bs where r: "reachable log_init log_step (s, bs)" and l: "length bs = 3"
    and sum: "sum_list bs = 30 - n" and s: "log_size s = 30" "lh_n s = int n" "set (logged s) \<subseteq> of_nat ` {..<n}"
    by auto
  have "\<exists>i<length bs. 0 < bs ! i"
  proof (rule ccontr)
    assume "\<not> (\<exists>i<length bs. 0 < bs ! i)"
    then have "\<forall>b \<in> set bs. b \<le> 0"
      by (auto simp: in_set_conv_nth)
    then show False
      using sum_list_le [of bs 0] sum Suc.prems by simp
  qed
  then obtain i where i: "i < length bs" "0 < bs ! i"
    by blast
  have n: "n < 29"
    using Suc.prems by simp
  have "sum_list (bs[i := bs ! i - 1]) = 30 - Suc n"
    using sum_list_dec [OF i] sum by simp
  then show ?case
    using log_step_new_block [OF r i s(1,2) n s(3)] l by (metis length_list_update)
qed

text \<open>
  C26. With a log of exactly \<^verbatim>\<open>LOGSIZE\<close> blocks \<^verbatim>\<open>begin_op()\<close> admits more than fits: three operations can be in
  flight, none of them having used up its allowance, and \<^verbatim>\<open>log_write()\<close> panics.
\<close>

theorem log_write_overflows:
  "\<exists>(s :: logst) bs i b. reachable log_init log_step (s, bs) \<and> log_size s = int LOGSIZE \<and>
     i < length bs \<and> 0 < bs ! i \<and> log_write b s = Panic ''too big a transaction''"
proof -
  obtain s :: logst and bs where r: "reachable log_init log_step (s, bs)" and bs: "length bs = 3" "sum_list bs = 1"
    and s: "log_size s = 30" "lh_n s = 29"
    using log_can_fill [of 29] by auto
  let ?s = "with_block 0 s"
  have "log_step (s, bs) (?s, bs)"
    by (rule other) (simp add: same_log_def with_block_def)
  with r have "reachable log_init log_step (?s, bs)"
    by (rule reach_step)
  moreover have "log_write 0 ?s = Panic ''too big a transaction''" and "log_size ?s = 30"
    using s by (simp_all add: log_write_def acquire_def holding_def with_block_def)
  moreover have "\<exists>i<length bs. 0 < bs ! i"
    using sum_list_le [of bs 0] bs by (metis gr0I in_set_conv_nth le_zero_eq mult_0_right order_refl zero_neq_one)
  ultimately show ?thesis
    by auto
qed

end
