(* ===== verification/Fs.thy ===== *)
theory Fs
  imports Log
begin

text \<open>
  The file system below the system calls (\<^verbatim>\<open>kernel/fs.c\<close>): block allocation, inodes and their
  content, directories and path names.

  A pointer to an entry of the inode table is its index, the null pointer \<open>None\<close>; following the null
  pointer is \<open>Panic ''kerneltrap''\<close>.  The messages the code prints are not part of the state.
\<close>

section \<open>Model\<close>

record superblock =
  sb_magic :: uint32
  sb_size :: uint32
  sb_nblocks :: uint32
  sb_ninodes :: uint32
  sb_nlog :: uint32
  sb_logstart :: uint32
  sb_inodestart :: uint32
  sb_bmapstart :: uint32

record dinode =
  d_type :: uint16
  d_major :: uint16
  d_minor :: uint16
  d_nlink :: uint16
  d_size :: uint32
  d_addrs :: "uint32 list"

record inode =
  i_dev :: uint32
  i_inum :: uint32
  i_ref :: int
  i_valid :: bool
  i_type :: uint16
  i_major :: uint16
  i_minor :: uint16
  i_nlink :: uint16
  i_size :: uint32
  i_addrs :: "uint32 list"

record fsst = logst +
  sb :: superblock
  itable :: "inode list"

abbreviation (input) NINODE :: nat where "NINODE \<equiv> 50"
abbreviation (input) NDIRECT :: nat where "NDIRECT \<equiv> 12"
abbreviation (input) NINDIRECT :: nat where "NINDIRECT \<equiv> 256"
abbreviation (input) MAXFILE :: nat where "MAXFILE \<equiv> 268"
abbreviation (input) IPB :: nat where "IPB \<equiv> 16"
abbreviation (input) BPB :: nat where "BPB \<equiv> 8192"
abbreviation (input) DIRSIZ :: nat where "DIRSIZ \<equiv> 14"
abbreviation (input) FSMAGIC :: uint32 where "FSMAGIC \<equiv> 0x10203040"
abbreviation (input) ROOTDEV :: uint32 where "ROOTDEV \<equiv> 1"
abbreviation (input) ROOTINO :: uint32 where "ROOTINO \<equiv> 1"
abbreviation (input) T_DIR :: uint16 where "T_DIR \<equiv> 1"
abbreviation (input) T_FILE :: uint16 where "T_FILE \<equiv> 2"
abbreviation (input) T_DEVICE :: uint16 where "T_DEVICE \<equiv> 3"

definition IBLOCK :: "uint32 \<Rightarrow> 'a fsst_scheme \<Rightarrow> uint32" where
  "IBLOCK i s = i div of_nat IPB + sb_inodestart (sb s)"

definition BBLOCK :: "uint32 \<Rightarrow> 'a fsst_scheme \<Rightarrow> uint32" where
  "BBLOCK b s = b div of_nat BPB + sb_bmapstart (sb s)"

definition ino :: "'a fsst_scheme \<Rightarrow> nat \<Rightarrow> inode" where
  "ino s ip = itable s ! ip"

definition upd_inode :: "nat \<Rightarrow> (inode \<Rightarrow> inode) \<Rightarrow> 'a fsst_scheme \<Rightarrow> 'a fsst_scheme" where
  "upd_inode ip f s = s\<lparr>itable := (itable s)[ip := f (itable s ! ip)]\<rparr>"

definition deref :: "nat option \<Rightarrow> (nat \<Rightarrow> ('s, 'b) outcome) \<Rightarrow> ('s, 'b) outcome" where
  "deref p f = (case p of None \<Rightarrow> Panic ''kerneltrap'' | Some i \<Rightarrow> f i)"

subsection \<open>Blocks\<close>

definition decode_superblock :: "byte list \<Rightarrow> superblock" where
  "decode_superblock d = \<lparr>sb_magic = get32 d 0, sb_size = get32 d 4, sb_nblocks = get32 d 8, sb_ninodes = get32 d 12,
     sb_nlog = get32 d 16, sb_logstart = get32 d 20, sb_inodestart = get32 d 24, sb_bmapstart = get32 d 28\<rparr>"

definition readsb :: "uint32 \<Rightarrow> 'a fsst_scheme \<Rightarrow> ('a fsst_scheme, unit) outcome" where
  "readsb dev s =
     andThen (bread dev 1 s) (\<lambda>b s. brelse b (s\<lparr>sb := decode_superblock (b_data (bufs s ! b))\<rparr>))"

definition fsinit :: "uint32 \<Rightarrow> 'a fsst_scheme \<Rightarrow> ('a fsst_scheme, unit) outcome" where
  "fsinit dev s =
     andThen (readsb dev s) (\<lambda>_ s.
     if sb_magic (sb s) \<noteq> FSMAGIC then Panic ''invalid file system''
     else initlog dev (sb_logstart (sb s)) (sb_nlog (sb s)) s)"

definition bzero :: "uint32 \<Rightarrow> uint32 \<Rightarrow> 'a fsst_scheme \<Rightarrow> ('a fsst_scheme, unit) outcome" where
  "bzero dev bno s =
     andThen (bread dev bno s) (\<lambda>b s.
     andThen (log_write b (set_data b (replicate BSIZE 0) s)) (\<lambda>_ s. brelse b s))"

text \<open>Bit \<open>bi\<close> of a block of the free map.\<close>

definition bit_set :: "byte list \<Rightarrow> nat \<Rightarrow> bool" where
  "bit_set d bi \<longleftrightarrow> d ! (bi div 8) AND push_bit (bi mod 8) 1 \<noteq> 0"

definition mark_bit :: "byte list \<Rightarrow> nat \<Rightarrow> byte list" where
  "mark_bit d bi = d[bi div 8 := d ! (bi div 8) OR push_bit (bi mod 8) 1]"

definition clear_bit :: "byte list \<Rightarrow> nat \<Rightarrow> byte list" where
  "clear_bit d bi = d[bi div 8 := d ! (bi div 8) AND NOT (push_bit (bi mod 8) 1)]"

text \<open>\<open>balloc_from k\<close> is the loop of \<^verbatim>\<open>balloc()\<close> from \<^verbatim>\<open>b = k * BPB\<close> on.\<close>

function balloc_from :: "uint32 \<Rightarrow> nat \<Rightarrow> 'a fsst_scheme \<Rightarrow> ('a fsst_scheme, uint32) outcome" where
  "balloc_from dev b s =
     (if b < unat (sb_size (sb s)) then
        andThen (bread dev (BBLOCK (of_nat b) s) s) (\<lambda>bp s.
        case find (\<lambda>bi. \<not> bit_set (b_data (bufs s ! bp)) bi) [0..<min BPB (unat (sb_size (sb s)) - b)] of
          Some bi \<Rightarrow>
            andThen (log_write bp (set_data bp (mark_bit (b_data (bufs s ! bp)) bi) s)) (\<lambda>_ s.
            andThen (brelse bp s) (\<lambda>_ s.
            andThen (bzero dev (of_nat (b + bi)) s) (\<lambda>_ s. Ok (of_nat (b + bi)) s)))
        | None \<Rightarrow> andThen (brelse bp s) (\<lambda>_ s. balloc_from dev (b + BPB) s))
      else Ok 0 s)"
  by auto
termination
proof (relation "measure (\<lambda>(dev, b, s). 2 ^ 32 - b)")
  fix dev b and s t :: "'a fsst_scheme"
  assume "b < unat (sb_size (sb s))"
  moreover have "unat (sb_size (sb s)) < 2 ^ LENGTH(32)"
    by (rule unsigned_less)
  ultimately have "b < 2 ^ 32"
    by simp
  then show "((dev, b + BPB, t), dev, b, s) \<in> measure (\<lambda>(dev, b, s). 2 ^ 32 - b)"
    by simp
qed simp

definition balloc :: "uint32 \<Rightarrow> 'a fsst_scheme \<Rightarrow> ('a fsst_scheme, uint32) outcome" where
  "balloc dev s = balloc_from dev 0 s"

definition bfree :: "uint32 \<Rightarrow> uint32 \<Rightarrow> 'a fsst_scheme \<Rightarrow> ('a fsst_scheme, unit) outcome" where
  "bfree dev b s =
     andThen (bread dev (BBLOCK b s) s) (\<lambda>bp s.
     let bi = unat b mod BPB in
     if \<not> bit_set (b_data (bufs s ! bp)) bi then Panic ''freeing free block''
     else andThen (log_write bp (set_data bp (clear_bit (b_data (bufs s ! bp)) bi) s)) (\<lambda>_ s. brelse bp s))"

subsection \<open>Inodes\<close>

definition iinit :: "'a fsst_scheme \<Rightarrow> 'a fsst_scheme" where
  "iinit s = fold (\<lambda>i. initsleeplock (SL_inode i)) [0..<NINODE] s"

text \<open>\<^verbatim>\<open>(struct dinode*)bp->data + inum%IPB\<close>\<close>

definition dinode_off :: "uint32 \<Rightarrow> nat" where
  "dinode_off inum = 64 * (unat inum mod IPB)"

definition decode_dinode :: "byte list \<Rightarrow> nat \<Rightarrow> dinode" where
  "decode_dinode d i = \<lparr>d_type = get16 d i, d_major = get16 d (i + 2), d_minor = get16 d (i + 4),
     d_nlink = get16 d (i + 6), d_size = get32 d (i + 8), d_addrs = get_uints d (i + 12) (NDIRECT + 1)\<rparr>"

definition encode_dinode :: "byte list \<Rightarrow> nat \<Rightarrow> dinode \<Rightarrow> byte list" where
  "encode_dinode d i x =
     (let d = put16 d i (d_type x);
          d = put16 d (i + 2) (d_major x);
          d = put16 d (i + 4) (d_minor x);
          d = put16 d (i + 6) (d_nlink x);
          d = put32 d (i + 8) (d_size x) in
      put_uints d (i + 12) (d_addrs x))"

definition iget :: "uint32 \<Rightarrow> uint32 \<Rightarrow> 'a fsst_scheme \<Rightarrow> ('a fsst_scheme, nat) outcome" where
  "iget dev inum s =
     andThen (acquire L_itable s) (\<lambda>_ s.
     case first_index (\<lambda>x. i_ref x > 0 \<and> i_dev x = dev \<and> i_inum x = inum) (itable s) of
       Some ip \<Rightarrow>
         andThen (release L_itable (upd_inode ip (\<lambda>x. x\<lparr>i_ref := i_ref x + 1\<rparr>) s)) (\<lambda>_ s. Ok ip s)
     | None \<Rightarrow>
         (case first_index (\<lambda>x. i_ref x = 0) (itable s) of
            None \<Rightarrow> Panic ''iget: no inodes''
          | Some ip \<Rightarrow>
              andThen (release L_itable (upd_inode ip
                (\<lambda>x. x\<lparr>i_dev := dev, i_inum := inum, i_ref := 1, i_valid := False\<rparr>) s)) (\<lambda>_ s. Ok ip s)))"

fun ialloc_from :: "uint32 \<Rightarrow> uint16 \<Rightarrow> nat list \<Rightarrow> 'a fsst_scheme \<Rightarrow> ('a fsst_scheme, nat option) outcome" where
  "ialloc_from dev type [] s = Ok None s"
| "ialloc_from dev type (inum # inums) s =
     andThen (bread dev (IBLOCK (of_nat inum) s) s) (\<lambda>bp s.
     let d = b_data (bufs s ! bp); off = dinode_off (of_nat inum) in
     if d_type (decode_dinode d off) = 0 then
       andThen (log_write bp (set_data bp (put16 (put_bytes d off (replicate 64 0)) off type) s)) (\<lambda>_ s.
       andThen (brelse bp s) (\<lambda>_ s.
       andThen (iget dev (of_nat inum) s) (\<lambda>ip s. Ok (Some ip) s)))
     else andThen (brelse bp s) (\<lambda>_ s. ialloc_from dev type inums s))"

definition ialloc :: "uint32 \<Rightarrow> uint16 \<Rightarrow> 'a fsst_scheme \<Rightarrow> ('a fsst_scheme, nat option) outcome" where
  "ialloc dev type s = ialloc_from dev type [1..<unat (sb_ninodes (sb s))] s"

definition disk_part :: "inode \<Rightarrow> dinode" where
  "disk_part x = \<lparr>d_type = i_type x, d_major = i_major x, d_minor = i_minor x, d_nlink = i_nlink x,
     d_size = i_size x, d_addrs = i_addrs x\<rparr>"

definition iupdate :: "nat \<Rightarrow> 'a fsst_scheme \<Rightarrow> ('a fsst_scheme, unit) outcome" where
  "iupdate ip s =
     andThen (bread (i_dev (ino s ip)) (IBLOCK (i_inum (ino s ip)) s) s) (\<lambda>bp s.
     let d = encode_dinode (b_data (bufs s ! bp)) (dinode_off (i_inum (ino s ip))) (disk_part (ino s ip)) in
     andThen (log_write bp (set_data bp d s)) (\<lambda>_ s. brelse bp s))"

definition idup :: "nat \<Rightarrow> 'a fsst_scheme \<Rightarrow> ('a fsst_scheme, nat) outcome" where
  "idup ip s =
     andThen (acquire L_itable s) (\<lambda>_ s.
     andThen (release L_itable (upd_inode ip (\<lambda>x. x\<lparr>i_ref := i_ref x + 1\<rparr>) s)) (\<lambda>_ s. Ok ip s))"

definition load_inode :: "dinode \<Rightarrow> inode \<Rightarrow> inode" where
  "load_inode x i = i\<lparr>i_type := d_type x, i_major := d_major x, i_minor := d_minor x, i_nlink := d_nlink x,
     i_size := d_size x, i_addrs := d_addrs x\<rparr>"

text \<open>The part of \<^verbatim>\<open>ilock()\<close> behind \<^verbatim>\<open>acquiresleep()\<close>.\<close>

definition ilock_load :: "nat \<Rightarrow> 'a fsst_scheme \<Rightarrow> ('a fsst_scheme, unit) outcome" where
  "ilock_load ip s =
     (if i_valid (ino s ip) then Ok () s
      else
        andThen (bread (i_dev (ino s ip)) (IBLOCK (i_inum (ino s ip)) s) s) (\<lambda>bp s.
        let x = decode_dinode (b_data (bufs s ! bp)) (dinode_off (i_inum (ino s ip))) in
        andThen (brelse bp (upd_inode ip (load_inode x) s)) (\<lambda>_ s.
        let s = upd_inode ip (\<lambda>i. i\<lparr>i_valid := True\<rparr>) s in
        if i_type (ino s ip) = 0 then Panic ''ilock: no type'' else Ok () s)))"

definition ilock :: "nat option \<Rightarrow> 'a fsst_scheme \<Rightarrow> ('a fsst_scheme, unit) outcome" where
  "ilock p s =
     (case p of
        None \<Rightarrow> Panic ''ilock''
      | Some ip \<Rightarrow>
          if i_ref (ino s ip) < 1 then Panic ''ilock''
          else andThen (acquiresleep (SL_inode ip) s) (\<lambda>_ s. ilock_load ip s))"

definition ilock_resume :: "nat \<Rightarrow> 'a fsst_scheme \<Rightarrow> ('a fsst_scheme, unit) outcome" where
  "ilock_resume ip s = andThen (acquiresleep_resume (SL_inode ip) s) (\<lambda>_ s. ilock_load ip s)"

definition iunlock :: "nat option \<Rightarrow> 'a fsst_scheme \<Rightarrow> ('a fsst_scheme, unit) outcome" where
  "iunlock p s =
     (case p of
        None \<Rightarrow> Panic ''iunlock''
      | Some ip \<Rightarrow>
          andThen (holdingsleep (SL_inode ip) s) (\<lambda>h s.
          if \<not> h \<or> i_ref (ino s ip) < 1 then Panic ''iunlock''
          else releasesleep (SL_inode ip) s))"

subsection \<open>Inode content\<close>

definition bmap_direct :: "nat \<Rightarrow> nat \<Rightarrow> 'a fsst_scheme \<Rightarrow> ('a fsst_scheme, uint32) outcome" where
  "bmap_direct ip k s =
     (let addr = i_addrs (ino s ip) ! k in
      if addr \<noteq> 0 then Ok addr s
      else andThen (balloc (i_dev (ino s ip)) s) (\<lambda>addr s.
        if addr = 0 then Ok 0 s
        else Ok addr (upd_inode ip (\<lambda>x. x\<lparr>i_addrs := (i_addrs x)[k := addr]\<rparr>) s)))"

definition bmap :: "nat \<Rightarrow> uint32 \<Rightarrow> 'a fsst_scheme \<Rightarrow> ('a fsst_scheme, uint32) outcome" where
  "bmap ip bn s =
     (if unat bn < NDIRECT then bmap_direct ip (unat bn) s
      else if unat bn - NDIRECT < NINDIRECT then
        andThen (bmap_direct ip NDIRECT s) (\<lambda>addr s.
        if addr = 0 then Ok 0 s
        else
          andThen (bread (i_dev (ino s ip)) addr s) (\<lambda>bp s.
          let k = 4 * (unat bn - NDIRECT); addr = get32 (b_data (bufs s ! bp)) k in
          if addr \<noteq> 0 then andThen (brelse bp s) (\<lambda>_ s. Ok addr s)
          else
            andThen (balloc (i_dev (ino s ip)) s) (\<lambda>addr s.
            andThen (if addr \<noteq> 0 then log_write bp (set_data bp (put32 (b_data (bufs s ! bp)) k addr) s)
                     else Ok () s) (\<lambda>_ s.
            andThen (brelse bp s) (\<lambda>_ s. Ok addr s)))))
      else Panic ''bmap: out of range'')"

definition itrunc_direct :: "nat \<Rightarrow> nat \<Rightarrow> 'a fsst_scheme \<Rightarrow> ('a fsst_scheme, unit) outcome" where
  "itrunc_direct ip i s =
     (let addr = i_addrs (ino s ip) ! i in
      if addr = 0 then Ok () s
      else andThen (bfree (i_dev (ino s ip)) addr s) (\<lambda>_ s.
        Ok () (upd_inode ip (\<lambda>x. x\<lparr>i_addrs := (i_addrs x)[i := 0]\<rparr>) s)))"

definition itrunc :: "nat \<Rightarrow> 'a fsst_scheme \<Rightarrow> ('a fsst_scheme, unit) outcome" where
  "itrunc ip s =
     andThen (foreach [0..<NDIRECT] (itrunc_direct ip) s) (\<lambda>_ s.
     andThen
       (let addr = i_addrs (ino s ip) ! NDIRECT in
        if addr = 0 then Ok () s
        else
          andThen (bread (i_dev (ino s ip)) addr s) (\<lambda>bp s.
          andThen (foreach [0..<NINDIRECT] (\<lambda>j s.
             let a = get32 (b_data (bufs s ! bp)) (4 * j) in
             if a \<noteq> 0 then bfree (i_dev (ino s ip)) a s else Ok () s) s) (\<lambda>_ s.
          andThen (brelse bp s) (\<lambda>_ s. itrunc_direct ip NDIRECT s))))
       (\<lambda>_ s. iupdate ip (upd_inode ip (\<lambda>x. x\<lparr>i_size := 0\<rparr>) s)))"

definition iput :: "nat \<Rightarrow> 'a fsst_scheme \<Rightarrow> ('a fsst_scheme, unit) outcome" where
  "iput ip s =
     andThen (acquire L_itable s) (\<lambda>_ s.
     andThen
       (if i_ref (ino s ip) = 1 \<and> i_valid (ino s ip) \<and> i_nlink (ino s ip) = 0 then
          andThen (acquiresleep (SL_inode ip) s) (\<lambda>_ s.
          andThen (release L_itable s) (\<lambda>_ s.
          andThen (itrunc ip s) (\<lambda>_ s.
          andThen (iupdate ip (upd_inode ip (\<lambda>x. x\<lparr>i_type := 0\<rparr>) s)) (\<lambda>_ s.
          andThen (releasesleep (SL_inode ip) (upd_inode ip (\<lambda>x. x\<lparr>i_valid := False\<rparr>) s)) (\<lambda>_ s.
          acquire L_itable s)))))
        else Ok () s)
       (\<lambda>_ s. release L_itable (upd_inode ip (\<lambda>x. x\<lparr>i_ref := i_ref x - 1\<rparr>) s)))"

definition iunlockput :: "nat option \<Rightarrow> 'a fsst_scheme \<Rightarrow> ('a fsst_scheme, unit) outcome" where
  "iunlockput p s = andThen (iunlock p s) (\<lambda>_ s. deref p (\<lambda>ip. iput ip s))"

record stat =
  st_dev :: uint32
  st_ino :: uint32
  st_type :: uint16
  st_nlink :: uint16
  st_size :: uint64

definition stati :: "nat \<Rightarrow> 'a fsst_scheme \<Rightarrow> stat" where
  "stati ip s = (let x = ino s ip in
     \<lparr>st_dev = i_dev x, st_ino = i_inum x, st_type = i_type x, st_nlink = i_nlink x, st_size = ucast (i_size x)\<rparr>)"

text \<open>
  Where \<^verbatim>\<open>readi()\<close> puts the bytes and \<^verbatim>\<open>writei()\<close> takes them from: an address of the user or of the
  kernel's memory, or a local variable of the caller, whose bytes are part of the result or of the argument.
\<close>

datatype place = User uint64 | Kernel uint64 | Local "byte list"

definition copy_to :: "place \<Rightarrow> nat \<Rightarrow> byte list \<Rightarrow> 'a fsst_scheme \<Rightarrow> ('a fsst_scheme, bool) outcome" where
  "copy_to dst tot bs s =
     (case dst of
        User a \<Rightarrow> either_copyout True (a + of_nat tot) bs s
      | Kernel a \<Rightarrow> either_copyout False (a + of_nat tot) bs s
      | Local _ \<Rightarrow> Ok True s)"

definition copy_from :: "place \<Rightarrow> nat \<Rightarrow> nat \<Rightarrow> 'a fsst_scheme \<Rightarrow> ('a fsst_scheme, byte list \<times> bool) outcome" where
  "copy_from src tot m s =
     (case src of
        User a \<Rightarrow> either_copyin True (a + of_nat tot) m s
      | Kernel a \<Rightarrow> either_copyin False (a + of_nat tot) m s
      | Local bs \<Rightarrow> Ok (take m (drop tot bs), True) s)"

text \<open>\<^verbatim>\<open>m = min(n - tot, BSIZE - off%BSIZE)\<close>\<close>

definition span :: "nat \<Rightarrow> nat \<Rightarrow> nat" where
  "span left off = min left (BSIZE - off mod BSIZE)"

lemma span_pos [simp]: "0 < left \<Longrightarrow> 0 < span left off" and span_le: "span left off \<le> left"
  by (simp_all add: span_def)

text \<open>
  The loop of \<^verbatim>\<open>readi()\<close>: \<open>left\<close> is \<^verbatim>\<open>n - tot\<close>; the result is \<^verbatim>\<open>tot\<close> and the bytes read.  Below the bounds that
  \<^verbatim>\<open>readi()\<close> has checked, the sums of the C code do not wrap.
\<close>

function readi_loop ::
  "place \<Rightarrow> nat \<Rightarrow> nat \<Rightarrow> nat \<Rightarrow> nat \<Rightarrow> 'a fsst_scheme \<Rightarrow> ('a fsst_scheme, int \<times> byte list) outcome" where
  "readi_loop dst ip off left tot s =
     (if left = 0 then Ok (int tot, []) s
      else
        andThen (bmap ip (of_nat (off div BSIZE)) s) (\<lambda>addr s.
        if addr = 0 then Ok (int tot, []) s
        else
          andThen (bread (i_dev (ino s ip)) addr s) (\<lambda>bp s.
          let m = span left off; bs = take m (drop (off mod BSIZE) (b_data (bufs s ! bp))) in
          andThen (copy_to dst tot bs s) (\<lambda>ok s.
          andThen (brelse bp s) (\<lambda>_ s.
          if \<not> ok then Ok (- 1, []) s
          else
            andThen (readi_loop dst ip (off + m) (left - m) (tot + m) s) (\<lambda>(r, cs) s.
            Ok (r, bs @ cs) s))))))"
  by auto
termination
  by (relation "measure (\<lambda>(dst, ip, off, left, tot, s). left)") (auto simp: span_def)

definition readi ::
  "place \<Rightarrow> nat \<Rightarrow> uint32 \<Rightarrow> uint32 \<Rightarrow> 'a fsst_scheme \<Rightarrow> ('a fsst_scheme, int \<times> byte list) outcome" where
  "readi dst ip off n s =
     (let sz = i_size (ino s ip) in
      if sz < off \<or> off + n < off then Ok (0, []) s
      else
        let n = (if sz < off + n then sz - off else n) in
        readi_loop dst ip (unat off) (unat n) 0 s)"

text \<open>The loop of \<^verbatim>\<open>writei()\<close>: the result is \<^verbatim>\<open>tot\<close> when it ends.\<close>

function writei_loop ::
  "place \<Rightarrow> nat \<Rightarrow> nat \<Rightarrow> nat \<Rightarrow> nat \<Rightarrow> 'a fsst_scheme \<Rightarrow> ('a fsst_scheme, nat) outcome" where
  "writei_loop src ip off left tot s =
     (if left = 0 then Ok tot s
      else
        andThen (bmap ip (of_nat (off div BSIZE)) s) (\<lambda>addr s.
        if addr = 0 then Ok tot s
        else
          andThen (bread (i_dev (ino s ip)) addr s) (\<lambda>bp s.
          let m = span left off in
          andThen (copy_from src tot m s) (\<lambda>(bs, ok) s.
          let s = set_data bp (put_bytes (b_data (bufs s ! bp)) (off mod BSIZE) bs) s in
          if \<not> ok then andThen (brelse bp s) (\<lambda>_ s. Ok tot s)
          else
            andThen (log_write bp s) (\<lambda>_ s.
            andThen (brelse bp s) (\<lambda>_ s.
            writei_loop src ip (off + m) (left - m) (tot + m) s)))))) "
  by auto
termination
  by (relation "measure (\<lambda>(src, ip, off, left, tot, s). left)") (auto simp: span_def)

definition writei ::
  "place \<Rightarrow> nat \<Rightarrow> uint32 \<Rightarrow> uint32 \<Rightarrow> 'a fsst_scheme \<Rightarrow> ('a fsst_scheme, int) outcome" where
  "writei src ip off n s =
     (if i_size (ino s ip) < off \<or> off + n < off then Ok (- 1) s
      else if of_nat (MAXFILE * BSIZE) < off + n then Ok (- 1) s
      else
        andThen (writei_loop src ip (unat off) (unat n) 0 s) (\<lambda>tot s.
        let end_off = off + of_nat tot;
            s = (if i_size (ino s ip) < end_off then upd_inode ip (\<lambda>x. x\<lparr>i_size := end_off\<rparr>) s else s) in
        andThen (iupdate ip s) (\<lambda>_ s. Ok (int tot) s)))"

declare balloc_from.simps [simp del] readi_loop.simps [simp del] writei_loop.simps [simp del]

subsection \<open>Directories\<close>

text \<open>A name is the string before its terminator; \<open>arr\<close> reads zeros behind its end.\<close>

definition namecmp :: "byte list \<Rightarrow> byte list \<Rightarrow> int" where
  "namecmp a b = strncmp (arr a) (arr b) DIRSIZ"

definition dirent_inum :: "byte list \<Rightarrow> uint16" where
  "dirent_inum de = get16 de 0"

definition dirent_name :: "byte list \<Rightarrow> byte list" where
  "dirent_name de = take DIRSIZ (drop 2 de)"

definition make_dirent :: "uint32 \<Rightarrow> byte list \<Rightarrow> byte list" where
  "make_dirent inum name = bytes16 (ucast inum) @ strncpy (arr name) DIRSIZ"

definition read_dirent :: "nat \<Rightarrow> uint32 \<Rightarrow> 'a fsst_scheme \<Rightarrow> ('a fsst_scheme, int \<times> byte list) outcome" where
  "read_dirent dp off s = readi (Local []) dp off 16 s"

lemma readi_loop_le:
  "readi_loop dst ip off left tot s = Ok (r, bs) t \<Longrightarrow> r \<le> int (tot + left)"
proof (induction dst ip off left tot s arbitrary: r bs t rule: readi_loop.induct)
  case (1 dst ip off left tot s)
  show ?case
    using "1.prems" "1.IH" span_le [of left off]
    by (subst (asm) readi_loop.simps) (fastforce simp: Let_def split: if_splits)
qed

lemma read_dirent_advances:
  assumes "read_dirent dp off s = Ok (16, bs) t"
  shows "2 ^ 32 - unat (off + 16) < 2 ^ 32 - unat off"
proof -
  have "\<not> off + 16 < off"
    using assms by (auto simp: read_dirent_def readi_def split: if_splits)
  then have "unat off \<le> unat (off + 16)"
    by (simp add: word_less_nat_alt)
  then have "unat (off + 16) = unat off + 16"
    by (auto simp: unat_plus_if' split: if_splits)
  moreover have "unat (off + 16) < 2 ^ LENGTH(32)"
    by (rule unsigned_less)
  ultimately show ?thesis
    by simp
qed

function dirlookup_from ::
  "nat \<Rightarrow> byte list \<Rightarrow> uint32 \<Rightarrow> 'a fsst_scheme \<Rightarrow> ('a fsst_scheme, (nat \<times> uint32) option) outcome" where
  "dirlookup_from dp name off s =
     (if off < i_size (ino s dp) then
        andThen (read_dirent dp off s) (\<lambda>(r, de) s.
        if r \<noteq> 16 then Panic ''dirlookup read''
        else if dirent_inum de \<noteq> 0 \<and> namecmp name (dirent_name de) = 0 then
          andThen (iget (i_dev (ino s dp)) (ucast (dirent_inum de)) s) (\<lambda>ip s. Ok (Some (ip, off)) s)
        else dirlookup_from dp name (off + 16) s)
      else Ok None s)"
  by auto
termination
  by (relation "measure (\<lambda>(dp, name, off, s). 2 ^ 32 - unat off)") (auto dest: read_dirent_advances)

definition dirlookup ::
  "nat \<Rightarrow> byte list \<Rightarrow> 'a fsst_scheme \<Rightarrow> ('a fsst_scheme, (nat \<times> uint32) option) outcome" where
  "dirlookup dp name s =
     (if i_type (ino s dp) \<noteq> T_DIR then Panic ''dirlookup not DIR'' else dirlookup_from dp name 0 s)"

text \<open>The offset of the first unused entry, or of the end.\<close>

function dirlink_slot :: "nat \<Rightarrow> uint32 \<Rightarrow> 'a fsst_scheme \<Rightarrow> ('a fsst_scheme, uint32) outcome" where
  "dirlink_slot dp off s =
     (if off < i_size (ino s dp) then
        andThen (read_dirent dp off s) (\<lambda>(r, de) s.
        if r \<noteq> 16 then Panic ''dirlink read''
        else if dirent_inum de = 0 then Ok off s
        else dirlink_slot dp (off + 16) s)
      else Ok off s)"
  by auto
termination
  by (relation "measure (\<lambda>(dp, off, s). 2 ^ 32 - unat off)") (auto dest: read_dirent_advances)

definition dirlink :: "nat \<Rightarrow> byte list \<Rightarrow> uint32 \<Rightarrow> 'a fsst_scheme \<Rightarrow> ('a fsst_scheme, bool) outcome" where
  "dirlink dp name inum s =
     andThen (dirlookup dp name s) (\<lambda>found s.
     case found of
       Some (ip, off) \<Rightarrow> andThen (iput ip s) (\<lambda>_ s. Ok False s)
     | None \<Rightarrow>
         andThen (dirlink_slot dp 0 s) (\<lambda>off s.
         andThen (writei (Local (make_dirent inum name)) dp off 16 s) (\<lambda>r s. Ok (r = 16) s)))"

subsection \<open>Paths\<close>

abbreviation (input) slash :: byte where "slash \<equiv> 47"

definition skipelem :: "byte list \<Rightarrow> (byte list \<times> byte list) option" where
  "skipelem path =
     (let path = dropWhile (\<lambda>c. c = slash) path in
      if path = [] then None
      else
        let elem = takeWhile (\<lambda>c. c \<noteq> slash) path; rest = dropWhile (\<lambda>c. c \<noteq> slash) path in
        Some (take DIRSIZ elem, dropWhile (\<lambda>c. c = slash) rest))"

lemma skipelem_shorter:
  assumes "skipelem path = Some (name, rest)"
  shows "length rest < length path"
proof -
  let ?p = "dropWhile (\<lambda>c. c = slash) path"
  have p: "?p \<noteq> []" and rest: "rest = dropWhile (\<lambda>c. c = slash) (dropWhile (\<lambda>c. c \<noteq> slash) ?p)"
    using assms by (auto simp: skipelem_def Let_def split: if_splits)
  have "hd ?p \<noteq> slash"
    using p by (rule hd_dropWhile)
  then have "dropWhile (\<lambda>c. c \<noteq> slash) ?p = dropWhile (\<lambda>c. c \<noteq> slash) (tl ?p)"
    using p by (cases ?p) simp_all
  then have "length rest \<le> length (tl ?p)"
    unfolding rest using length_dropWhile_le le_trans by metis
  also have "\<dots> < length ?p"
    using p by simp
  also have "\<dots> \<le> length path"
    by (rule length_dropWhile_le)
  finally show ?thesis .
qed

function namex_from ::
  "byte list \<Rightarrow> bool \<Rightarrow> byte list \<Rightarrow> nat \<Rightarrow> 'a fsst_scheme \<Rightarrow> ('a fsst_scheme, nat option \<times> byte list) outcome" where
  "namex_from path nameiparent name ip s =
     (case skipelem path of
        None \<Rightarrow>
          if nameiparent then andThen (iput ip s) (\<lambda>_ s. Ok (None, name) s)
          else Ok (Some ip, name) s
      | Some (name, path) \<Rightarrow>
          andThen (ilock (Some ip) s) (\<lambda>_ s.
          if i_type (ino s ip) \<noteq> T_DIR then andThen (iunlockput (Some ip) s) (\<lambda>_ s. Ok (None, name) s)
          else if nameiparent \<and> path = [] then
            andThen (iunlock (Some ip) s) (\<lambda>_ s. Ok (Some ip, name) s)
          else
            andThen (dirlookup ip name s) (\<lambda>found s.
            andThen (iunlockput (Some ip) s) (\<lambda>_ s.
            case found of
              None \<Rightarrow> Ok (None, name) s
            | Some (next_ip, off) \<Rightarrow> namex_from path nameiparent name next_ip s))))"
  by auto
termination
  by (relation "measure (\<lambda>(path, np, name, ip, s). length path)") (auto dest: skipelem_shorter)

definition namex ::
  "byte list \<Rightarrow> bool \<Rightarrow> 'a fsst_scheme \<Rightarrow> ('a fsst_scheme, nat option \<times> byte list) outcome" where
  "namex path nameiparent s =
     andThen (if path \<noteq> [] \<and> hd path = slash then iget ROOTDEV ROOTINO s
              else with_myproc s (\<lambda>p. deref (p_cwd (proc s ! p)) (\<lambda>ip. idup ip s))) (\<lambda>ip s.
     namex_from path nameiparent [] ip s)"

definition namei :: "byte list \<Rightarrow> 'a fsst_scheme \<Rightarrow> ('a fsst_scheme, nat option) outcome" where
  "namei path s = andThen (namex path False s) (\<lambda>(ip, name) s. Ok ip s)"

definition nameiparent ::
  "byte list \<Rightarrow> 'a fsst_scheme \<Rightarrow> ('a fsst_scheme, nat option \<times> byte list) outcome" where
  "nameiparent path s = namex path True s"

declare dirlookup_from.simps [simp del] dirlink_slot.simps [simp del] namex_from.simps [simp del]

section \<open>Inodes and directory entries on disk\<close>

lemma encode_dinode_length [simp]:
  "i + 64 \<le> length d \<Longrightarrow> length (d_addrs x) = 13 \<Longrightarrow> length (encode_dinode d i x) = length d"
  by (simp add: encode_dinode_def Let_def)

lemma decode_encode_dinode:
  assumes "i + 64 \<le> length d" and "length (d_addrs x) = 13"
  shows "decode_dinode (encode_dinode d i x) i = x"
proof -
  let ?d = "put32 (put16 (put16 (put16 (put16 d i (d_type x)) (i + 2) (d_major x)) (i + 4) (d_minor x)) (i + 6) (d_nlink x))
    (i + 8) (d_size x)"
  have "get_uints (put_uints ?d (i + 12) (d_addrs x)) (i + 12) (length (d_addrs x)) = d_addrs x"
    using assms by (intro get_uints_put_uints) simp
  then show ?thesis
    using assms by (simp add: decode_dinode_def encode_dinode_def Let_def get_put_uints_other)
qed

lemma get_put_uints_above:
  "i + 4 * length xs \<le> length bs \<Longrightarrow> i + 4 * length xs \<le> j \<Longrightarrow> j + 4 \<le> length bs \<Longrightarrow>
   get32 (put_uints bs i xs) j = get32 bs j"
  "i + 4 * length xs \<le> length bs \<Longrightarrow> i + 4 * length xs \<le> j \<Longrightarrow> j + 2 \<le> length bs \<Longrightarrow>
   get16 (put_uints bs i xs) j = get16 bs j"
  by (induction xs arbitrary: bs i) simp_all

lemma get_encode_dinode_other:
  assumes "i + 64 \<le> length d" and "length (d_addrs x) = 13"
  shows "j + 4 \<le> length d \<Longrightarrow> j + 4 \<le> i \<or> i + 64 \<le> j \<Longrightarrow> get32 (encode_dinode d i x) j = get32 d j"
    "j + 2 \<le> length d \<Longrightarrow> j + 2 \<le> i \<or> i + 64 \<le> j \<Longrightarrow> get16 (encode_dinode d i x) j = get16 d j"
  using assms by (auto simp: encode_dinode_def Let_def get_put_uints_other get_put_uints_above)

lemma decode_encode_other:
  assumes "i + 64 \<le> length d" and "length (d_addrs x) = 13" and "j + 64 \<le> length d" and "j + 64 \<le> i \<or> i + 64 \<le> j"
  shows "decode_dinode (encode_dinode d i x) j = decode_dinode d j"
  using assms by (auto simp: decode_dinode_def get_uints_def get_encode_dinode_other)

lemma dinode_off_cases:
  "dinode_off a + 64 \<le> BSIZE" "dinode_off a = dinode_off b \<or> dinode_off a + 64 \<le> dinode_off b \<or> dinode_off b + 64 \<le> dinode_off a"
proof -
  have "unat a mod IPB < IPB"
    by simp
  then show "dinode_off a + 64 \<le> BSIZE"
    unfolding dinode_off_def by linarith
  show "dinode_off a = dinode_off b \<or> dinode_off a + 64 \<le> dinode_off b \<or> dinode_off b + 64 \<le> dinode_off a"
    unfolding dinode_off_def by (cases "unat a mod IPB" "unat b mod IPB" rule: linorder_cases) linarith+
qed

text \<open>
  C30. Of the sixteen inodes of a block, the one that is written is read back as it was, with all its block
  addresses, and the others are unchanged.
\<close>

theorem dinode_roundtrip:
  assumes "length d = BSIZE" and "length (d_addrs x) = NDIRECT + 1"
  shows "decode_dinode (encode_dinode d (dinode_off a) x) (dinode_off b) =
    (if dinode_off a = dinode_off b then x else decode_dinode d (dinode_off b))"
  using assms dinode_off_cases(1) [of a] dinode_off_cases(1) [of b] dinode_off_cases(2) [of a b]
  by (auto simp: decode_encode_dinode intro!: decode_encode_other)

theorem dinode_roundtrip_witness:
  "d_size (decode_dinode (encode_dinode (replicate BSIZE 0) (dinode_off 17)
     \<lparr>d_type = 2, d_major = 0, d_minor = 0, d_nlink = 1, d_size = 5000, d_addrs = replicate 13 77\<rparr>) (dinode_off 33)) = 5000"
  using dinode_roundtrip [of "replicate BSIZE 0"
    "\<lparr>d_type = 2, d_major = 0, d_minor = 0, d_nlink = 1, d_size = 5000, d_addrs = replicate 13 77\<rparr>" 17 33]
  by (simp add: dinode_off_def)

lemma upto_nul_take: "0 \<notin> set name \<Longrightarrow> upto_nul (arr name) n = take n name"
proof (induction n arbitrary: name)
  case (Suc n)
  show ?case
  proof (cases name)
    case Nil
    then show ?thesis
      by (simp add: arr_def)
  next
    case (Cons c cs)
    then show ?thesis
      using Suc by (simp add: arr_Cons)
  qed
qed simp

lemma namecmp_zero: "namecmp a b = 0 \<longleftrightarrow> upto_nul (arr a) DIRSIZ = upto_nul (arr b) DIRSIZ"
  by (simp add: namecmp_def strncmp_zero_iff)

lemma dirent_fields:
  "dirent_inum (make_dirent inum name) = ucast inum" "dirent_name (make_dirent inum name) = strncpy (arr name) DIRSIZ"
  "length (make_dirent inum name) = 16"
proof -
  show "dirent_inum (make_dirent inum name) = ucast inum"
    unfolding dirent_inum_def make_dirent_def by (rule get16_bytes16) (simp_all add: bytes16_def)
  show "dirent_name (make_dirent inum name) = strncpy (arr name) DIRSIZ" "length (make_dirent inum name) = 16"
    by (simp_all add: make_dirent_def dirent_name_def)
qed

text \<open>
  C31. The entry that \<^verbatim>\<open>dirlink()\<close> writes for a name is found by a lookup of exactly the names that agree with
  it in their first \<^verbatim>\<open>DIRSIZ\<close> bytes, and gives the inode number back when that fits 16 bits.
\<close>

theorem dirent_roundtrip:
  assumes "0 \<notin> set name" and "0 \<notin> set name'"
  shows "length (make_dirent inum name) = 16 \<and>
    (namecmp name' (dirent_name (make_dirent inum name)) = 0 \<longleftrightarrow> take DIRSIZ name' = take DIRSIZ name) \<and>
    (unat inum < 2 ^ 16 \<longrightarrow> ucast (dirent_inum (make_dirent inum name)) = inum)"
proof -
  have "namecmp name' (dirent_name (make_dirent inum name)) = 0 \<longleftrightarrow> take DIRSIZ name' = take DIRSIZ name"
    using assms by (simp add: namecmp_zero dirent_fields upto_nul_strncpy upto_nul_take)
  moreover have "ucast (ucast inum :: uint16) = inum" if "unat inum < 2 ^ 16"
    using that by (simp add: word_unat_eq_iff unsigned_ucast_eq take_bit_eq_mod unat_mod)
  ultimately show ?thesis
    by (simp add: dirent_fields)
qed

theorem dirent_roundtrip_witness:
  "namecmp [97, 98] (dirent_name (make_dirent 7 [97, 98])) = 0 \<and> ucast (dirent_inum (make_dirent 7 [97, 98])) = (7 :: uint32)"
  using dirent_roundtrip [of "[97, 98]" "[97, 98]" 7] by simp

section \<open>The map of free blocks\<close>

lemma bit_set_iff: "bit_set d bi \<longleftrightarrow> bit (d ! (bi div 8)) (bi mod 8)"
  by (simp add: bit_set_def bit_iff_and_push_bit_not_eq_0)

lemma bit_set_mark:
  assumes "bi div 8 < length d"
  shows "bit_set (mark_bit d bi) j \<longleftrightarrow> j = bi \<or> bit_set d j"
proof (cases "j div 8 = bi div 8")
  case True
  have "j = bi \<longleftrightarrow> j mod 8 = bi mod 8"
    using True by (metis div_mult_mod_eq)
  moreover have "j mod 8 < 8"
    by simp
  ultimately show ?thesis
    using True assms by (auto simp: bit_set_iff mark_bit_def bit_simps)
qed (auto simp: bit_set_iff mark_bit_def)

lemma bit_set_clear:
  assumes "bi div 8 < length d"
  shows "bit_set (clear_bit d bi) j \<longleftrightarrow> j \<noteq> bi \<and> bit_set d j"
proof (cases "j div 8 = bi div 8")
  case True
  have "j = bi \<longleftrightarrow> j mod 8 = bi mod 8"
    using True by (metis div_mult_mod_eq)
  moreover have "j mod 8 < 8"
    by simp
  ultimately show ?thesis
    using True assms by (auto simp: bit_set_iff clear_bit_def bit_simps)
qed (auto simp: bit_set_iff clear_bit_def)

section \<open>The inode table\<close>

definition live :: "inode \<Rightarrow> bool" where
  "live x \<longleftrightarrow> i_ref x > 0"

text \<open>No inode is in the table twice, and no count is negative.\<close>

definition itable_ok :: "'a fsst_scheme \<Rightarrow> bool" where
  "itable_ok s \<longleftrightarrow> (\<forall>i<length (itable s). 0 \<le> i_ref (ino s i)) \<and>
     (\<forall>i<length (itable s). \<forall>j<length (itable s). live (ino s i) \<longrightarrow> live (ino s j) \<longrightarrow>
        i_dev (ino s i) = i_dev (ino s j) \<longrightarrow> i_inum (ino s i) = i_inum (ino s j) \<longrightarrow> i = j)"

lemma ino_upd_inode: "i < length (itable s) \<Longrightarrow> ino (upd_inode ip f s) i = (if i = ip then f (ino s i) else ino s i)"
  by (simp add: ino_def upd_inode_def)

lemma length_upd_inode [simp]: "length (itable (upd_inode ip f s)) = length (itable s)"
  by (simp add: upd_inode_def)

text \<open>What \<^verbatim>\<open>iget()\<close> may do to entry \<open>ip\<close>, and what that means for the table.\<close>

lemma itable_ok_one:
  assumes ok: "itable_ok s" and len: "length (itable t) = length (itable s)"
    and other: "\<And>i. i < length (itable s) \<Longrightarrow> i \<noteq> ip \<Longrightarrow> ino t i = ino s i" and ref: "0 \<le> i_ref (ino t ip)"
    and uniq: "\<And>i. i < length (itable s) \<Longrightarrow> i \<noteq> ip \<Longrightarrow>
      \<not> (live (ino s i) \<and> i_dev (ino s i) = i_dev (ino t ip) \<and> i_inum (ino s i) = i_inum (ino t ip))"
  shows "itable_ok t"
proof -
  have nonneg: "0 \<le> i_ref (ino t i)" if "i < length (itable s)" for i
    using ok ref other [OF that] that by (cases "i = ip") (simp_all add: itable_ok_def)
  have "i = j" if ij: "i < length (itable s)" "j < length (itable s)" "live (ino t i)" "live (ino t j)"
      "i_dev (ino t i) = i_dev (ino t j)" "i_inum (ino t i) = i_inum (ino t j)" for i j
  proof (rule ccontr)
    assume ne: "i \<noteq> j"
    consider "i = ip" | "j = ip" | "i \<noteq> ip" "j \<noteq> ip"
      by blast
    then show False
    proof cases
      case 1
      then show False
        using uniq [of j] other [of j] ij ne by simp
    next
      case 2
      then show False
        using uniq [of i] other [of i] ij ne by simp
    next
      case 3
      then show False
        using ok other [of i] other [of j] ij ne unfolding itable_ok_def by metis
    qed
  qed
  then show ?thesis
    using nonneg len unfolding itable_ok_def by simp
qed

text \<open>
  C13. \<^verbatim>\<open>iget()\<close> never makes a second copy of an inode: where the inode is in the table it returns that entry with one
  more reference, else it takes an unused entry with one reference and no content; all other entries stay as they are.
\<close>

theorem iget_unique:
  assumes "itable_ok s" and "L_itable \<notin> set (held s)"
    and "\<exists>i<length (itable s). i_ref (ino s i) = 0 \<or> live (ino s i) \<and> i_dev (ino s i) = dev \<and> i_inum (ino s i) = inum"
  shows "\<exists>ip t. iget dev inum s = Ok ip t \<and> itable_ok t \<and> held t = held s \<and> ip < length (itable s) \<and>
    i_dev (ino t ip) = dev \<and> i_inum (ino t ip) = inum \<and>
    (\<forall>i<length (itable s). i \<noteq> ip \<longrightarrow> ino t i = ino s i \<and> \<not> (live (ino s i) \<and> i_dev (ino s i) = dev \<and> i_inum (ino s i) = inum)) \<and>
    (if live (ino s ip) then i_ref (ino t ip) = i_ref (ino s ip) + 1 else i_ref (ino t ip) = 1 \<and> \<not> i_valid (ino t ip))"
proof (cases "first_index (\<lambda>x. i_ref x > 0 \<and> i_dev x = dev \<and> i_inum x = inum) (itable s)")
  case (Some ip)
  note D = first_index_SomeD [OF Some]
  define t where "t = upd_inode ip (\<lambda>x. x\<lparr>i_ref := i_ref x + 1\<rparr>) s"
  have g: "iget dev inum s = Ok ip t" "held t = held s"
    using Some assms(2) by (simp_all add: iget_def acquire_def release_def holding_def t_def upd_inode_def)
  have i: "ip < length (itable s)" "live (ino s ip)" "i_dev (ino s ip) = dev" "i_inum (ino s ip) = inum"
    using D by (simp_all add: ino_def live_def)
  then have t: "ino t ip = (ino s ip)\<lparr>i_ref := i_ref (ino s ip) + 1\<rparr>" "length (itable t) = length (itable s)"
    "\<And>i. i < length (itable s) \<Longrightarrow> i \<noteq> ip \<Longrightarrow> ino t i = ino s i"
    by (simp_all add: t_def ino_upd_inode)
  have u: "\<not> (live (ino s i) \<and> i_dev (ino s i) = dev \<and> i_inum (ino s i) = inum)" if "i < length (itable s)" "i \<noteq> ip" for i
    using assms(1) that i unfolding itable_ok_def by metis
  have "itable_ok t"
  proof (rule itable_ok_one [OF assms(1) t(2,3)])
    show "0 \<le> i_ref (ino t ip)"
      using i(2) unfolding t(1) live_def by simp
    show "\<not> (live (ino s i) \<and> i_dev (ino s i) = i_dev (ino t ip) \<and> i_inum (ino s i) = i_inum (ino t ip))"
      if "i < length (itable s)" "i \<noteq> ip" for i
      using u [OF that] i(3,4) unfolding t(1) by simp
  qed
  then show ?thesis
    using g i t(3) u by (intro exI [of _ ip] exI [of _ t]) (simp add: t(1))
next
  case None
  have no: "\<not> (live (ino s i) \<and> i_dev (ino s i) = dev \<and> i_inum (ino s i) = inum)" if "i < length (itable s)" for i
    using None that by (auto simp: first_index_None live_def ino_def)
  then have "\<exists>x \<in> set (itable s). i_ref x = 0"
    using assms(3) by (auto simp: ino_def)
  then obtain ip where ip: "first_index (\<lambda>x. i_ref x = 0) (itable s) = Some ip"
    using first_index_ex [of "\<lambda>x. i_ref x = 0" "itable s"] by blast
  note D = first_index_SomeD [OF ip]
  define t where "t = upd_inode ip (\<lambda>x. x\<lparr>i_dev := dev, i_inum := inum, i_ref := 1, i_valid := False\<rparr>) s"
  have g: "iget dev inum s = Ok ip t" "held t = held s"
    using None ip assms(2) by (simp_all add: iget_def acquire_def release_def holding_def t_def upd_inode_def)
  have i: "ip < length (itable s)" "\<not> live (ino s ip)"
    using D by (simp_all add: ino_def live_def)
  then have t: "ino t ip = (ino s ip)\<lparr>i_dev := dev, i_inum := inum, i_ref := 1, i_valid := False\<rparr>"
    "length (itable t) = length (itable s)" "\<And>i. i < length (itable s) \<Longrightarrow> i \<noteq> ip \<Longrightarrow> ino t i = ino s i"
    by (simp_all add: t_def ino_upd_inode)
  have "itable_ok t"
  proof (rule itable_ok_one [OF assms(1) t(2,3)])
    show "0 \<le> i_ref (ino t ip)"
      unfolding t(1) by simp
    show "\<not> (live (ino s i) \<and> i_dev (ino s i) = i_dev (ino t ip) \<and> i_inum (ino s i) = i_inum (ino t ip))"
      if "i < length (itable s)" "i \<noteq> ip" for i
      using no [OF that(1)] unfolding t(1) by simp
  qed
  then show ?thesis
    using g i t(3) no by (intro exI [of _ ip] exI [of _ t]) (simp add: t(1))
qed

definition no_inode :: inode where
  "no_inode = \<lparr>i_dev = 0, i_inum = 0, i_ref = 0, i_valid = False, i_type = 0, i_major = 0, i_minor = 0, i_nlink = 0,
     i_size = 0, i_addrs = replicate 13 0\<rparr>"

definition fs_boot :: "inode list \<Rightarrow> 'a \<Rightarrow> 'a fsst_scheme" where
  "fs_boot it z = log_boot 31 (fsst_ext \<lparr>sb_magic = FSMAGIC, sb_size = 2000, sb_nblocks = 1952, sb_ninodes = 200,
     sb_nlog = 31, sb_logstart = 2, sb_inodestart = 33, sb_bmapstart = 46\<rparr> it z)"

lemma fs_boot_fields [simp]:
  "itable (fs_boot it z) = it" "fsst.more (fs_boot it z) = z" "held (fs_boot it z) = []"
  "sb_size (sb (fs_boot it z)) = 2000" "sb_ninodes (sb (fs_boot it z)) = 200" "sb_inodestart (sb (fs_boot it z)) = 33"
  "sb_bmapstart (sb (fs_boot it z)) = 46" "log_size (fs_boot it z) = 31" "lh_n (fs_boot it z) = 0"
  "log_outstanding (fs_boot it z) = 0" "log_committing (fs_boot it z) = False"
proof -
  have m: "logst.more (fs_boot it z) = fsst_ext \<lparr>sb_magic = FSMAGIC, sb_size = 2000, sb_nblocks = 1952, sb_ninodes = 200,
     sb_nlog = 31, sb_logstart = 2, sb_inodestart = 33, sb_bmapstart = 46\<rparr> it z"
    by (simp add: fs_boot_def)
  show "itable (fs_boot it z) = it" "fsst.more (fs_boot it z) = z"
    "sb_size (sb (fs_boot it z)) = 2000" "sb_ninodes (sb (fs_boot it z)) = 200" "sb_inodestart (sb (fs_boot it z)) = 33"
    "sb_bmapstart (sb (fs_boot it z)) = 46"
    using m by (cases "fs_boot it z", simp)+
  show "held (fs_boot it z) = []" "log_size (fs_boot it z) = 31" "lh_n (fs_boot it z) = 0"
    "log_outstanding (fs_boot it z) = 0" "log_committing (fs_boot it z) = False"
    by (simp_all add: fs_boot_def)
qed

lemma fs_boot_ok: "bcache_ok (fs_boot it z) (rev [0..<NBUF])" and fs_boot_sleepable: "sleepable (fs_boot it z)"
  by (simp_all add: fs_boot_def log_boot_ok log_boot_sleepable)

theorem iget_unique_witness:
  "\<exists>ip t. iget 1 5 (fs_boot (no_inode\<lparr>i_dev := 1, i_inum := 5, i_ref := 1\<rparr> # replicate 49 no_inode) () :: fsst) = Ok ip t \<and>
     itable_ok t \<and> i_inum (ino t ip) = 5"
proof -
  let ?s = "fs_boot (no_inode\<lparr>i_dev := 1, i_inum := 5, i_ref := 1\<rparr> # replicate 49 no_inode) () :: fsst"
  have "itable_ok ?s"
    by (auto simp: itable_ok_def ino_def live_def no_inode_def nth_Cons split: nat.splits)
  moreover have "\<exists>i<length (itable ?s). i_ref (ino ?s i) = 0 \<or> live (ino ?s i) \<and> i_dev (ino ?s i) = 1 \<and> i_inum (ino ?s i) = 5"
    by (rule exI [of _ 0]) (simp add: ino_def live_def)
  ultimately show ?thesis
    using iget_unique [of ?s 1 5] by auto
qed

section \<open>Path names\<close>

text \<open>The elements of a path: its parts between slashes that are not empty.\<close>

fun split_path :: "byte list \<Rightarrow> byte list list" where
  "split_path [] = [[]]"
| "split_path (c # cs) =
     (if c = slash then [] # split_path cs else (c # hd (split_path cs)) # tl (split_path cs))"

definition elems :: "byte list \<Rightarrow> byte list list" where
  "elems path = filter (\<lambda>e. e \<noteq> []) (split_path path)"

lemma split_path_ne [simp]: "split_path p \<noteq> []"
  by (cases p) auto

lemma elems_skip: "elems (dropWhile (\<lambda>c. c = slash) p) = elems p"
  by (induction p) (simp_all add: elems_def)

lemma split_path_first:
  "split_path p = takeWhile (\<lambda>c. c \<noteq> slash) p #
     (case dropWhile (\<lambda>c. c \<noteq> slash) p of [] \<Rightarrow> [] | _ # r \<Rightarrow> split_path r)"
  by (induction p) auto

lemma elems_first:
  assumes "p \<noteq> []" and "hd p \<noteq> slash"
  shows "elems p = takeWhile (\<lambda>c. c \<noteq> slash) p # elems (dropWhile (\<lambda>c. c \<noteq> slash) p)"
proof -
  let ?d = "dropWhile (\<lambda>c. c \<noteq> slash) p"
  have "takeWhile (\<lambda>c. c \<noteq> slash) p \<noteq> []"
    using assms by (cases p) auto
  moreover have "filter (\<lambda>e. e \<noteq> []) (case ?d of [] \<Rightarrow> [] | _ # r \<Rightarrow> split_path r) = elems ?d"
  proof (cases ?d)
    case (Cons c r)
    then have "c = slash"
      using hd_dropWhile [of "\<lambda>c. c \<noteq> slash" p] by simp
    then show ?thesis
      using Cons by (simp add: elems_def)
  next
    case Nil
    show ?thesis
      unfolding Nil by (simp add: elems_def)
  qed
  ultimately show ?thesis
    unfolding elems_def [of p] by (subst split_path_first) simp
qed

text \<open>
  C32. \<^verbatim>\<open>skipelem()\<close> takes a path apart element by element, whatever slashes it begins, ends or is filled with: it fails
  exactly on a path with no elements left; otherwise it yields the first element, cut to \<^verbatim>\<open>DIRSIZ\<close> bytes, and a rest that has the
  remaining elements, does not begin with a slash, and is empty exactly when the element was the last one.
\<close>

theorem skipelem_elements:
  "case skipelem path of
     None \<Rightarrow> elems path = []
   | Some (name, rest) \<Rightarrow>
       elems path \<noteq> [] \<and> name = take DIRSIZ (hd (elems path)) \<and> elems rest = tl (elems path) \<and>
       (rest = [] \<longleftrightarrow> tl (elems path) = []) \<and> take 1 rest \<noteq> [slash]"
proof -
  define p where "p = dropWhile (\<lambda>c. c = slash) path"
  define d where "d = dropWhile (\<lambda>c. c \<noteq> slash) p"
  define r where "r = dropWhile (\<lambda>c. c = slash) d"
  have eq: "skipelem path = (if p = [] then None else Some (take DIRSIZ (takeWhile (\<lambda>c. c \<noteq> slash) p), r))"
    by (simp add: skipelem_def Let_def p_def d_def r_def)
  have skip: "elems p = elems path" "elems r = elems d"
    by (simp_all add: p_def r_def elems_skip)
  have hd: "p = [] \<or> hd p \<noteq> slash" "r = [] \<or> hd r \<noteq> slash"
    using hd_dropWhile [of "\<lambda>c. c = slash"] unfolding p_def r_def by blast+
  have nil: "elems [] = []"
    by (simp add: elems_def)
  have r: "r = [] \<longleftrightarrow> elems r = []"
    using elems_first [of r] hd(2) nil by (cases "r = []") auto
  show ?thesis
  proof (cases "p = []")
    case True
    then show ?thesis
      using skip(1) nil by (simp add: eq)
  next
    case False
    then have "elems path = takeWhile (\<lambda>c. c \<noteq> slash) p # elems d"
      using elems_first [of p] hd(1) skip(1) by (simp add: d_def)
    moreover have "take 1 r \<noteq> [slash]"
      using hd(2) by (cases r) auto
    ultimately show ?thesis
      using False r skip(2) by (simp add: eq)
  qed
qed

end
