(* ===== verification/Ring.thy ===== *)
theory Ring
  imports Prelude
begin

text \<open>
  Ring buffers with free-running counters, as the pipe, the console and the UART driver use them:
  \<open>r\<close> and \<open>w\<close> count all bytes ever read and written and wrap around with the word; byte \<open>i\<close> is
  in slot \<open>i mod N\<close>.  The slots stay right when the counters wrap because \<open>N\<close> divides
  the word's range.  \<open>bounded_fifo\<close> is the interface of a queue of limited capacity.
\<close>

section \<open>Counters that wrap\<close>

definition ring_contents :: "'l::len word \<Rightarrow> 'l word \<Rightarrow> 'a list \<Rightarrow> 'a list" where
  "ring_contents r w buf = map (\<lambda>i. buf ! (unat (r + of_nat i) mod length buf)) [0..<unat (w - r)]"

definition ring_ok :: "'l::len word \<Rightarrow> 'l word \<Rightarrow> 'a list \<Rightarrow> bool" where
  "ring_ok r w buf \<longleftrightarrow> 0 < length buf \<and> length buf < 2 ^ LENGTH('l) \<and> length buf dvd 2 ^ LENGTH('l) \<and>
     unat (w - r) \<le> length buf"

lemma length_ring_contents [simp]: "length (ring_contents r w buf) = unat (w - r)"
  by (simp add: ring_contents_def)

lemma unat_add_mod:
  fixes r :: "'l::len word"
  assumes "n dvd 2 ^ LENGTH('l)"
  shows "unat (r + of_nat i) mod n = (unat r + i) mod n"
proof -
  have "unat (r + of_nat i) = (unat r + i) mod 2 ^ LENGTH('l)"
    by (simp add: unat_word_ariths(1) unat_of_nat mod_simps)
  then show ?thesis
    using assms by (simp add: mod_mod_cancel)
qed

lemma unat_succ_diff:
  fixes r w :: "'l::len word"
  assumes "unat (w - r) < n" and "n < 2 ^ LENGTH('l)"
  shows "unat (w + 1 - r) = Suc (unat (w - r))"
proof -
  have eq: "w + 1 - r = (w - r) + 1"
    by simp
  have "unat (w - r) + 1 < 2 ^ LENGTH('l)"
    using assms by simp
  then show ?thesis
    unfolding eq using unat_add_lem [of "w - r" 1] by simp
qed

lemma ring_full_iff:
  fixes r w :: "'l::len word"
  assumes "ring_ok r w buf"
  shows "w = r + of_nat (length buf) \<longleftrightarrow> unat (w - r) = length buf"
proof
  assume "w = r + of_nat (length buf)"
  then show "unat (w - r) = length buf"
    using assms by (simp add: ring_ok_def unat_of_nat)
next
  assume "unat (w - r) = length buf"
  then have "w - r = of_nat (length buf)"
    by (metis of_nat_unat ucast_id)
  then show "w = r + of_nat (length buf)"
    by (metis add.commute diff_add_cancel)
qed

lemma ring_put:
  fixes r w :: "'l::len word" and x :: 'a
  assumes ok: "ring_ok r w buf" and room: "unat (w - r) < length buf"
  defines "buf' \<equiv> buf[unat w mod length buf := x]"
  shows "ring_ok r (w + 1) buf'" and "ring_contents r (w + 1) buf' = ring_contents r w buf @ [x]"
proof -
  let ?n = "length buf" and ?k = "unat (w - r)"
  have d: "?n dvd 2 ^ LENGTH('l)" and lt: "?n < 2 ^ LENGTH('l)" and pos: "0 < ?n"
    using ok by (auto simp: ring_ok_def)
  have succ: "unat (w + 1 - r) = Suc ?k"
    using room lt by (rule unat_succ_diff)
  then show "ring_ok r (w + 1) buf'"
    using ok room by (simp add: ring_ok_def buf'_def)
  have w: "w = r + of_nat ?k"
    by simp
  have wi: "unat w mod ?n = (unat r + ?k) mod ?n"
    using unat_add_mod [OF d, of r ?k] w by simp
  have "buf' ! ((unat r + i) mod ?n) = buf ! ((unat r + i) mod ?n)" if "i < ?k" for i
  proof -
    have "(unat r + i) mod ?n \<noteq> (unat r + ?k) mod ?n"
    proof
      assume "(unat r + i) mod ?n = (unat r + ?k) mod ?n"
      then have "?n dvd (unat r + ?k) - (unat r + i)"
        using that by (metis mod_eq_dvd_iff_nat add_le_cancel_left less_imp_le)
      then show False
        using that room by (auto dest: dvd_imp_le)
    qed
    then show ?thesis
      by (simp add: buf'_def wi)
  qed
  moreover have "buf' ! ((unat r + ?k) mod ?n) = x"
    using pos by (simp add: buf'_def wi)
  moreover have "length buf' = ?n"
    by (simp add: buf'_def)
  ultimately show "ring_contents r (w + 1) buf' = ring_contents r w buf @ [x]"
    by (simp add: ring_contents_def succ unat_add_mod [OF d])
qed

lemma ring_get:
  fixes r w :: "'l::len word"
  assumes ok: "ring_ok r w buf" and ne: "r \<noteq> w"
  shows "ring_ok (r + 1) w buf"
    and "ring_contents r w buf = buf ! (unat r mod length buf) # ring_contents (r + 1) w buf"
proof -
  have pos: "0 < unat (w - r)"
    using ne by (simp add: unat_gt_0)
  have eq: "w - (r + 1) = (w - r) - 1"
    by simp
  have "1 \<le> w - r"
    using pos ne by (simp add: word_le_nat_alt)
  then have pred: "unat (w - (r + 1)) = unat (w - r) - 1"
    unfolding eq by (simp add: unat_sub)
  then have "unat (w - (r + 1)) \<le> unat (w - r)"
    by simp
  then show "ring_ok (r + 1) w buf"
    using ok unfolding ring_ok_def by linarith
  have "[0..<unat (w - r)] = 0 # map Suc [0..<unat (w - r) - 1]"
    using pos by (simp add: map_Suc_upt upt_conv_Cons)
  then show "ring_contents r w buf = buf ! (unat r mod length buf) # ring_contents (r + 1) w buf"
    unfolding ring_contents_def pred by (simp add: comp_def add.assoc)
qed

lemma ring_empty: "ring_contents r w buf = [] \<longleftrightarrow> r = w"
  by (metis length_0_conv length_ring_contents right_minus_eq unat_eq_0)

section \<open>Queues of limited capacity\<close>

datatype 'a fifo_op = Put 'a | Get

text \<open>A run of the two ends of a queue: the items accepted and the items delivered.\<close>

fun fifo_run ::
  "('a \<Rightarrow> 's \<Rightarrow> 's option) \<Rightarrow> ('s \<Rightarrow> ('a \<times> 's) option) \<Rightarrow> 'a fifo_op list \<Rightarrow> 's \<Rightarrow> 'a list \<times> 'a list \<times> 's" where
  "fifo_run put get [] s = ([], [], s)"
| "fifo_run put get (Put x # ops) s =
     (case put x s of
        None \<Rightarrow> fifo_run put get ops s
      | Some t \<Rightarrow> (case fifo_run put get ops t of (ins, outs, u) \<Rightarrow> (x # ins, outs, u)))"
| "fifo_run put get (Get # ops) s =
     (case get s of
        None \<Rightarrow> fifo_run put get ops s
      | Some (x, t) \<Rightarrow> (case fifo_run put get ops t of (ins, outs, u) \<Rightarrow> (ins, x # outs, u)))"

locale bounded_fifo =
  fixes inv :: "'s \<Rightarrow> bool"
    and contents :: "'s \<Rightarrow> 'a list"
    and put :: "'a \<Rightarrow> 's \<Rightarrow> 's option"
    and get :: "'s \<Rightarrow> ('a \<times> 's) option"
    and cap :: nat
  assumes bounded: "inv s \<Longrightarrow> length (contents s) \<le> cap"
    and put_room: "inv s \<Longrightarrow> length (contents s) < cap \<Longrightarrow>
          \<exists>t. put x s = Some t \<and> inv t \<and> contents t = contents s @ [x]"
    and put_full: "inv s \<Longrightarrow> length (contents s) = cap \<Longrightarrow> put x s = None"
    and get_empty: "inv s \<Longrightarrow> contents s = [] \<Longrightarrow> get s = None"
    and get_first: "inv s \<Longrightarrow> contents s = x # xs \<Longrightarrow> \<exists>t. get s = Some (x, t) \<and> inv t \<and> contents t = xs"
begin

lemma put_cases:
  assumes "inv s"
  obtains "put x s = None" "length (contents s) = cap"
  | t where "put x s = Some t" "inv t" "contents t = contents s @ [x]"
  using bounded [OF assms] put_room [OF assms, of x] put_full [OF assms, of x]
  by (cases "length (contents s) = cap") auto

lemma get_cases:
  assumes "inv s"
  obtains "get s = None" "contents s = []"
  | x t where "get s = Some (x, t)" "inv t" "contents s = x # contents t"
  using get_empty [OF assms] get_first [OF assms] by (cases "contents s") fastforce+

lemma in_order:
  "inv s \<Longrightarrow> fifo_run put get ops s = (ins, outs, t) \<Longrightarrow> inv t \<and> contents s @ ins = outs @ contents t"
proof (induction ops arbitrary: s ins outs t)
  case (Cons op ops)
  show ?case
  proof (cases op)
    case (Put x)
    from \<open>inv s\<close> show ?thesis
    proof (cases rule: put_cases [of s x])
      case 1
      then show ?thesis
        using Cons Put by simp
    next
      case (2 u)
      then show ?thesis
        using Cons.IH [OF 2(2)] Cons.prems Put by (fastforce split: prod.splits)
    qed
  next
    case Get
    from \<open>inv s\<close> show ?thesis
    proof (cases rule: get_cases)
      case 1
      then show ?thesis
        using Cons.IH [OF \<open>inv s\<close>] Cons.prems Get by simp
    next
      case (2 x u)
      then show ?thesis
        using Cons.IH [OF 2(2)] Cons.prems Get by (fastforce split: prod.splits)
    qed
  qed
qed simp

end

end
