(* ===== verification/Uart.thy ===== *)
theory Uart
  imports Fs Ring
begin

text \<open>
  The UART driver and formatted output (\<^verbatim>\<open>kernel/uart.c\<close>, \<^verbatim>\<open>kernel/printf.c\<close>, \<^verbatim>\<open>consputc()\<close> of \<^verbatim>\<open>kernel/console.c\<close>).

  The device is seen through its registers.  \<open>tx_idle\<close> lists the values that the coming reads of
  \<^verbatim>\<open>LSR_TX_IDLE\<close> return; when they are used up the transmitter stays busy.  \<open>uart_in\<close> holds the bytes that
  wait in the receiver, \<open>uart_out\<close> the bytes written to \<^verbatim>\<open>THR\<close>, oldest first, and \<open>uart_cfg\<close> the
  values written to the configuration registers.
\<close>

section \<open>Model\<close>

record uartst = fsst +
  uart_tx_buf :: "byte list"
  uart_tx_w :: uint64
  uart_tx_r :: uint64
  tx_idle :: "bool list"
  uart_in :: "byte list"
  uart_out :: "byte list"
  uart_cfg :: "(nat \<times> byte) list"
  panicked :: bool
  pr_locking :: bool

abbreviation (input) UART_TX_BUF_SIZE :: nat where "UART_TX_BUF_SIZE \<equiv> 32"

definition uartinit :: "'a uartst_scheme \<Rightarrow> 'a uartst_scheme" where
  "uartinit s = s\<lparr>uart_cfg := uart_cfg s @ [(1, 0), (3, 0x80), (0, 3), (1, 0), (3, 3), (2, 7), (1, 3)]\<rparr>"

text \<open>The buffer operations of \<^verbatim>\<open>uartputc()\<close> and \<^verbatim>\<open>uartstart()\<close>.\<close>

record txring =
  tx_buf :: "byte list"
  tx_w :: uint64
  tx_r :: uint64

definition tx_put :: "byte \<Rightarrow> txring \<Rightarrow> txring option" where
  "tx_put c u =
     (if tx_w u = tx_r u + of_nat UART_TX_BUF_SIZE then None
      else Some (u\<lparr>tx_buf := (tx_buf u)[unat (tx_w u) mod UART_TX_BUF_SIZE := c], tx_w := tx_w u + 1\<rparr>))"

definition tx_get :: "txring \<Rightarrow> (byte \<times> txring) option" where
  "tx_get u =
     (if tx_w u = tx_r u then None
      else Some (tx_buf u ! (unat (tx_r u) mod UART_TX_BUF_SIZE), u\<lparr>tx_r := tx_r u + 1\<rparr>))"

definition txring_of :: "'a uartst_scheme \<Rightarrow> txring" where
  "txring_of s = \<lparr>tx_buf = uart_tx_buf s, tx_w = uart_tx_w s, tx_r = uart_tx_r s\<rparr>"

definition set_txring :: "txring \<Rightarrow> 'a uartst_scheme \<Rightarrow> 'a uartst_scheme" where
  "set_txring u s = s\<lparr>uart_tx_buf := tx_buf u, uart_tx_w := tx_w u, uart_tx_r := tx_r u\<rparr>"

definition write_THR :: "byte \<Rightarrow> 'a uartst_scheme \<Rightarrow> 'a uartst_scheme" where
  "write_THR c s = s\<lparr>uart_out := uart_out s @ [c]\<rparr>"

text \<open>\<^verbatim>\<open>uartstart()\<close>: one more round for each byte in the buffer, as long as the transmitter is idle.\<close>

fun uartstart_loop :: "bool list \<Rightarrow> 'a uartst_scheme \<Rightarrow> ('a uartst_scheme, unit) outcome" where
  "uartstart_loop idle s =
     (case tx_get (txring_of s) of
        None \<Rightarrow> Ok () (s\<lparr>tx_idle := idle\<rparr>)
      | Some (c, u) \<Rightarrow>
          (case idle of
             [] \<Rightarrow> Ok () (s\<lparr>tx_idle := []\<rparr>)
           | ready # idle \<Rightarrow>
               if \<not> ready then Ok () (s\<lparr>tx_idle := idle\<rparr>)
               else
                 andThen (wakeup (Some Ch_uart) (set_txring u s)) (\<lambda>_ s.
                 uartstart_loop idle (write_THR c s))))"

definition uartstart :: "'a uartst_scheme \<Rightarrow> ('a uartst_scheme, unit) outcome" where
  "uartstart s = uartstart_loop (tx_idle s) s"

definition uartputc_locked :: "byte \<Rightarrow> 'a uartst_scheme \<Rightarrow> ('a uartst_scheme, unit) outcome" where
  "uartputc_locked c s =
     (case tx_put c (txring_of s) of
        None \<Rightarrow> sleep Ch_uart L_uart s
      | Some u \<Rightarrow> andThen (uartstart (set_txring u s)) (\<lambda>_ s. release L_uart s))"

definition uartputc :: "byte \<Rightarrow> 'a uartst_scheme \<Rightarrow> ('a uartst_scheme, unit) outcome" where
  "uartputc c s =
     andThen (acquire L_uart s) (\<lambda>_ s. if panicked s then Spin else uartputc_locked c s)"

definition uartputc_resume :: "byte \<Rightarrow> 'a uartst_scheme \<Rightarrow> ('a uartst_scheme, unit) outcome" where
  "uartputc_resume c s = andThen (sleep_resume L_uart s) (\<lambda>_ s. uartputc_locked c s)"

text \<open>The wait of \<^verbatim>\<open>uartputc_sync()\<close>: it ends at the first read that finds the transmitter idle.\<close>

fun wait_idle :: "bool list \<Rightarrow> 'a uartst_scheme \<Rightarrow> ('a uartst_scheme, unit) outcome" where
  "wait_idle [] s = Spin"
| "wait_idle (ready # idle) s = (if ready then Ok () (s\<lparr>tx_idle := idle\<rparr>) else wait_idle idle s)"

definition uartputc_sync :: "byte \<Rightarrow> 'a uartst_scheme \<Rightarrow> ('a uartst_scheme, unit) outcome" where
  "uartputc_sync c s =
     (if panicked s then Spin
      else andThen (wait_idle (tx_idle s) s) (\<lambda>_ s. Ok () (write_THR c s)))"

definition uartgetc :: "'a uartst_scheme \<Rightarrow> (byte \<times> 'a uartst_scheme) option" where
  "uartgetc s = (case uart_in s of [] \<Rightarrow> None | c # cs \<Rightarrow> Some (c, s\<lparr>uart_in := cs\<rparr>))"

subsection \<open>Characters on the console\<close>

text \<open>\<open>None\<close> is \<^verbatim>\<open>BACKSPACE\<close>.\<close>

definition consputc :: "byte option \<Rightarrow> 'a uartst_scheme \<Rightarrow> ('a uartst_scheme, unit) outcome" where
  "consputc c s =
     (case c of
        None \<Rightarrow> foreach [8, 32, 8] uartputc_sync s
      | Some c \<Rightarrow> uartputc_sync c s)"

subsection \<open>Formatted output\<close>

text \<open>
  The arguments of \<^verbatim>\<open>printf()\<close>.  A format that asks for an argument that is not there, and a number too
  long for the buffer of \<^verbatim>\<open>printint()\<close>, are undefined in C: \<open>None\<close>.
\<close>

datatype farg = Int_arg uint32 | Long_arg uint64 | Str_arg "byte list option"

definition digit :: "nat \<Rightarrow> byte" where
  "digit d = (if d < 10 then 48 + of_nat d else 87 + of_nat d)"

function digits_from :: "nat \<Rightarrow> nat \<Rightarrow> byte list" where
  "digits_from x base =
     digit (x mod base) # (if x div base = 0 \<or> base < 2 then [] else digits_from (x div base) base)"
  by auto
termination
proof (relation "measure fst")
  fix x base :: nat
  assume "\<not> (x div base = 0 \<or> base < 2)"
  then have "0 < x" and "1 < base"
    by (auto intro: ccontr)
  then show "((x div base, base), x, base) \<in> measure fst"
    by simp
qed simp

text \<open>What \<^verbatim>\<open>printint()\<close> collects in its buffer, last character first.\<close>

definition printint_buf :: "uint64 \<Rightarrow> nat \<Rightarrow> bool \<Rightarrow> byte list" where
  "printint_buf xx base sign =
     (let neg = (sign \<and> xx <s 0); x = (if neg then - xx else xx) in
      digits_from (unat x) base @ (if neg then [45] else []))"

definition printint :: "uint64 \<Rightarrow> nat \<Rightarrow> bool \<Rightarrow> byte list option" where
  "printint xx base sign =
     (let buf = printint_buf xx base sign in if 16 < length buf then None else Some (rev buf))"

definition printptr :: "uint64 \<Rightarrow> byte list" where
  "printptr x = [48, 120] @ map (\<lambda>i. digit (unat (drop_bit 60 (push_bit (4 * i) x)))) [0..<16]"

datatype conv = Num nat bool bool | Ptr | Str | Percent | Unknown byte

text \<open>The conversion behind a \<^verbatim>\<open>%\<close>, given its first three characters, and how many of them it takes.\<close>

definition conversion :: "byte \<Rightarrow> byte \<Rightarrow> byte \<Rightarrow> conv \<times> nat" where
  "conversion c0 c1 c2 =
     (if c0 = 100 then (Num 10 True False, 1)
      else if c0 = 108 \<and> c1 = 100 then (Num 10 True True, 2)
      else if c0 = 108 \<and> c1 = 108 \<and> c2 = 100 then (Num 10 True True, 3)
      else if c0 = 117 then (Num 10 False False, 1)
      else if c0 = 108 \<and> c1 = 117 then (Num 10 False True, 2)
      else if c0 = 108 \<and> c1 = 108 \<and> c2 = 117 then (Num 10 False True, 3)
      else if c0 = 120 then (Num 16 False False, 1)
      else if c0 = 108 \<and> c1 = 120 then (Num 16 False True, 2)
      else if c0 = 108 \<and> c1 = 108 \<and> c2 = 120 then (Num 16 False True, 3)
      else if c0 = 112 then (Ptr, 1)
      else if c0 = 115 then (Str, 1)
      else if c0 = 37 then (Percent, 1)
      else (Unknown c0, 1))"

fun convert :: "conv \<Rightarrow> farg list \<Rightarrow> (byte list \<times> farg list) option" where
  "convert (Num base sign False) (Int_arg x # args) = map_option (\<lambda>bs. (bs, args)) (printint (scast x) base sign)"
| "convert (Num base sign True) (Long_arg x # args) = map_option (\<lambda>bs. (bs, args)) (printint x base sign)"
| "convert Ptr (Long_arg x # args) = Some (printptr x, args)"
| "convert Str (Str_arg (Some bs) # args) = Some (bs, args)"
| "convert Str (Str_arg None # args) = Some ([40, 110, 117, 108, 108, 41], args)"
| "convert Percent args = Some ([37], args)"
| "convert (Unknown c) args = Some ([37, c], args)"
| "convert _ _ = None"

function format :: "byte list \<Rightarrow> farg list \<Rightarrow> byte list option" where
  "format [] args = Some []"
| "format (c # cs) args =
     (if c \<noteq> 37 then map_option (\<lambda>bs. c # bs) (format cs args)
      else case cs of
        [] \<Rightarrow> Some []
      | c0 # _ \<Rightarrow>
          let (cv, n) = conversion c0 (if 1 < length cs then cs ! 1 else 0) (if 2 < length cs then cs ! 2 else 0) in
          (case convert cv args of
             None \<Rightarrow> None
           | Some (bs, args) \<Rightarrow> map_option (\<lambda>cs. bs @ cs) (format (drop n cs) args)))"
  by pat_completeness auto
termination
  by (relation "measure (\<lambda>(cs, args). length cs)") (auto simp: less_Suc_eq_le)

definition printf :: "byte list \<Rightarrow> farg list \<Rightarrow> 'a uartst_scheme \<Rightarrow> ('a uartst_scheme, unit) outcome" where
  "printf fmt args s =
     (case format fmt args of
        None \<Rightarrow> Panic ''undefined''
      | Some bs \<Rightarrow>
          let locking = pr_locking s in
          andThen (if locking then acquire L_pr s else Ok () s) (\<lambda>_ s.
          andThen (foreach bs (\<lambda>c. consputc (Some c)) s) (\<lambda>_ s.
          if locking then release L_pr s else Ok () s)))"

definition printfinit :: "'a uartst_scheme \<Rightarrow> 'a uartst_scheme" where
  "printfinit s = s\<lparr>pr_locking := True\<rparr>"

text \<open>\<^verbatim>\<open>panic()\<close> up to the endless loop at its end.\<close>

definition panic :: "byte list \<Rightarrow> 'a uartst_scheme \<Rightarrow> ('a uartst_scheme, unit) outcome" where
  "panic msg s =
     andThen (printf [112, 97, 110, 105, 99, 58, 32] [] (s\<lparr>pr_locking := False\<rparr>)) (\<lambda>_ s.
     andThen (printf [37, 115, 10] [Str_arg (Some msg)] s) (\<lambda>_ s. Ok () (s\<lparr>panicked := True\<rparr>)))"

definition state_name :: "procstate \<Rightarrow> byte list" where
  "state_name st = map of_char (case st of
     UNUSED \<Rightarrow> ''unused'' | USED \<Rightarrow> ''used'' | SLEEPING \<Rightarrow> ''sleep '' | RUNNABLE \<Rightarrow> ''runble''
   | RUNNING \<Rightarrow> ''run   '' | ZOMBIE \<Rightarrow> ''zombie'')"

definition procdump :: "'a uartst_scheme \<Rightarrow> ('a uartst_scheme, unit) outcome" where
  "procdump s =
     andThen (printf [10] [] s) (\<lambda>_ s.
     foreach [0..<NPROC] (\<lambda>i s.
       let p = proc s ! i in
       if p_state p = UNUSED then Ok () s
       else
         andThen (printf (map of_char ''%d %s %s'') [Int_arg (of_int (p_pid p)), Str_arg (Some (state_name (p_state p))),
            Str_arg (Some (takeWhile (\<lambda>c. c \<noteq> 0) (p_name p)))] s) (\<lambda>_ s.
         printf [10] [] s)) s)"

declare uartstart_loop.simps [simp del] digits_from.simps [simp del]

section \<open>The transmit buffer is a queue\<close>

definition tx_ok :: "txring \<Rightarrow> bool" where
  "tx_ok u \<longleftrightarrow> length (tx_buf u) = UART_TX_BUF_SIZE \<and> unat (tx_w u - tx_r u) \<le> UART_TX_BUF_SIZE"

definition tx_contents :: "txring \<Rightarrow> byte list" where
  "tx_contents u = ring_contents (tx_r u) (tx_w u) (tx_buf u)"

lemma tx_ring_ok: "tx_ok u \<Longrightarrow> ring_ok (tx_r u) (tx_w u) (tx_buf u)"
  by (simp add: tx_ok_def ring_ok_def)

lemma tx_full_iff: "tx_ok u \<Longrightarrow> tx_w u = tx_r u + 32 \<longleftrightarrow> length (tx_contents u) = UART_TX_BUF_SIZE"
  using ring_full_iff [OF tx_ring_ok, of u] by (simp add: tx_ok_def tx_contents_def)

interpretation uart_tx: bounded_fifo tx_ok tx_contents tx_put tx_get UART_TX_BUF_SIZE
proof unfold_locales
  fix u x xs
  assume ok: "tx_ok u"
  show "length (tx_contents u) \<le> UART_TX_BUF_SIZE"
    using ok by (simp add: tx_ok_def tx_contents_def)
  show "\<exists>t. tx_put x u = Some t \<and> tx_ok t \<and> tx_contents t = tx_contents u @ [x]"
    if room: "length (tx_contents u) < UART_TX_BUF_SIZE"
    using ring_put [OF tx_ring_ok [OF ok], of x] tx_full_iff [OF ok] room ok
    by (auto simp: tx_put_def tx_ok_def tx_contents_def ring_ok_def)
  show "tx_put x u = None" if "length (tx_contents u) = UART_TX_BUF_SIZE"
    using that tx_full_iff [OF ok] by (simp add: tx_put_def)
  show "tx_get u = None" if "tx_contents u = []"
    using that by (simp add: tx_contents_def ring_empty tx_get_def)
  show "\<exists>t. tx_get u = Some (x, t) \<and> tx_ok t \<and> tx_contents t = xs" if c: "tx_contents u = x # xs"
  proof -
    have ne: "tx_r u \<noteq> tx_w u"
      using c ring_empty [of "tx_r u" "tx_w u" "tx_buf u"] by (auto simp: tx_contents_def)
    then show ?thesis
      using ring_get [OF tx_ring_ok [OF ok] ne] c ok
      by (auto simp: tx_get_def tx_ok_def tx_contents_def ring_ok_def)
  qed
qed

lemma txring_of_simps [simp]:
  "txring_of (set_txring u s) = u" "txring_of (s\<lparr>tx_idle := i\<rparr>) = txring_of s" "txring_of (s\<lparr>held := h\<rparr>) = txring_of s"
  "txring_of (s\<lparr>proc := ps\<rparr>) = txring_of s" "txring_of (write_THR c s) = txring_of s"
  by (simp_all add: txring_of_def set_txring_def write_THR_def)

text \<open>
  With \<open>n\<close> reads that find the transmitter idle, \<^verbatim>\<open>uartstart()\<close> hands over the oldest \<open>n\<close> bytes.
\<close>

lemma uartstart_loop_runs:
  assumes "tx_ok (txring_of s)" and "proc_ok s" and "no_proc_lock s"
  defines "q \<equiv> tx_contents (txring_of s)"
  shows "runs (uartstart_loop idle s) (\<lambda>_ t. tx_ok (txring_of t) \<and> held t = held s \<and>
    uart_out t = uart_out s @ take (length (takeWhile id idle)) q \<and>
    tx_contents (txring_of t) = drop (length (takeWhile id idle)) q)"
  using assms(1-3) unfolding q_def
proof (induction idle arbitrary: s)
  case Nil
  then show ?case
    by (subst uartstart_loop.simps) (auto split: option.split)
next
  case (Cons ready idle)
  from Cons.prems(1) show ?case
  proof (cases rule: uart_tx.get_cases)
    case 1
    then show ?thesis
      using Cons.prems by (subst uartstart_loop.simps) simp
  next
    case (2 x u)
    have w: "wakeup (Some Ch_uart) (set_txring u s) =
        Ok () ((set_txring u s)\<lparr>proc := wake_all (Some Ch_uart) (cpu_proc s) (proc s)\<rparr>)"
      using Cons.prems wakeup_eq [of "set_txring u s"]
      by (simp add: set_txring_def proc_ok_def no_proc_lock_def)
    let ?t = "write_THR x ((set_txring u s)\<lparr>proc := wake_all (Some Ch_uart) (cpu_proc s) (proc s)\<rparr>)"
    have t: "proc_ok ?t" "no_proc_lock ?t" "held ?t = held s" "uart_out ?t = uart_out s @ [x]"
      using Cons.prems by (simp_all add: proc_ok_def no_proc_lock_def set_txring_def write_THR_def)
    show ?thesis
    proof (cases ready)
      case False
      then show ?thesis
        using 2 Cons.prems by (subst uartstart_loop.simps) simp
    next
      case True
      then have "uartstart_loop (ready # idle) s = uartstart_loop idle ?t"
        using 2 w by (subst uartstart_loop.simps) simp
      then show ?thesis
        using Cons.IH [of ?t] 2 t True by simp
    qed
  qed
qed

lemma uartputc_room:
  assumes "tx_ok (txring_of s)" and "proc_ok s" and "no_proc_lock s" and "L_uart \<notin> set (held s)" and "\<not> panicked s"
    and "length (tx_contents (txring_of s)) < UART_TX_BUF_SIZE"
  defines "q \<equiv> tx_contents (txring_of s)" and "n \<equiv> length (takeWhile id (tx_idle s))"
  shows "runs (uartputc c s) (\<lambda>_ t. tx_ok (txring_of t) \<and> held t = held s \<and>
    uart_out t = uart_out s @ take n (q @ [c]) \<and> tx_contents (txring_of t) = drop n (q @ [c]))"
proof -
  obtain u where u: "tx_put c (txring_of s) = Some u" "tx_ok u" "tx_contents u = q @ [c]"
    using uart_tx.put_room [OF assms(1,6), of c] unfolding q_def by blast
  let ?s = "set_txring u (s\<lparr>held := L_uart # held s\<rparr>)"
  have p: "tx_ok (txring_of ?s)" "proc_ok ?s" "no_proc_lock ?s" "tx_idle ?s = tx_idle s" "uart_out ?s = uart_out s"
    "held ?s = L_uart # held s"
    using assms u by (simp, simp_all add: set_txring_def proc_ok_def no_proc_lock_def)
  have e: "uartputc c s = andThen (uartstart_loop (tx_idle ?s) ?s) (\<lambda>_ s. release L_uart s)"
    using assms u by (simp add: uartputc_def uartputc_locked_def uartstart_def)
  show ?thesis
    unfolding e runs_andThen
    by (rule runs_mono [OF uartstart_loop_runs [OF p(1-3)]]) (use p u in \<open>auto simp: n_def\<close>)
qed

text \<open>
  C33. A byte given to \<^verbatim>\<open>uartputc()\<close> while the buffer has room goes behind all bytes that wait, the bytes
  sent by this call are the oldest ones, as many as the device takes, and the others stay in order:
  nothing is lost, doubled or overtaken.
\<close>

theorem uartputc_in_order:
  assumes "tx_ok (txring_of s)" and "proc_ok s" and "no_proc_lock s" and "L_uart \<notin> set (held s)" and "\<not> panicked s"
    and "length (tx_contents (txring_of s)) < UART_TX_BUF_SIZE"
  shows "\<exists>t. uartputc c s = Ok () t \<and> tx_ok (txring_of t) \<and> held t = held s \<and>
    uart_out t @ tx_contents (txring_of t) = uart_out s @ tx_contents (txring_of s) @ [c] \<and>
    length (uart_out t) = length (uart_out s) +
      min (length (takeWhile id (tx_idle s))) (Suc (length (tx_contents (txring_of s))))"
  using uartputc_room [OF assms, of c]
  by (auto simp: runs_iff min_def simp del: take_append drop_append)

definition uart_boot :: "bool list \<Rightarrow> 'a \<Rightarrow> 'a uartst_scheme" where
  "uart_boot idle z = fs_boot [] (uartst_ext (replicate UART_TX_BUF_SIZE 0) 0 0 idle [] [] [] False True z)"

lemma uart_boot_fields [simp]:
  "uart_tx_buf (uart_boot idle z) = replicate UART_TX_BUF_SIZE 0" "uart_tx_w (uart_boot idle z) = 0"
  "uart_tx_r (uart_boot idle z) = 0" "tx_idle (uart_boot idle z) = idle" "uart_out (uart_boot idle z) = []"
  "panicked (uart_boot idle z) = False" "uartst.more (uart_boot idle z) = z" "held (uart_boot idle z) = []"
proof -
  have m: "fsst.more (uart_boot idle z) = uartst_ext (replicate UART_TX_BUF_SIZE 0) 0 0 idle [] [] [] False True z"
    by (simp add: uart_boot_def)
  show "uart_tx_buf (uart_boot idle z) = replicate UART_TX_BUF_SIZE 0" "uart_tx_w (uart_boot idle z) = 0"
    "uart_tx_r (uart_boot idle z) = 0" "tx_idle (uart_boot idle z) = idle" "uart_out (uart_boot idle z) = []"
    "panicked (uart_boot idle z) = False" "uartst.more (uart_boot idle z) = z"
    using m by (cases "uart_boot idle z", simp)+
  show "held (uart_boot idle z) = []"
    by (simp add: uart_boot_def)
qed

lemma uart_boot_sleepable: "sleepable (uart_boot idle z)"
  by (simp add: uart_boot_def fs_boot_sleepable)

theorem uartputc_in_order_witness:
  "\<exists>t. uartputc 65 (uart_boot [True] () :: uartst) = Ok () t \<and> uart_out t @ tx_contents (txring_of t) = [65] \<and>
     length (uart_out t) = 1"
proof -
  let ?s = "uart_boot [True] () :: uartst"
  have c: "tx_contents (txring_of ?s) = []" and ok: "tx_ok (txring_of ?s)"
    by (simp_all add: txring_of_def tx_contents_def tx_ok_def ring_empty)
  have "proc_ok ?s" "no_proc_lock ?s"
    using uart_boot_sleepable [of "[True]" "()"] by (simp_all add: no_proc_lock_def)
  then show ?thesis
    using uartputc_in_order [of ?s 65] c ok by auto
qed

section \<open>Numbers as \<^verbatim>\<open>printint()\<close> writes them\<close>

lemma digits_from_length:
  "2 \<le> b \<Longrightarrow> length (digits_from x b) \<le> Suc n \<longleftrightarrow> x < b ^ Suc n"
proof (induction x b arbitrary: n rule: digits_from.induct)
  case (1 x b)
  show ?case
  proof (cases "x div b = 0")
    case True
    then have "x < b"
      using "1.prems" by (metis div_eq_0_iff not_numeral_le_zero)
    moreover have "b \<le> b ^ Suc n"
      using "1.prems" by (intro self_le_power) simp_all
    ultimately have "x < b ^ Suc n"
      by (rule less_le_trans)
    moreover have "length (digits_from x b) = 1"
      using True by (subst digits_from.simps) simp
    ultimately show ?thesis
      by simp
  next
    case False
    then have l: "length (digits_from x b) = Suc (length (digits_from (x div b) b))"
      using "1.prems" by (subst digits_from.simps) simp
    show ?thesis
    proof (cases n)
      case 0
      have "0 < length (digits_from (x div b) b)"
        by (subst digits_from.simps) simp
      moreover have "\<not> x < b"
        using False by auto
      ultimately show ?thesis
        using l 0 by simp
    next
      case (Suc k)
      have "x div b < b ^ Suc k \<longleftrightarrow> x < b ^ Suc k * b"
        using "1.prems" by (intro div_less_iff_less_mult) simp
      then show ?thesis
        using "1.IH" [of k] False "1.prems" l Suc by (simp add: mult.commute)
    qed
  qed
qed

definition digit_val :: "byte \<Rightarrow> nat" where
  "digit_val c = (if c < 58 then unat c - 48 else unat c - 87)"

text \<open>The number that digits stand for, the lowest one first.\<close>

fun digits_val :: "nat \<Rightarrow> byte list \<Rightarrow> nat" where
  "digits_val b [] = 0"
| "digits_val b (d # ds) = digit_val d + b * digits_val b ds"

lemma unat_digit: "d < 16 \<Longrightarrow> unat (digit d) = (if d < 10 then 48 + d else 87 + d)"
  by (simp add: digit_def unat_word_ariths unat_of_nat)

lemma digit_val_digit: "d < 16 \<Longrightarrow> digit_val (digit d) = d"
  by (simp add: digit_val_def word_less_nat_alt unat_digit)

lemma digits_val_from: "2 \<le> b \<Longrightarrow> b \<le> 16 \<Longrightarrow> digits_val b (digits_from x b) = x"
proof (induction x b rule: digits_from.induct)
  case (1 x b)
  have "x mod b < 16"
    using "1.prems" by (intro less_le_trans [OF mod_less_divisor]) auto
  then have d: "digit_val (digit (x mod b)) = x mod b"
    using "1.prems" by (simp add: digit_val_digit)
  show ?case
  proof (cases "x div b = 0")
    case True
    then show ?thesis
      using d by (subst digits_from.simps) (simp add: mod_eq_self_iff_div_eq_0)
  next
    case False
    then show ?thesis
      using d "1.prems" "1.IH" by (subst digits_from.simps) simp
  qed
qed

text \<open>The number a printed string stands for.\<close>

definition read_int :: "nat \<Rightarrow> byte list \<Rightarrow> int" where
  "read_int b cs = (if cs \<noteq> [] \<and> hd cs = 45 then - int (digits_val b (rev (tl cs))) else int (digits_val b (rev cs)))"

lemma last_digits_from: "b \<le> 16 \<Longrightarrow> 2 \<le> b \<Longrightarrow> last (digits_from x b) \<noteq> 45"
proof (induction x b rule: digits_from.induct)
  case (1 x b)
  have "x mod b < 16"
    using "1.prems" by (intro less_le_trans [OF mod_less_divisor]) auto
  then have "unat (digit (x mod b)) \<noteq> 45"
    using "1.prems" by (simp add: unat_digit)
  then have "digit (x mod b) \<noteq> 45"
    by auto
  moreover have "digits_from y b \<noteq> []" for y
    by (subst digits_from.simps) simp
  ultimately show ?case
    using 1 by (subst digits_from.simps) auto
qed

lemma digits_from_ne [simp]: "digits_from x b \<noteq> []"
  by (subst digits_from.simps) simp

lemma unat_minus_sint:
  fixes x :: uint64
  assumes "x <s 0"
  shows "int (unat (- x)) = - sint x"
proof -
  have neg: "sint x < 0"
    using assms by (simp add: word_sless_alt)
  have "uint x = sint x + 2 ^ 64"
  proof -
    have r: "0 \<le> sint x + 2 ^ 64" "sint x + 2 ^ 64 < 2 ^ 64"
      using neg sint_range_size [of x] by (simp_all add: word_size)
    have "uint x = sint x mod 2 ^ 64"
      by (simp add: uint_sint take_bit_eq_mod)
    also have "\<dots> = (sint x + 2 ^ 64) mod 2 ^ 64"
      by simp
    also have "\<dots> = sint x + 2 ^ 64"
      using r by (rule mod_pos_pos_trivial)
    finally show ?thesis .
  qed
  moreover have "x \<noteq> 0"
    using assms by auto
  moreover have "uint (- x) = 2 ^ 64 - uint x"
  proof -
    have pos: "0 < uint x" and lt: "uint x < 2 ^ 64"
      using \<open>x \<noteq> 0\<close> uint_nonnegative [of x] uint_lt2p [of x] by (auto simp: uint_0_iff less_le)
    have "uint (- x) = (- uint x) mod 2 ^ 64"
      using uint_word_ariths(4) [of x] by simp
    also have "\<dots> = (- uint x + 2 ^ 64) mod 2 ^ 64"
      by (rule mod_add_self2 [symmetric])
    also have "\<dots> = - uint x + 2 ^ 64"
      using pos lt by (intro mod_pos_pos_trivial) linarith+
    finally show ?thesis
      by simp
  qed
  ultimately show ?thesis
    by simp
qed

lemma sint_nonneg_uint: "\<not> x <s 0 \<Longrightarrow> sint x = uint x" for x :: uint64
proof -
  assume "\<not> x <s 0"
  then have "0 \<le> sint x"
    by (simp add: word_sless_alt)
  moreover have "sint x < 2 ^ 63"
    using sint_range_size [of x] by (simp add: word_size)
  moreover have "uint x = sint x mod 2 ^ 64"
    by (simp add: uint_sint take_bit_eq_mod)
  ultimately show ?thesis
    by (simp add: mod_pos_pos_trivial)
qed

text \<open>
  C34. Whatever \<^verbatim>\<open>printint()\<close> prints reads back, in the same base, as the value of its argument, as a
  signed or unsigned 64-bit number.
\<close>

theorem printint_roundtrip:
  assumes "2 \<le> base" and "base \<le> 16" and "printint xx base sign = Some cs"
  shows "read_int base cs = (if sign then sint xx else uint xx)"
proof (cases "sign \<and> xx <s 0")
  case True
  then have "cs = 45 # rev (digits_from (unat (- xx)) base)"
    using assms(3) by (simp add: printint_def printint_buf_def Let_def split: if_splits)
  then show ?thesis
    using True assms(1,2) unat_minus_sint [of xx] by (simp add: read_int_def digits_val_from)
next
  case False
  then have "cs = rev (digits_from (unat xx) base)"
    using assms(3) by (auto simp: printint_def printint_buf_def Let_def split: if_splits)
  then show ?thesis
    using False assms(1,2) last_digits_from [of base "unat xx"]
    by (auto simp: read_int_def hd_rev digits_val_from sint_nonneg_uint)
qed

theorem printint_roundtrip_witness:
  "printint (- 255) 10 True = Some [45, 50, 53, 53] \<and> read_int 10 [45, 50, 53, 53] = - 255"
proof -
  have "printint (- 255) 10 True = Some [45, 50, 53, 53]"
    by code_simp
  then show ?thesis
    using printint_roundtrip [of 10 "- 255" True "[45, 50, 53, 53]"] by simp
qed

lemma power_le_int: "10 ^ k \<le> int m \<longleftrightarrow> \<not> m < 10 ^ k"
  by (metis not_less of_nat_le_iff of_nat_numeral of_nat_power)

text \<open>
  C35. The 16 bytes of \<^verbatim>\<open>printint()\<close>'s buffer hold every number in base 16, but not every one in base 10: numbers from
  \<open>10\<^sup>16\<close> on, and below \<open>-10\<^sup>15\<close>, run over its end.
\<close>

theorem printint_overrun:
  "printint xx 16 False \<noteq> None \<and> (printint xx 10 False = None \<longleftrightarrow> 10 ^ 16 \<le> uint xx) \<and>
   (printint xx 10 True = None \<longleftrightarrow> 10 ^ 16 \<le> sint xx \<or> sint xx \<le> - (10 ^ 15))"
proof -
  have u: "length (digits_from x 10) \<le> 16 \<longleftrightarrow> x < 10 ^ 16" "length (digits_from x 10) \<le> 15 \<longleftrightarrow> x < 10 ^ 15"
    "length (digits_from x 16) \<le> 16 \<longleftrightarrow> x < 16 ^ 16" for x
    using digits_from_length [of 10 x 15] digits_from_length [of 10 x 14] digits_from_length [of 16 x 15] by simp_all
  have none: "printint xx b sg = None \<longleftrightarrow> \<not> length (printint_buf xx b sg) \<le> 16" for b sg
    by (simp add: printint_def Let_def not_le)
  have n: "uint xx = int (unat xx)"
    by simp
  have "unat xx < 2 ^ LENGTH(64)"
    by (rule unsigned_less)
  then have "printint xx 16 False \<noteq> None"
    unfolding none using u(3) [of "unat xx"] by (simp add: printint_buf_def)
  moreover have "printint xx 10 False = None \<longleftrightarrow> 10 ^ 16 \<le> uint xx"
  proof -
    have "10 ^ 16 \<le> uint xx \<longleftrightarrow> \<not> unat xx < 10 ^ 16"
      unfolding n by (rule power_le_int)
    then show ?thesis
      unfolding none using u(1) [of "unat xx"] by (simp add: printint_buf_def)
  qed
  moreover have "printint xx 10 True = None \<longleftrightarrow> 10 ^ 16 \<le> sint xx \<or> sint xx \<le> - (10 ^ 15)"
  proof (cases "xx <s 0")
    case True
    then have "length (printint_buf xx 10 True) = Suc (length (digits_from (unat (- xx)) 10))"
      by (simp add: printint_buf_def)
    moreover have "10 ^ 16 \<le> sint xx \<or> sint xx \<le> - (10 ^ 15) \<longleftrightarrow> \<not> unat (- xx) < 10 ^ 15"
    proof -
      have s: "sint xx = - int (unat (- xx))"
        using unat_minus_sint [OF True] by linarith
      have "\<not> (10 :: int) ^ 16 \<le> - int m" for m
        by simp
      then show ?thesis
        unfolding s neg_le_iff_le power_le_int by blast
    qed
    ultimately show ?thesis
      unfolding none using u(2) [of "unat (- xx)"] by simp
  next
    case False
    then have "printint_buf xx 10 True = digits_from (unat xx) 10"
      by (simp add: printint_buf_def)
    moreover have "10 ^ 16 \<le> sint xx \<or> sint xx \<le> - (10 ^ 15) \<longleftrightarrow> \<not> unat xx < 10 ^ 16"
    proof -
      have s: "sint xx = int (unat xx)"
        unfolding sint_nonneg_uint [OF False] by (rule n)
      have "\<not> int m \<le> - (10 ^ 15)" for m
        by simp
      then show ?thesis
        unfolding s power_le_int by blast
    qed
    ultimately show ?thesis
      unfolding none using u(1) [of "unat xx"] by simp
  qed
  ultimately show ?thesis
    by blast
qed

end
