(* ===== verification/Console.thy ===== *)
theory Console
  imports Uart
begin

text \<open>
  Console input and output (\<^verbatim>\<open>kernel/console.c\<close>) and the UART's interrupt handler, which feeds it
  (\<^verbatim>\<open>uartintr()\<close> of \<^verbatim>\<open>kernel/uart.c\<close>).  The input buffer has three counters: \<open>cons_r\<close> up to where it has been
  read, \<open>cons_w\<close> up to where it may be read, \<open>cons_e\<close> up to where it has been typed.
\<close>

section \<open>Model\<close>

record consst = uartst +
  cons_buf :: "byte list"
  cons_r :: uint32
  cons_w :: uint32
  cons_e :: uint32

abbreviation (input) INPUT_BUF_SIZE :: nat where "INPUT_BUF_SIZE \<equiv> 128"

text \<open>\<^verbatim>\<open>cons.buf[i % INPUT_BUF_SIZE]\<close>\<close>

definition cons_at :: "'a consst_scheme \<Rightarrow> uint32 \<Rightarrow> byte" where
  "cons_at s i = cons_buf s ! (unat i mod INPUT_BUF_SIZE)"

fun consolewrite_from :: "bool \<Rightarrow> uint64 \<Rightarrow> nat \<Rightarrow> nat \<Rightarrow> 'a consst_scheme \<Rightarrow> ('a consst_scheme, nat) outcome" where
  "consolewrite_from user_src src i 0 s = Ok i s"
| "consolewrite_from user_src src i (Suc k) s =
     andThen (either_copyin user_src (src + of_nat i) 1 s) (\<lambda>(bs, ok) s.
     if \<not> ok then Ok i s
     else andThen (uartputc (hd bs) s) (\<lambda>_ s. consolewrite_from user_src src (Suc i) k s))"

definition consolewrite :: "bool \<Rightarrow> uint64 \<Rightarrow> int \<Rightarrow> 'a consst_scheme \<Rightarrow> ('a consst_scheme, int) outcome" where
  "consolewrite user_src src n s =
     andThen (consolewrite_from user_src src 0 (nat n) s) (\<lambda>i s. Ok (int i) s)"

text \<open>
  The loop of \<^verbatim>\<open>consoleread()\<close> with \<open>n\<close> bytes still wanted of \<open>target\<close>; with nothing to read it sleeps, and goes on
  from here when it is woken.
\<close>

fun consoleread_from ::
  "bool \<Rightarrow> uint64 \<Rightarrow> nat \<Rightarrow> nat \<Rightarrow> 'a consst_scheme \<Rightarrow> ('a consst_scheme, int) outcome" where
  "consoleread_from user_dst dst target 0 s = andThen (release L_cons s) (\<lambda>_ s. Ok (int target) s)"
| "consoleread_from user_dst dst target (Suc n) s =
     (if cons_r s = cons_w s then
        with_myproc s (\<lambda>p.
        andThen (killed p s) (\<lambda>k s.
        if k then andThen (release L_cons s) (\<lambda>_ s. Ok (- 1) s)
        else sleeps Ch_cons L_cons s))
      else
        let c = cons_at s (cons_r s); s = s\<lparr>cons_r := cons_r s + 1\<rparr>;
            stop = (\<lambda>n s. andThen (release L_cons s) (\<lambda>_ s. Ok (int (target - n)) s)) in
        if c = 4 then stop (Suc n) (if Suc n < target then s\<lparr>cons_r := cons_r s - 1\<rparr> else s)
        else
          andThen (either_copyout user_dst dst [c] s) (\<lambda>ok s.
          if \<not> ok then stop (Suc n) s
          else if c = 10 then stop n s
          else consoleread_from user_dst (dst + 1) target n s))"

definition consoleread :: "bool \<Rightarrow> uint64 \<Rightarrow> int \<Rightarrow> 'a consst_scheme \<Rightarrow> ('a consst_scheme, int) outcome" where
  "consoleread user_dst dst n s =
     andThen (acquire L_cons s) (\<lambda>_ s. consoleread_from user_dst dst (nat n) (nat n) s)"

definition consoleread_resume ::
  "bool \<Rightarrow> uint64 \<Rightarrow> nat \<Rightarrow> nat \<Rightarrow> 'a consst_scheme \<Rightarrow> ('a consst_scheme, int) outcome" where
  "consoleread_resume user_dst dst target n s =
     andThen (sleep_resume L_cons s) (\<lambda>_ s. consoleread_from user_dst dst target n s)"

text \<open>The erase loop of \<^verbatim>\<open>C('U')\<close>: at most the \<open>k\<close> bytes between \<^verbatim>\<open>w\<close> and \<^verbatim>\<open>e\<close>.\<close>

fun kill_line :: "nat \<Rightarrow> 'a consst_scheme \<Rightarrow> ('a consst_scheme, unit) outcome" where
  "kill_line 0 s = Ok () s"
| "kill_line (Suc k) s =
     (if cons_e s \<noteq> cons_w s \<and> cons_at s (cons_e s - 1) \<noteq> 10 then
        andThen (consputc None (s\<lparr>cons_e := cons_e s - 1\<rparr>)) (\<lambda>_ s. kill_line k s)
      else Ok () s)"

definition store_input :: "byte \<Rightarrow> 'a consst_scheme \<Rightarrow> 'a consst_scheme" where
  "store_input c s =
     s\<lparr>cons_buf := (cons_buf s)[unat (cons_e s) mod INPUT_BUF_SIZE := c], cons_e := cons_e s + 1\<rparr>"

definition consoleintr :: "byte \<Rightarrow> 'a consst_scheme \<Rightarrow> ('a consst_scheme, unit) outcome" where
  "consoleintr c s =
     andThen (acquire L_cons s) (\<lambda>_ s.
     andThen
       (if c = 16 then procdump s
        else if c = 21 then kill_line (unat (cons_e s - cons_w s)) s
        else if c = 8 \<or> c = 127 then
          if cons_e s \<noteq> cons_w s then consputc None (s\<lparr>cons_e := cons_e s - 1\<rparr>) else Ok () s
        else if c \<noteq> 0 \<and> cons_e s - cons_r s < of_nat INPUT_BUF_SIZE then
          let c = (if c = 13 then 10 else c) in
          andThen (consputc (Some c) s) (\<lambda>_ s.
          let s = store_input c s in
          if c = 10 \<or> c = 4 \<or> cons_e s - cons_r s = of_nat INPUT_BUF_SIZE
          then wakeup (Some Ch_cons) (s\<lparr>cons_w := cons_e s\<rparr>) else Ok () s)
        else Ok () s)
       (\<lambda>_ s. release L_cons s))"

fun uartintr_input :: "byte list \<Rightarrow> 'a consst_scheme \<Rightarrow> ('a consst_scheme, unit) outcome" where
  "uartintr_input [] s = Ok () s"
| "uartintr_input (c # cs) s = andThen (consoleintr c (s\<lparr>uart_in := cs\<rparr>)) (\<lambda>_ s. uartintr_input cs s)"

definition uartintr :: "'a consst_scheme \<Rightarrow> ('a consst_scheme, unit) outcome" where
  "uartintr s =
     andThen (uartintr_input (uart_in s) s) (\<lambda>_ s.
     andThen (acquire L_uart s) (\<lambda>_ s.
     andThen (uartstart s) (\<lambda>_ s. release L_uart s)))"

section \<open>Waiting for the transmitter\<close>

text \<open>\<^verbatim>\<open>uartputc_sync()\<close> uses up one read that finds the transmitter idle.\<close>

definition ready :: "'a uartst_scheme \<Rightarrow> nat \<Rightarrow> bool" where
  "ready s n \<longleftrightarrow> \<not> panicked s \<and> n \<le> count_list (tx_idle s) True"

text \<open>All that a busy wait may change.\<close>

definition uart_frame :: "'a uartst_scheme \<Rightarrow> 'a uartst_scheme \<Rightarrow> bool" where
  "uart_frame s t \<longleftrightarrow> (\<exists>i out. t = s\<lparr>tx_idle := i, uart_out := out\<rparr>)"

lemma uart_frame_refl [simp]: "uart_frame s s"
  unfolding uart_frame_def by (rule exI [of _ "tx_idle s"], rule exI [of _ "uart_out s"]) simp

lemma uart_frame_trans: "uart_frame s t \<Longrightarrow> uart_frame t u \<Longrightarrow> uart_frame s u"
proof -
  assume "uart_frame s t" and "uart_frame t u"
  then obtain i out j out' where "t = s\<lparr>tx_idle := i, uart_out := out\<rparr>" "u = t\<lparr>tx_idle := j, uart_out := out'\<rparr>"
    by (auto simp: uart_frame_def)
  then have "u = s\<lparr>tx_idle := j, uart_out := out'\<rparr>"
    by simp
  then show ?thesis
    unfolding uart_frame_def by blast
qed

lemma wait_idle_runs:
  "Suc n \<le> count_list idle True \<Longrightarrow>
   runs (wait_idle idle s) (\<lambda>_ t. (\<exists>i. t = s\<lparr>tx_idle := i\<rparr>) \<and> n \<le> count_list (tx_idle t) True)"
proof (induction idle)
  case (Cons r idle)
  show ?case
  proof (cases r)
    case True
    have "\<exists>i. s\<lparr>tx_idle := idle\<rparr> = s\<lparr>tx_idle := i\<rparr>"
      by (rule exI) (rule refl)
    then show ?thesis
      using Cons.prems True by simp
  next
    case False
    then show ?thesis
      using Cons by simp
  qed
qed simp

lemma uartputc_sync_runs:
  assumes "ready s (Suc n)"
  shows "runs (uartputc_sync c s) (\<lambda>_ t. uart_frame s t \<and> ready t n)"
proof -
  have "runs (wait_idle (tx_idle s) s) (\<lambda>_ t. (\<exists>i. t = s\<lparr>tx_idle := i\<rparr>) \<and> n \<le> count_list (tx_idle t) True)"
    using assms by (intro wait_idle_runs) (simp add: ready_def)
  then have "runs (wait_idle (tx_idle s) s) (\<lambda>_ t. uart_frame s (write_THR c t) \<and> ready (write_THR c t) n)"
  proof (rule runs_mono, elim conjE exE)
    fix t i
    assume t: "n \<le> count_list (tx_idle t) True" "t = s\<lparr>tx_idle := i\<rparr>"
    have "uart_frame s (write_THR c t)"
      unfolding uart_frame_def t(2) write_THR_def by (rule exI [of _ i], rule exI [of _ "uart_out s @ [c]"]) simp
    moreover have "ready (write_THR c t) n"
      using t assms by (simp add: ready_def write_THR_def)
    ultimately show "uart_frame s (write_THR c t) \<and> ready (write_THR c t) n" ..
  qed
  then show ?thesis
    using assms by (simp add: uartputc_sync_def ready_def)
qed

lemma consputc_runs:
  "ready s (Suc n) \<Longrightarrow> runs (consputc (Some c) s) (\<lambda>_ t. uart_frame s t \<and> ready t n)"
  by (simp add: consputc_def uartputc_sync_runs)

lemma consputc_backspace_runs:
  assumes "ready s (n + 3)"
  shows "runs (consputc None s) (\<lambda>_ t. uart_frame s t \<and> ready t n)"
proof -
  have step: "runs (uartputc_sync c t) (\<lambda>_ u. uart_frame s u \<and> ready u m)"
    if "uart_frame s t \<and> ready t (Suc m)" for c m and t :: "'a uartst_scheme"
    using that by (auto intro: uart_frame_trans elim!: runs_mono [OF uartputc_sync_runs])
  have "runs (uartputc_sync 8 s) (\<lambda>_ t. runs (uartputc_sync 32 t) (\<lambda>_ t. runs (uartputc_sync 8 t)
      (\<lambda>_ t. uart_frame s t \<and> ready t n)))"
  proof (rule runs_mono [OF step [of s "n + 2"]])
    show "uart_frame s s \<and> ready s (Suc (n + 2))"
      using assms by (simp add: eval_nat_numeral)
    show "runs (uartputc_sync 32 t) (\<lambda>_ t. runs (uartputc_sync 8 t) (\<lambda>_ t. uart_frame s t \<and> ready t n))"
      if "uart_frame s t \<and> ready t (n + 2)" for t :: "'a uartst_scheme"
      using that by (auto intro!: step runs_mono [OF step [of t "Suc n"]])
  qed
  then show ?thesis
    by (simp add: consputc_def)
qed

section \<open>The line editor\<close>

text \<open>
  What the console promises: completed lines that wait to be read, and the line being typed.  \<open>edit_step\<close> is the effect of one
  character.
\<close>

fun edit_step :: "byte \<Rightarrow> byte list \<times> byte list \<Rightarrow> byte list \<times> byte list" where
  "edit_step c (done, line) =
     (if c = 16 \<or> c = 0 then (done, line)
      else if c = 21 then (done, [])
      else if c = 8 \<or> c = 127 then (done, butlast line)
      else if length done + length line < INPUT_BUF_SIZE then
        let c = (if c = 13 then 10 else c); line = line @ [c] in
        if c = 10 \<or> c = 4 \<or> length done + length line = INPUT_BUF_SIZE then (done @ line, []) else (done, line)
      else (done, line))"

definition cons_all :: "'a consst_scheme \<Rightarrow> byte list" where
  "cons_all s = ring_contents (cons_r s) (cons_e s) (cons_buf s)"

definition cons_view :: "'a consst_scheme \<Rightarrow> byte list \<times> byte list" where
  "cons_view s = (let n = unat (cons_w s - cons_r s) in (take n (cons_all s), drop n (cons_all s)))"

definition cons_ok :: "'a consst_scheme \<Rightarrow> bool" where
  "cons_ok s \<longleftrightarrow> length (cons_buf s) = INPUT_BUF_SIZE \<and> unat (cons_w s - cons_r s) \<le> unat (cons_e s - cons_r s) \<and>
     unat (cons_e s - cons_r s) \<le> INPUT_BUF_SIZE \<and> 10 \<notin> set (snd (cons_view s))"

lemma cons_ring: "cons_ok s \<Longrightarrow> ring_ok (cons_r s) (cons_e s) (cons_buf s)"
  by (simp add: cons_ok_def ring_ok_def)

lemma length_cons_all [simp]: "length (cons_all s) = unat (cons_e s - cons_r s)"
  by (simp add: cons_all_def)

lemma cons_view_sum: "cons_ok s \<Longrightarrow> fst (cons_view s) @ snd (cons_view s) = cons_all s"
  by (simp add: cons_view_def Let_def)

text \<open>The part of the state the editor works on.\<close>

lemma cons_frame:
  assumes "cons_buf t = cons_buf s" "cons_r t = cons_r s" "cons_w t = cons_w s" "cons_e t = cons_e s"
  shows "cons_view t = cons_view s" "cons_ok t = cons_ok s" "cons_all t = cons_all s" "cons_at t = cons_at s"
  using assms by (simp_all add: cons_view_def cons_ok_def cons_all_def cons_at_def [abs_def])

lemma uart_frame_cons:
  fixes s t :: "'a consst_scheme"
  assumes "uart_frame s t"
  shows "cons_view t = cons_view s" "cons_ok t = cons_ok s" "cons_r t = cons_r s" "cons_w t = cons_w s" "cons_e t = cons_e s"
    "cons_buf t = cons_buf s" "cons_at t = cons_at s" "held t = held s" "proc t = proc s" "cpu_proc t = cpu_proc s"
proof -
  obtain i out where t: "t = s\<lparr>tx_idle := i, uart_out := out\<rparr>"
    using assms by (auto simp: uart_frame_def)
  then have "cons_buf t = cons_buf s" "cons_r t = cons_r s" "cons_w t = cons_w s" "cons_e t = cons_e s"
    by simp_all
  then show "cons_view t = cons_view s" "cons_ok t = cons_ok s" "cons_at t = cons_at s"
    by (rule cons_frame)+
  show "cons_r t = cons_r s" "cons_w t = cons_w s" "cons_e t = cons_e s"
    "cons_buf t = cons_buf s" "held t = held s" "proc t = proc s" "cpu_proc t = cpu_proc s"
    by (simp_all add: t)
qed

lemma cons_line_empty:
  assumes "cons_ok s"
  shows "snd (cons_view s) = [] \<longleftrightarrow> cons_e s = cons_w s"
proof -
  have "snd (cons_view s) = [] \<longleftrightarrow> unat (cons_e s - cons_r s) = unat (cons_w s - cons_r s)"
    using assms by (auto simp: cons_view_def cons_ok_def Let_def)
  then show ?thesis
    by (simp add: word_unat_eq_iff [symmetric])
qed

lemma ring_pop:
  assumes "ring_ok r w buf" and "r \<noteq> w"
  shows "ring_contents r (w - 1) buf = butlast (ring_contents r w buf)" and
    "last (ring_contents r w buf) = buf ! (unat (w - 1) mod length buf)" and
    "unat (w - 1 - r) = unat (w - r) - 1"
proof -
  have pos: "0 < unat (w - r)"
    using assms(2) by (simp add: unat_gt_0)
  have le: "1 \<le> w - r"
    using pos assms(2) by (simp add: word_le_nat_alt)
  have eq: "w - 1 - r = (w - r) - 1"
    by simp
  show n: "unat (w - 1 - r) = unat (w - r) - 1"
    unfolding eq using le by (simp add: unat_sub)
  show "ring_contents r (w - 1) buf = butlast (ring_contents r w buf)"
  proof -
    have "[0..<unat (w - r)] = [0..<unat (w - r) - 1] @ [unat (w - r) - 1]"
      using pos upt_Suc_append [of 0 "unat (w - r) - 1"] by simp
    then show ?thesis
      unfolding ring_contents_def n by simp
  qed
  have "ring_contents r w buf \<noteq> []"
    using ring_empty [of r w buf] assms(2) by simp
  then have "last (ring_contents r w buf) = ring_contents r w buf ! (unat (w - r) - 1)"
    by (simp add: last_conv_nth)
  also have "\<dots> = buf ! (unat (r + of_nat (unat (w - r) - 1)) mod length buf)"
    using pos by (simp add: ring_contents_def)
  also have "r + of_nat (unat (w - r) - 1) = w - 1"
    unfolding n [symmetric] of_nat_unat ucast_id by simp
  finally show "last (ring_contents r w buf) = buf ! (unat (w - 1) mod length buf)" .
qed

text \<open>Taking back the last character of the line.\<close>

lemma cons_erase:
  assumes ok: "cons_ok s" and ne: "cons_e s \<noteq> cons_w s"
  defines "t \<equiv> s\<lparr>cons_e := cons_e s - 1\<rparr>"
  shows "cons_ok t" and "cons_view t = (fst (cons_view s), butlast (snd (cons_view s)))"
    and "cons_at s (cons_e s - 1) = last (snd (cons_view s))"
proof -
  let ?n = "unat (cons_w s - cons_r s)"
  have le: "?n \<le> unat (cons_e s - cons_r s)" "unat (cons_e s - cons_r s) \<le> INPUT_BUF_SIZE"
    and buf: "length (cons_buf s) = INPUT_BUF_SIZE"
    using ok by (auto simp: cons_ok_def)
  have "unat (cons_e s - cons_r s) \<noteq> ?n"
    using ne by (simp add: word_unat_eq_iff [symmetric])
  then have lt: "?n < unat (cons_e s - cons_r s)"
    using le by simp
  then have re: "cons_r s \<noteq> cons_e s"
    by auto
  note pop = ring_pop [OF cons_ring [OF ok] re]
  have all: "cons_all t = butlast (cons_all s)" "unat (cons_e t - cons_r t) = unat (cons_e s - cons_r s) - 1"
    using pop by (simp_all add: t_def cons_all_def)
  show v: "cons_view t = (fst (cons_view s), butlast (snd (cons_view s)))"
  proof -
    have "take ?n (butlast (cons_all s)) = take ?n (cons_all s)"
      using lt by (intro take_butlast) simp
    moreover have "drop ?n (butlast (cons_all s)) = butlast (drop ?n (cons_all s))"
      by (simp add: butlast_drop)
    moreover have "cons_w t = cons_w s" "cons_r t = cons_r s"
      by (simp_all add: t_def)
    ultimately show ?thesis
      by (simp add: cons_view_def all(1) Let_def)
  qed
  have "set (butlast (snd (cons_view s))) \<subseteq> set (snd (cons_view s))"
    by (auto dest: in_set_butlastD)
  then show "cons_ok t"
    using ok v lt le all(2) buf by (auto simp: cons_ok_def) (auto simp: t_def)
  have "last (snd (cons_view s)) = last (cons_all s)"
    using lt by (simp add: cons_view_def Let_def last_drop)
  then show "cons_at s (cons_e s - 1) = last (snd (cons_view s))"
    using pop(2) buf by (simp add: cons_at_def cons_all_def)
qed

text \<open>Appending a character to the line.\<close>

lemma cons_store:
  fixes c :: byte
  assumes ok: "cons_ok s" and room: "length (cons_all s) < INPUT_BUF_SIZE"
  defines "t \<equiv> store_input c s"
  shows "cons_all t = cons_all s @ [c]" "unat (cons_e t - cons_r t) = Suc (unat (cons_e s - cons_r s))"
    "length (cons_buf t) = INPUT_BUF_SIZE" "cons_w t = cons_w s" "cons_r t = cons_r s"
    "held t = held s" "proc t = proc s" "cpu_proc t = cpu_proc s"
proof -
  have buf: "length (cons_buf s) = INPUT_BUF_SIZE"
    using ok by (simp add: cons_ok_def)
  have r: "unat (cons_e s - cons_r s) < length (cons_buf s)"
    using room buf by simp
  note p = ring_put [OF cons_ring [OF ok] r, of c]
  show "cons_all t = cons_all s @ [c]"
    using p(2) buf by (simp add: t_def store_input_def cons_all_def)
  have "unat (cons_e s + 1 - cons_r s) = Suc (unat (cons_e s - cons_r s))"
    using room by (intro unat_succ_diff [of _ _ INPUT_BUF_SIZE]) simp_all
  then show "unat (cons_e t - cons_r t) = Suc (unat (cons_e s - cons_r s))"
    by (simp add: t_def store_input_def)
  show "length (cons_buf t) = INPUT_BUF_SIZE" "cons_w t = cons_w s" "cons_r t = cons_r s"
    "held t = held s" "proc t = proc s" "cpu_proc t = cpu_proc s"
    using buf by (simp_all add: t_def store_input_def)
qed

lemma cons_store_line:
  assumes ok: "cons_ok s" and room: "length (cons_all s) < INPUT_BUF_SIZE" and c: "c \<noteq> 10"
  shows "cons_ok (store_input c s)" "cons_view (store_input c s) = (fst (cons_view s), snd (cons_view s) @ [c])"
proof -
  note p = cons_store [OF ok room, of c]
  have le: "unat (cons_w s - cons_r s) \<le> unat (cons_e s - cons_r s)"
    using ok by (simp add: cons_ok_def)
  show v: "cons_view (store_input c s) = (fst (cons_view s), snd (cons_view s) @ [c])"
    using le by (simp add: cons_view_def p Let_def)
  then show "cons_ok (store_input c s)"
    using ok room c p le by (simp add: cons_ok_def)
qed

lemma cons_store_commit:
  fixes c :: byte
  assumes ok: "cons_ok s" and room: "length (cons_all s) < INPUT_BUF_SIZE"
  defines "t \<equiv> (store_input c s)\<lparr>cons_w := cons_e (store_input c s)\<rparr>"
  shows "cons_ok t" "cons_view t = (fst (cons_view s) @ snd (cons_view s) @ [c], [])"
proof -
  note p = cons_store [OF ok room, of c]
  have all: "cons_all t = cons_all s @ [c]"
    using p(1) by (simp add: t_def cons_all_def)
  have n: "unat (cons_w t - cons_r t) = unat (cons_e t - cons_r t)"
    by (simp add: t_def)
  have "cons_view t = (cons_all t, [])"
    by (simp add: cons_view_def n Let_def)
  then show v: "cons_view t = (fst (cons_view s) @ snd (cons_view s) @ [c], [])"
    using cons_view_sum [OF ok] by (simp add: all flip: append_assoc)
  have "unat (cons_e t - cons_r t) \<le> INPUT_BUF_SIZE" "length (cons_buf t) = INPUT_BUF_SIZE"
    using p(2,3) room by (simp_all add: t_def)
  then show "cons_ok t"
    using v n by (simp add: cons_ok_def)
qed

definition same_procs :: "'a procst_scheme \<Rightarrow> 'a procst_scheme \<Rightarrow> bool" where
  "same_procs s t \<longleftrightarrow> held t = held s \<and> proc t = proc s \<and> cpu_proc t = cpu_proc s"

lemma cons_line_length:
  assumes "cons_ok s"
  shows "length (snd (cons_view s)) = unat (cons_e s - cons_w s)"
proof -
  have "cons_w s - cons_r s \<le> cons_e s - cons_r s"
    using assms by (simp add: cons_ok_def word_le_nat_alt)
  then have "unat (cons_e s - cons_r s - (cons_w s - cons_r s)) = unat (cons_e s - cons_r s) - unat (cons_w s - cons_r s)"
    by (rule unat_sub)
  then show ?thesis
    by (simp add: cons_view_def Let_def)
qed

lemma erase_runs:
  assumes ok: "cons_ok s" and ne: "cons_e s \<noteq> cons_w s" and rd: "ready s (n + 3)"
  shows "runs (consputc None (s\<lparr>cons_e := cons_e s - 1\<rparr>)) (\<lambda>_ t. cons_ok t \<and>
    cons_view t = (fst (cons_view s), butlast (snd (cons_view s))) \<and> ready t n \<and> same_procs s t)"
proof -
  have "ready (s\<lparr>cons_e := cons_e s - 1\<rparr>) (n + 3)"
    using rd by (simp add: ready_def)
  then show ?thesis
    using cons_erase(1,2) [OF ok ne]
    by (auto elim!: runs_mono [OF consputc_backspace_runs] simp: uart_frame_cons same_procs_def)
qed

lemma kill_line_runs:
  "cons_ok s \<Longrightarrow> length (snd (cons_view s)) = k \<Longrightarrow> ready s (n + 3 * k) \<Longrightarrow>
   runs (kill_line k s) (\<lambda>_ t. cons_ok t \<and> cons_view t = (fst (cons_view s), []) \<and> ready t n \<and> same_procs s t)"
proof (induction k arbitrary: s)
  case 0
  then show ?case
    by (cases "cons_view s") (simp add: same_procs_def)
next
  case (Suc k)
  have ne: "cons_e s \<noteq> cons_w s"
    using cons_line_empty [OF Suc.prems(1)] Suc.prems(2) by auto
  have "last (snd (cons_view s)) \<in> set (snd (cons_view s))"
    using Suc.prems(2) by (intro last_in_set) auto
  then have "cons_at s (cons_e s - 1) \<noteq> 10"
    using cons_erase(3) [OF Suc.prems(1) ne] Suc.prems(1) by (auto simp: cons_ok_def)
  then have e: "kill_line (Suc k) s = andThen (consputc None (s\<lparr>cons_e := cons_e s - 1\<rparr>)) (\<lambda>_ s. kill_line k s)"
    using ne by simp
  have "ready s ((n + 3 * k) + 3)"
    using Suc.prems(3) by (simp add: algebra_simps)
  note er = erase_runs [OF Suc.prems(1) ne this]
  show ?case
    unfolding e runs_andThen
  proof (rule runs_mono [OF er], elim conjE)
    fix t
    assume t: "cons_ok t" "cons_view t = (fst (cons_view s), butlast (snd (cons_view s)))" "ready t (n + 3 * k)" "same_procs s t"
    then have "length (snd (cons_view t)) = k"
      using Suc.prems(2) by simp
    then show "runs (kill_line k t) (\<lambda>_ t. cons_ok t \<and> cons_view t = (fst (cons_view s), []) \<and> ready t n \<and> same_procs s t)"
      using Suc.IH [OF t(1) _ t(3)] t(2,4) by (auto elim!: runs_mono simp: same_procs_def)
  qed
qed

lemma cons_lengths:
  assumes "cons_ok s"
  shows "length (fst (cons_view s)) + length (snd (cons_view s)) = unat (cons_e s - cons_r s)"
proof -
  have "length (fst (cons_view s) @ snd (cons_view s)) = length (cons_all s)"
    by (simp only: cons_view_sum [OF assms])
  then show ?thesis
    by simp
qed

lemma input_full: "cons_e s - cons_r s < 128 \<longleftrightarrow> length (cons_all s) < INPUT_BUF_SIZE"
  "cons_e s - cons_r s = 128 \<longleftrightarrow> length (cons_all s) = INPUT_BUF_SIZE"
  by (simp_all add: word_less_nat_alt word_unat_eq_iff)

text \<open>An ordinary character, with room for it.\<close>

lemma input_runs:
  fixes c :: byte
  assumes ok: "cons_ok s" and p: "proc_ok s" "no_proc_lock s" and room: "length (cons_all s) < INPUT_BUF_SIZE" and rd: "ready s 1"
  defines "line \<equiv> snd (cons_view s) @ [c]"
  shows "runs (andThen (consputc (Some c) s) (\<lambda>_ s. let s = store_input c s in
      if c = 10 \<or> c = 4 \<or> cons_e s - cons_r s = of_nat INPUT_BUF_SIZE
      then wakeup (Some Ch_cons) (s\<lparr>cons_w := cons_e s\<rparr>) else Ok () s))
    (\<lambda>_ t. held t = held s \<and> cons_ok t \<and>
      cons_view t = (if c = 10 \<or> c = 4 \<or> length (fst (cons_view s)) + length line = INPUT_BUF_SIZE
        then (fst (cons_view s) @ line, []) else (fst (cons_view s), line)))"
  unfolding runs_andThen
proof (rule runs_mono [OF consputc_runs [of _ 0]], use rd in simp, elim conjE)
  fix u :: "'a consst_scheme"
  assume f: "uart_frame s u"
  note e = uart_frame_cons [OF f]
  let ?t = "store_input c u"
  have oku: "cons_ok u" and roomu: "length (cons_all u) < INPUT_BUF_SIZE"
    using ok room e by (simp_all add: cons_all_def)
  note st = cons_store [OF oku roomu, of c]
  have full: "cons_e ?t - cons_r ?t = 128 \<longleftrightarrow> length (fst (cons_view s)) + length line = INPUT_BUF_SIZE"
    using cons_lengths [OF oku] st(2) e by (simp add: input_full line_def)
  show "runs (let s = ?t in if c = 10 \<or> c = 4 \<or> cons_e s - cons_r s = of_nat INPUT_BUF_SIZE
      then wakeup (Some Ch_cons) (s\<lparr>cons_w := cons_e s\<rparr>) else Ok () s)
    (\<lambda>_ t. held t = held s \<and> cons_ok t \<and>
      cons_view t = (if c = 10 \<or> c = 4 \<or> length (fst (cons_view s)) + length line = INPUT_BUF_SIZE
        then (fst (cons_view s) @ line, []) else (fst (cons_view s), line)))"
  proof (cases "c = 10 \<or> c = 4 \<or> cons_e ?t - cons_r ?t = 128")
    case True
    let ?v = "?t\<lparr>cons_w := cons_e ?t\<rparr>"
    have "wakeup (Some Ch_cons) ?v = Ok () (?v\<lparr>proc := wake_all (Some Ch_cons) (cpu_proc ?v) (proc ?v)\<rparr>)"
      using p st e by (intro wakeup_eq) (simp_all add: proc_ok_def)
    moreover have "cons_view (?v\<lparr>proc := q\<rparr>) = cons_view ?v" "cons_ok (?v\<lparr>proc := q\<rparr>) = cons_ok ?v" for q
      by (rule cons_frame; simp)+
    ultimately show ?thesis
      using True full cons_store_commit [OF oku roomu, of c] st e by (simp add: line_def Let_def)
  next
    case False
    then show ?thesis
      using full cons_store_line [OF oku roomu, of c] st e by (simp add: line_def Let_def)
  qed
qed

text \<open>
  C11. The console is a line editor: a typed character is appended to the line or, with newline, end-of-file or a full buffer,
  completes it for the readers; erase and kill take characters of the unfinished line back and never one of a completed line;
  carriage return counts as newline, and what does not fit is dropped.
\<close>

theorem consoleintr_edits:
  assumes "cons_ok s" and "proc_ok s" and "no_proc_lock s" and "L_cons \<notin> set (held s)" and "c \<noteq> 16"
    and "ready s (3 * length (snd (cons_view s)) + 1)"
  shows "\<exists>t. consoleintr c s = Ok () t \<and> held t = held s \<and> cons_ok t \<and> cons_view t = edit_step c (cons_view s)"
proof -
  let ?s = "s\<lparr>held := L_cons # held s\<rparr>"
  let ?post = "\<lambda>_ t. held t = held ?s \<and> cons_ok t \<and> cons_view t = edit_step c (cons_view s)"
  have v: "cons_view ?s = cons_view s" "cons_ok ?s" "cons_all ?s = cons_all s"
    using cons_frame [of ?s s] assms(1) by simp_all
  have rd: "ready ?s (3 * length (snd (cons_view s)) + 1)" and p: "proc_ok ?s" "no_proc_lock ?s"
    using assms by (simp_all add: ready_def no_proc_lock_def)
  obtain d l where dl: "cons_view s = (d, l)"
    by (cases "cons_view s")
  define body where "body = (if c = 16 then procdump ?s
        else if c = 21 then kill_line (unat (cons_e ?s - cons_w ?s)) ?s
        else if c = 8 \<or> c = 127 then
          if cons_e ?s \<noteq> cons_w ?s then consputc None (?s\<lparr>cons_e := cons_e ?s - 1\<rparr>) else Ok () ?s
        else if c \<noteq> 0 \<and> cons_e ?s - cons_r ?s < of_nat INPUT_BUF_SIZE then
          let c = (if c = 13 then 10 else c) in
          andThen (consputc (Some c) ?s) (\<lambda>_ s.
          let s = store_input c s in
          if c = 10 \<or> c = 4 \<or> cons_e s - cons_r s = of_nat INPUT_BUF_SIZE
          then wakeup (Some Ch_cons) (s\<lparr>cons_w := cons_e s\<rparr>) else Ok () s)
        else Ok () ?s)"
  have eq: "consoleintr c s = andThen body (\<lambda>_ s. release L_cons s)"
    using assms(4) by (simp add: consoleintr_def body_def)
  have len: "length d + length l = unat (cons_e s - cons_r s)"
    using cons_lengths [OF assms(1)] dl by simp
  consider (kill) "c = 21" | (erase) "c = 8 \<or> c = 127" | (char) "c \<noteq> 21" "c \<noteq> 8" "c \<noteq> 127" "c \<noteq> 0" "length d + length l < INPUT_BUF_SIZE"
    | (drop) "c \<noteq> 21" "c \<noteq> 8" "c \<noteq> 127" "c = 0 \<or> \<not> length d + length l < INPUT_BUF_SIZE"
    by blast
  then have "runs body ?post"
  proof cases
    case kill
    have "ready ?s (1 + 3 * length (snd (cons_view ?s)))"
      using rd v by simp
    then have "runs (kill_line (unat (cons_e ?s - cons_w ?s)) ?s) (\<lambda>_ t. cons_ok t \<and> cons_view t = (fst (cons_view ?s), []) \<and>
        ready t 1 \<and> same_procs ?s t)"
      using cons_line_length [OF v(2)] by (intro kill_line_runs [OF v(2)]) simp_all
    then show ?thesis
      using kill v dl by (auto elim!: runs_mono simp: body_def same_procs_def)
  next
    case erase
    show ?thesis
    proof (cases "cons_e ?s = cons_w ?s")
      case True
      then have "l = []"
        using cons_line_empty [OF v(2)] v dl by simp
      then show ?thesis
        using erase True v dl by (auto simp: body_def)
    next
      case False
      then have "l \<noteq> []"
        using cons_line_empty [OF v(2)] v dl by simp
      then have "ready ?s (0 + 3)"
        using rd dl by (cases l) (simp_all add: ready_def)
      note er = erase_runs [OF v(2) False this]
      have "body = consputc None (?s\<lparr>cons_e := cons_e ?s - 1\<rparr>)"
        using erase False by (auto simp: body_def)
      then show ?thesis
        using erase v dl er by (auto elim!: runs_mono simp: same_procs_def)
    qed
  next
    case char
    have room: "length (cons_all ?s) < INPUT_BUF_SIZE"
      using char len v by simp
    have rd1: "ready ?s 1"
      using rd by (simp add: ready_def)
    have "cons_e ?s - cons_r ?s < 128"
      using room by (simp only: input_full)
    then show ?thesis
      using input_runs [OF v(2) p room rd1, of "if c = 13 then 10 else c"] char assms(5) v dl
      by (auto elim!: runs_mono simp: body_def Let_def)
  next
    case drop
    then have "c = 0 \<or> \<not> cons_e ?s - cons_r ?s < 128"
      using input_full(1) [of ?s] len v by simp
    then show ?thesis
      using drop assms(5) v dl by (auto simp: body_def)
  qed
  then obtain u where u: "body = Ok () u" "?post () u"
    by (auto simp: runs_iff)
  let ?t = "u\<lparr>held := held s\<rparr>"
  have "cons_view ?t = cons_view u" "cons_ok ?t = cons_ok u"
    by (rule cons_frame; simp)+
  moreover have "consoleintr c s = Ok () ?t"
    using eq u by simp
  ultimately show ?thesis
    using u(2) by auto
qed

definition cons_boot :: "bool list \<Rightarrow> 'a \<Rightarrow> 'a consst_scheme" where
  "cons_boot idle z = uart_boot idle (consst_ext (replicate INPUT_BUF_SIZE 0) 0 0 0 z)"

lemma cons_boot_fields [simp]:
  "cons_buf (cons_boot idle z) = replicate INPUT_BUF_SIZE 0" "cons_r (cons_boot idle z) = 0" "cons_w (cons_boot idle z) = 0"
  "cons_e (cons_boot idle z) = 0" "consst.more (cons_boot idle z) = z" "held (cons_boot idle z) = []"
  "tx_idle (cons_boot idle z) = idle" "panicked (cons_boot idle z) = False"
proof -
  have m: "uartst.more (cons_boot idle z) = consst_ext (replicate INPUT_BUF_SIZE 0) 0 0 0 z"
    by (simp add: cons_boot_def)
  show "cons_buf (cons_boot idle z) = replicate INPUT_BUF_SIZE 0" "cons_r (cons_boot idle z) = 0" "cons_w (cons_boot idle z) = 0"
    "cons_e (cons_boot idle z) = 0" "consst.more (cons_boot idle z) = z"
    using m by (cases "cons_boot idle z", simp)+
  show "held (cons_boot idle z) = []" "tx_idle (cons_boot idle z) = idle" "panicked (cons_boot idle z) = False"
    by (simp_all add: cons_boot_def)
qed

lemma cons_boot_sleepable: "sleepable (cons_boot idle z)"
  by (simp add: cons_boot_def uart_boot_sleepable)

theorem consoleintr_edits_witness:
  "\<exists>t. consoleintr 13 (cons_boot [False, True] () :: consst) = Ok () t \<and> cons_view t = ([10], [])"
proof -
  let ?s = "cons_boot [False, True] () :: consst"
  have v: "cons_view ?s = ([], [])" and ok: "cons_ok ?s"
    by (simp_all add: cons_view_def cons_all_def ring_contents_def cons_ok_def)
  have "proc_ok ?s" "no_proc_lock ?s"
    using cons_boot_sleepable [of "[False, True]" "()"] by (simp_all add: no_proc_lock_def)
  then show ?thesis
    using consoleintr_edits [of ?s 13] v ok by (auto simp: ready_def)
qed

end
