(* ===== verification/File.thy ===== *)
theory File
  imports Console
begin

text \<open>
  Open files and pipes (\<^verbatim>\<open>kernel/file.c\<close>, \<^verbatim>\<open>kernel/pipe.c\<close>).  A pointer to an entry of the file table
  is its index.  A pipe lives in a page from \<^verbatim>\<open>kalloc()\<close>; \<open>pipes\<close> gives the structure at an
  address.  The device switch holds which of the console's two functions an entry points to.
\<close>

section \<open>Model\<close>

datatype fdtype = FD_NONE | FD_PIPE | FD_INODE | FD_DEVICE

record file_entry =
  f_type :: fdtype
  f_ref :: int
  f_readable :: bool
  f_writable :: bool
  f_pipe :: uint64
  f_ip :: "nat option"
  f_off :: uint32
  f_major :: uint16

record pipe =
  pi_data :: "byte list"
  pi_nread :: uint32
  pi_nwrite :: uint32
  pi_readopen :: bool
  pi_writeopen :: bool

datatype devfn = Consoleread | Consolewrite

record filest = consst +
  ftable :: "file_entry list"
  pipes :: "uint64 \<Rightarrow> pipe"
  devsw :: "(devfn option \<times> devfn option) list"

abbreviation (input) NFILE :: nat where "NFILE \<equiv> 100"
abbreviation (input) NDEV :: nat where "NDEV \<equiv> 10"
abbreviation (input) PIPESIZE :: nat where "PIPESIZE \<equiv> 512"

definition consoleinit :: "'a filest_scheme \<Rightarrow> 'a filest_scheme" where
  "consoleinit s = (let s = uartinit s in s\<lparr>devsw := (devsw s)[1 := (Some Consoleread, Some Consolewrite)]\<rparr>)"

definition upd_file :: "nat \<Rightarrow> (file_entry \<Rightarrow> file_entry) \<Rightarrow> 'a filest_scheme \<Rightarrow> 'a filest_scheme" where
  "upd_file f g s = s\<lparr>ftable := (ftable s)[f := g (ftable s ! f)]\<rparr>"

definition upd_pipe :: "uint64 \<Rightarrow> (pipe \<Rightarrow> pipe) \<Rightarrow> 'a filest_scheme \<Rightarrow> 'a filest_scheme" where
  "upd_pipe pi g s = s\<lparr>pipes := (pipes s)(pi := g (pipes s pi))\<rparr>"

subsection \<open>The file table\<close>

definition filealloc :: "'a filest_scheme \<Rightarrow> ('a filest_scheme, nat option) outcome" where
  "filealloc s =
     andThen (acquire L_ftable s) (\<lambda>_ s.
     case first_index (\<lambda>f. f_ref f = 0) (ftable s) of
       Some f \<Rightarrow> andThen (release L_ftable (upd_file f (\<lambda>x. x\<lparr>f_ref := 1\<rparr>) s)) (\<lambda>_ s. Ok (Some f) s)
     | None \<Rightarrow> andThen (release L_ftable s) (\<lambda>_ s. Ok None s))"

definition filedup :: "nat \<Rightarrow> 'a filest_scheme \<Rightarrow> ('a filest_scheme, nat) outcome" where
  "filedup f s =
     andThen (acquire L_ftable s) (\<lambda>_ s.
     if f_ref (ftable s ! f) < 1 then Panic ''filedup''
     else andThen (release L_ftable (upd_file f (\<lambda>x. x\<lparr>f_ref := f_ref x + 1\<rparr>) s)) (\<lambda>_ s. Ok f s))"

subsection \<open>Pipes\<close>

definition pipe_put :: "byte \<Rightarrow> pipe \<Rightarrow> pipe option" where
  "pipe_put ch q =
     (if pi_nwrite q = pi_nread q + of_nat PIPESIZE then None
      else Some (q\<lparr>pi_data := (pi_data q)[unat (pi_nwrite q) mod PIPESIZE := ch], pi_nwrite := pi_nwrite q + 1\<rparr>))"

definition pipe_get :: "pipe \<Rightarrow> (byte \<times> pipe) option" where
  "pipe_get q =
     (if pi_nread q = pi_nwrite q then None
      else Some (pi_data q ! (unat (pi_nread q) mod PIPESIZE), q\<lparr>pi_nread := pi_nread q + 1\<rparr>))"

definition pipeclose :: "uint64 \<Rightarrow> bool \<Rightarrow> 'a filest_scheme \<Rightarrow> ('a filest_scheme, unit) outcome" where
  "pipeclose pi writable s =
     andThen (acquire (L_pipe pi) s) (\<lambda>_ s.
     andThen
       (if writable then wakeup (Some (Ch_nread pi)) (upd_pipe pi (\<lambda>q. q\<lparr>pi_writeopen := False\<rparr>) s)
        else wakeup (Some (Ch_nwrite pi)) (upd_pipe pi (\<lambda>q. q\<lparr>pi_readopen := False\<rparr>) s)) (\<lambda>_ s.
     andThen (release (L_pipe pi) s) (\<lambda>_ s.
     if \<not> pi_readopen (pipes s pi) \<and> \<not> pi_writeopen (pipes s pi) then kfree pi s else Ok () s)))"

fun pipewrite_from ::
  "uint64 \<Rightarrow> uint64 \<Rightarrow> nat \<Rightarrow> nat \<Rightarrow> 'a filest_scheme \<Rightarrow> ('a filest_scheme, int) outcome" where
  "pipewrite_from pi addr i 0 s =
     andThen (wakeup (Some (Ch_nread pi)) s) (\<lambda>_ s. andThen (release (L_pipe pi) s) (\<lambda>_ s. Ok (int i) s))"
| "pipewrite_from pi addr i (Suc k) s =
     with_myproc s (\<lambda>pr.
     andThen (if pi_readopen (pipes s pi) then killed pr s else Ok True s) (\<lambda>stop s.
     if stop then andThen (release (L_pipe pi) s) (\<lambda>_ s. Ok (- 1) s)
     else if pi_nwrite (pipes s pi) = pi_nread (pipes s pi) + of_nat PIPESIZE then
       andThen (wakeup (Some (Ch_nread pi)) s) (\<lambda>_ s. sleeps (Ch_nwrite pi) (L_pipe pi) s)
     else
       let (bs, ok) = copyin (mem s) (p_pagetable (proc s ! pr)) (addr + of_nat i) 1 in
       if \<not> ok then
         andThen (wakeup (Some (Ch_nread pi)) s) (\<lambda>_ s. andThen (release (L_pipe pi) s) (\<lambda>_ s. Ok (int i) s))
       else
         pipewrite_from pi addr (Suc i) k
           (upd_pipe pi (\<lambda>q. case pipe_put (hd bs) q of None \<Rightarrow> q | Some q \<Rightarrow> q) s)))"

definition pipewrite :: "uint64 \<Rightarrow> uint64 \<Rightarrow> int \<Rightarrow> 'a filest_scheme \<Rightarrow> ('a filest_scheme, int) outcome" where
  "pipewrite pi addr n s =
     andThen (acquire (L_pipe pi) s) (\<lambda>_ s. pipewrite_from pi addr 0 (nat n) s)"

definition pipewrite_resume ::
  "uint64 \<Rightarrow> uint64 \<Rightarrow> nat \<Rightarrow> nat \<Rightarrow> 'a filest_scheme \<Rightarrow> ('a filest_scheme, int) outcome" where
  "pipewrite_resume pi addr i k s =
     andThen (sleep_resume (L_pipe pi) s) (\<lambda>_ s. pipewrite_from pi addr i k s)"

text \<open>The copy loop of \<^verbatim>\<open>piperead()\<close>; the result is \<^verbatim>\<open>i\<close>.\<close>

fun piperead_copy ::
  "uint64 \<Rightarrow> uint64 \<Rightarrow> nat \<Rightarrow> nat \<Rightarrow> 'a filest_scheme \<Rightarrow> ('a filest_scheme, nat) outcome" where
  "piperead_copy pi addr i 0 s = Ok i s"
| "piperead_copy pi addr i (Suc k) s =
     with_myproc s (\<lambda>pr.
     case pipe_get (pipes s pi) of
       None \<Rightarrow> Ok i s
     | Some (ch, q) \<Rightarrow>
         let (m, ok) = copyout (mem s) (p_pagetable (proc s ! pr)) (addr + of_nat i) [ch];
             s = (upd_pipe pi (\<lambda>_. q) s)\<lparr>mem := m\<rparr> in
         if \<not> ok then Ok i s else piperead_copy pi addr (Suc i) k s)"

definition piperead_locked ::
  "uint64 \<Rightarrow> uint64 \<Rightarrow> int \<Rightarrow> 'a filest_scheme \<Rightarrow> ('a filest_scheme, int) outcome" where
  "piperead_locked pi addr n s =
     (if pi_nread (pipes s pi) = pi_nwrite (pipes s pi) \<and> pi_writeopen (pipes s pi) then
        with_myproc s (\<lambda>pr.
        andThen (killed pr s) (\<lambda>k s.
        if k then andThen (release (L_pipe pi) s) (\<lambda>_ s. Ok (- 1) s)
        else sleeps (Ch_nread pi) (L_pipe pi) s))
      else
        andThen (piperead_copy pi addr 0 (nat n) s) (\<lambda>i s.
        andThen (wakeup (Some (Ch_nwrite pi)) s) (\<lambda>_ s.
        andThen (release (L_pipe pi) s) (\<lambda>_ s. Ok (int i) s))))"

definition piperead :: "uint64 \<Rightarrow> uint64 \<Rightarrow> int \<Rightarrow> 'a filest_scheme \<Rightarrow> ('a filest_scheme, int) outcome" where
  "piperead pi addr n s = andThen (acquire (L_pipe pi) s) (\<lambda>_ s. piperead_locked pi addr n s)"

definition piperead_resume :: "uint64 \<Rightarrow> uint64 \<Rightarrow> int \<Rightarrow> 'a filest_scheme \<Rightarrow> ('a filest_scheme, int) outcome" where
  "piperead_resume pi addr n s = andThen (sleep_resume (L_pipe pi) s) (\<lambda>_ s. piperead_locked pi addr n s)"

subsection \<open>Operations on open files\<close>

definition fileclose :: "nat \<Rightarrow> 'a filest_scheme \<Rightarrow> ('a filest_scheme, unit) outcome" where
  "fileclose f s =
     andThen (acquire L_ftable s) (\<lambda>_ s.
     if f_ref (ftable s ! f) < 1 then Panic ''fileclose''
     else
       let s = upd_file f (\<lambda>x. x\<lparr>f_ref := f_ref x - 1\<rparr>) s in
       if f_ref (ftable s ! f) > 0 then release L_ftable s
       else
         let ff = ftable s ! f in
         andThen (release L_ftable (upd_file f (\<lambda>x. x\<lparr>f_ref := 0, f_type := FD_NONE\<rparr>) s)) (\<lambda>_ s.
         case f_type ff of
           FD_PIPE \<Rightarrow> pipeclose (f_pipe ff) (f_writable ff) s
         | FD_NONE \<Rightarrow> Ok () s
         | _ \<Rightarrow>
             andThen (begin_op s) (\<lambda>_ s.
             andThen (deref (f_ip ff) (\<lambda>ip. iput ip s)) (\<lambda>_ s. end_op s))))"

definition pipealloc_undo :: "nat option \<Rightarrow> nat option \<Rightarrow> 'a filest_scheme \<Rightarrow> ('a filest_scheme, (nat \<times> nat) option) outcome" where
  "pipealloc_undo f0 f1 s =
     andThen (case f0 of None \<Rightarrow> Ok () s | Some f \<Rightarrow> fileclose f s) (\<lambda>_ s.
     andThen (case f1 of None \<Rightarrow> Ok () s | Some f \<Rightarrow> fileclose f s) (\<lambda>_ s. Ok None s))"

definition pipealloc :: "'a filest_scheme \<Rightarrow> ('a filest_scheme, (nat \<times> nat) option) outcome" where
  "pipealloc s =
     andThen (filealloc s) (\<lambda>r0 s.
     case r0 of
       None \<Rightarrow> pipealloc_undo None None s
     | Some f0 \<Rightarrow>
         andThen (filealloc s) (\<lambda>r1 s.
         case r1 of
           None \<Rightarrow> pipealloc_undo (Some f0) None s
         | Some f1 \<Rightarrow>
             andThen (kalloc s) (\<lambda>pi s.
             if pi = 0 then pipealloc_undo (Some f0) (Some f1) s
             else
               let s = upd_pipe pi (\<lambda>q. q\<lparr>pi_data := replicate PIPESIZE 5, pi_readopen := True, pi_writeopen := True,
                          pi_nwrite := 0, pi_nread := 0\<rparr>) s;
                   s = upd_file f0 (\<lambda>x. x\<lparr>f_type := FD_PIPE, f_readable := True, f_writable := False, f_pipe := pi\<rparr>) s;
                   s = upd_file f1 (\<lambda>x. x\<lparr>f_type := FD_PIPE, f_readable := False, f_writable := True, f_pipe := pi\<rparr>) s in
               Ok (Some (f0, f1)) s)))"

text \<open>\<^verbatim>\<open>struct stat\<close> in memory: the fields at offsets 0, 4, 8, 10 and 16; the 4 bytes of padding are not set.\<close>

definition stat_bytes :: "byte list \<Rightarrow> stat \<Rightarrow> byte list" where
  "stat_bytes padding st = bytes32 (st_dev st) @ bytes32 (st_ino st) @ bytes16 (st_type st) @ bytes16 (st_nlink st) @
     padding @ bytes32 (ucast (st_size st)) @ bytes32 (ucast (drop_bit 32 (st_size st)))"

definition filestat ::
  "byte list \<Rightarrow> nat \<Rightarrow> uint64 \<Rightarrow> 'a filest_scheme \<Rightarrow> ('a filest_scheme, int) outcome" where
  "filestat padding f addr s =
     with_myproc s (\<lambda>p.
     let x = ftable s ! f in
     if f_type x = FD_INODE \<or> f_type x = FD_DEVICE then
       andThen (ilock (f_ip x) s) (\<lambda>_ s.
       let st = stati (the (f_ip x)) s in
       andThen (iunlock (f_ip x) s) (\<lambda>_ s.
       let (m, ok) = copyout (mem s) (p_pagetable (proc s ! p)) addr (stat_bytes padding st) in
       Ok (if ok then 0 else - 1) (s\<lparr>mem := m\<rparr>)))
     else Ok (- 1) s)"

text \<open>\<^verbatim>\<open>devsw[f->major]\<close>, with the checks of the code; \<^verbatim>\<open>major\<close> is a signed 16-bit number.\<close>

definition dev_entry :: "uint16 \<Rightarrow> 'a filest_scheme \<Rightarrow> devfn option \<times> devfn option" where
  "dev_entry major s =
     (if sint major < 0 \<or> int NDEV \<le> sint major then (None, None) else devsw s ! nat (sint major))"

definition call_dev :: "devfn \<Rightarrow> uint64 \<Rightarrow> int \<Rightarrow> 'a filest_scheme \<Rightarrow> ('a filest_scheme, int) outcome" where
  "call_dev d addr n s =
     (case d of Consoleread \<Rightarrow> consoleread True addr n s | Consolewrite \<Rightarrow> consolewrite True addr n s)"

definition fileread :: "nat \<Rightarrow> uint64 \<Rightarrow> int \<Rightarrow> 'a filest_scheme \<Rightarrow> ('a filest_scheme, int) outcome" where
  "fileread f addr n s =
     (let x = ftable s ! f in
      if \<not> f_readable x then Ok (- 1) s
      else case f_type x of
        FD_PIPE \<Rightarrow> piperead (f_pipe x) addr n s
      | FD_DEVICE \<Rightarrow>
          (case fst (dev_entry (f_major x) s) of None \<Rightarrow> Ok (- 1) s | Some d \<Rightarrow> call_dev d addr n s)
      | FD_INODE \<Rightarrow>
          andThen (ilock (f_ip x) s) (\<lambda>_ s.
          andThen (readi (User addr) (the (f_ip x)) (f_off (ftable s ! f)) (of_int n) s) (\<lambda>(r, bs) s.
          let s = (if r > 0 then upd_file f (\<lambda>x. x\<lparr>f_off := f_off x + of_int r\<rparr>) s else s) in
          andThen (iunlock (f_ip x) s) (\<lambda>_ s. Ok r s)))
      | FD_NONE \<Rightarrow> Panic ''fileread'')"

text \<open>One transaction of \<^verbatim>\<open>filewrite()\<close>.\<close>

definition filewrite_chunk ::
  "nat \<Rightarrow> uint64 \<Rightarrow> nat \<Rightarrow> 'a filest_scheme \<Rightarrow> ('a filest_scheme, int) outcome" where
  "filewrite_chunk f addr n1 s =
     (let x = ftable s ! f in
      andThen (begin_op s) (\<lambda>_ s.
      andThen (ilock (f_ip x) s) (\<lambda>_ s.
      andThen (writei (User addr) (the (f_ip x)) (f_off (ftable s ! f)) (of_nat n1) s) (\<lambda>r s.
      let s = (if r > 0 then upd_file f (\<lambda>x. x\<lparr>f_off := f_off x + of_int r\<rparr>) s else s) in
      andThen (iunlock (f_ip x) s) (\<lambda>_ s.
      andThen (end_op s) (\<lambda>_ s. Ok r s))))))"

abbreviation (input) FILEWRITE_MAX :: nat where "FILEWRITE_MAX \<equiv> 3072"

function filewrite_loop ::
  "nat \<Rightarrow> uint64 \<Rightarrow> nat \<Rightarrow> nat \<Rightarrow> 'a filest_scheme \<Rightarrow> ('a filest_scheme, nat) outcome" where
  "filewrite_loop f addr i n s =
     (if i < n then
        let n1 = min (n - i) FILEWRITE_MAX in
        andThen (filewrite_chunk f (addr + of_nat i) n1 s) (\<lambda>r s.
        if r \<noteq> int n1 then Ok i s else filewrite_loop f addr (i + n1) n s)
      else Ok i s)"
  by auto
termination
  by (relation "measure (\<lambda>(f, addr, i, n, s). n - i)") auto

definition filewrite :: "nat \<Rightarrow> uint64 \<Rightarrow> int \<Rightarrow> 'a filest_scheme \<Rightarrow> ('a filest_scheme, int) outcome" where
  "filewrite f addr n s =
     (let x = ftable s ! f in
      if \<not> f_writable x then Ok (- 1) s
      else case f_type x of
        FD_PIPE \<Rightarrow> pipewrite (f_pipe x) addr n s
      | FD_DEVICE \<Rightarrow>
          (case snd (dev_entry (f_major x) s) of None \<Rightarrow> Ok (- 1) s | Some d \<Rightarrow> call_dev d addr n s)
      | FD_INODE \<Rightarrow>
          andThen (filewrite_loop f addr 0 (nat n) s) (\<lambda>i s. Ok (if int i = n then n else - 1) s)
      | FD_NONE \<Rightarrow> Panic ''filewrite'')"

declare filewrite_loop.simps [simp del]

section \<open>A pipe is a queue\<close>

definition pipe_ok :: "pipe \<Rightarrow> bool" where
  "pipe_ok q \<longleftrightarrow> length (pi_data q) = PIPESIZE \<and> unat (pi_nwrite q - pi_nread q) \<le> PIPESIZE"

definition pipe_contents :: "pipe \<Rightarrow> byte list" where
  "pipe_contents q = ring_contents (pi_nread q) (pi_nwrite q) (pi_data q)"

lemma pipe_ring_ok: "pipe_ok q \<Longrightarrow> ring_ok (pi_nread q) (pi_nwrite q) (pi_data q)"
  by (simp add: pipe_ok_def ring_ok_def)

lemma pipe_full_iff: "pipe_ok q \<Longrightarrow> pi_nwrite q = pi_nread q + 512 \<longleftrightarrow> length (pipe_contents q) = PIPESIZE"
  using ring_full_iff [OF pipe_ring_ok, of q] by (simp add: pipe_ok_def pipe_contents_def)

interpretation pipe_fifo: bounded_fifo pipe_ok pipe_contents pipe_put pipe_get PIPESIZE
proof unfold_locales
  fix q x xs
  assume ok: "pipe_ok q"
  show "length (pipe_contents q) \<le> PIPESIZE"
    using ok by (simp add: pipe_ok_def pipe_contents_def)
  show "\<exists>t. pipe_put x q = Some t \<and> pipe_ok t \<and> pipe_contents t = pipe_contents q @ [x]"
    if room: "length (pipe_contents q) < PIPESIZE"
    using ring_put [OF pipe_ring_ok [OF ok], of x] pipe_full_iff [OF ok] room ok
    by (auto simp: pipe_put_def pipe_ok_def pipe_contents_def ring_ok_def)
  show "pipe_put x q = None" if "length (pipe_contents q) = PIPESIZE"
    using that pipe_full_iff [OF ok] by (simp add: pipe_put_def)
  show "pipe_get q = None" if "pipe_contents q = []"
    using that by (simp add: pipe_contents_def ring_empty pipe_get_def)
  show "\<exists>t. pipe_get q = Some (x, t) \<and> pipe_ok t \<and> pipe_contents t = xs" if c: "pipe_contents q = x # xs"
  proof -
    have ne: "pi_nread q \<noteq> pi_nwrite q"
      using c ring_empty [of "pi_nread q" "pi_nwrite q" "pi_data q"] by (auto simp: pipe_contents_def)
    then show ?thesis
      using ring_get [OF pipe_ring_ok [OF ok] ne] c ok
      by (auto simp: pipe_get_def pipe_ok_def pipe_contents_def ring_ok_def)
  qed
qed

lemma pipe_put_open:
  "pipe_put x q = Some t \<Longrightarrow> pi_readopen t = pi_readopen q \<and> pi_writeopen t = pi_writeopen q"
  "pipe_get q = Some (x, t) \<Longrightarrow> pi_readopen t = pi_readopen q \<and> pi_writeopen t = pi_writeopen q"
  by (auto simp: pipe_put_def pipe_get_def split: if_splits)

section \<open>Writing into and reading from a pipe\<close>

lemma upd_pipe_simps [simp]:
  "pipes (upd_pipe p f s) p = f (pipes s p)" "held (upd_pipe p f s) = held s" "proc (upd_pipe p f s) = proc s"
  "cpu_proc (upd_pipe p f s) = cpu_proc s" "mem (upd_pipe p f s) = mem s"
  by (simp_all add: upd_pipe_def)

text \<open>The process at work, and the lock of the pipe it has taken.\<close>

definition at_pipe :: "uint64 \<Rightarrow> nat \<Rightarrow> 'a filest_scheme \<Rightarrow> bool" where
  "at_pipe pi pr s \<longleftrightarrow> cpu_proc s = Some pr \<and> proc_ok s \<and> no_proc_lock s \<and> L_pipe pi \<in> set (held s) \<and> pipe_ok (pipes s pi)"

lemma at_pipe_wakeup:
  assumes "at_pipe pi pr s"
  shows "wakeup ch s = Ok () (s\<lparr>proc := wake_all ch (Some pr) (proc s)\<rparr>)"
  using assms wakeup_eq [of s ch] by (simp add: at_pipe_def)

lemma copyin_byte:
  assumes "user_byte m pt va = Some b"
  shows "copyin m pt va 1 = ([b], True)"
proof -
  have t: "translate m pt (va + of_nat i) \<noteq> None" if "i < 1" for i
    using assms that by (auto simp: user_byte_def)
  show ?thesis
    using copyin_ok [of 1 m pt va, OF t] assms by (auto simp: user_byte_def)
qed

lemma pipewrite_from_runs:
  assumes "at_pipe pi pr s" and "pi_readopen (pipes s pi)" and "\<not> p_killed (proc s ! pr)"
    and "length (pipe_contents (pipes s pi)) + length bs \<le> PIPESIZE"
    and "\<And>j. j < length bs \<Longrightarrow> user_byte (mem s) (p_pagetable (proc s ! pr)) (addr + of_nat (i + j)) = Some (bs ! j)"
  shows "runs (pipewrite_from pi addr i (length bs) s) (\<lambda>r t. r = int (i + length bs) \<and> held t = remove1 (L_pipe pi) (held s) \<and>
    pipe_ok (pipes t pi) \<and> pipe_contents (pipes t pi) = pipe_contents (pipes s pi) @ bs \<and> mem t = mem s \<and>
    proc t = wake_all (Some (Ch_nread pi)) (Some pr) (proc s))"
  using assms
proof (induction bs arbitrary: i s)
  case Nil
  then show ?case
    using at_pipe_wakeup [OF Nil.prems(1)] by (simp add: at_pipe_def)
next
  case (Cons b bs)
  have p: "cpu_proc s = Some pr" "L_proc pr \<notin> set (held s)" "pipe_ok (pipes s pi)"
    using Cons.prems(1) by (auto simp: at_pipe_def)
  have room: "length (pipe_contents (pipes s pi)) < PIPESIZE"
    using Cons.prems(4) by simp
  obtain q where q: "pipe_put b (pipes s pi) = Some q" "pipe_ok q" "pipe_contents q = pipe_contents (pipes s pi) @ [b]"
    using pipe_fifo.put_room [OF p(3) room] by blast
  have nf: "pi_nwrite (pipes s pi) \<noteq> pi_nread (pipes s pi) + 512"
    using pipe_full_iff [OF p(3)] room by simp
  have c: "copyin (mem s) (p_pagetable (proc s ! pr)) (addr + of_nat i) 1 = ([b], True)"
    using copyin_byte Cons.prems(5) [of 0] by simp
  let ?t = "upd_pipe pi (\<lambda>q. case pipe_put b q of None \<Rightarrow> q | Some q \<Rightarrow> q) s"
  have e: "pipewrite_from pi addr i (length (b # bs)) s = pipewrite_from pi addr (Suc i) (length bs) ?t"
    using p c nf Cons.prems(2,3) by (simp add: with_myproc_def myproc_def killed_eq)
  have t: "pipes ?t pi = q"
    using q by simp
  have "at_pipe pi pr ?t"
    using Cons.prems(1) q by (simp add: at_pipe_def proc_ok_def no_proc_lock_def)
  moreover have "user_byte (mem ?t) (p_pagetable (proc ?t ! pr)) (addr + of_nat (Suc i + j)) = Some (bs ! j)" if "j < length bs" for j
    using Cons.prems(5) [of "Suc j"] that by (simp add: algebra_simps)
  ultimately have "runs (pipewrite_from pi addr (Suc i) (length bs) ?t) (\<lambda>r u. r = int (Suc i + length bs) \<and>
      held u = remove1 (L_pipe pi) (held ?t) \<and> pipe_ok (pipes u pi) \<and> pipe_contents (pipes u pi) = pipe_contents (pipes ?t pi) @ bs \<and>
      mem u = mem ?t \<and> proc u = wake_all (Some (Ch_nread pi)) (Some pr) (proc ?t))"
    using Cons.prems(2,3,4) q t pipe_put_open(1) [OF q(1)] by (intro Cons.IH) simp_all
  then show ?case
    unfolding e by (rule runs_mono) (simp add: q)
qed

text \<open>Writing one byte to the user.\<close>

definition user_writable :: "memory \<Rightarrow> uint64 \<Rightarrow> uint64 \<Rightarrow> bool" where
  "user_writable m pt va \<longleftrightarrow> translate m pt va \<noteq> None \<and> snd (copyout m pt va [0])"

lemma copyout_byte:
  assumes "user_writable m pt va"
  shows "copyout m pt va [b] = (m(the (translate m pt va) := b), True)"
proof -
  let ?va0 = "PGROUNDDOWN va"
  have n: "chunk va 1 = 1"
    using page_offset_less [of va] by (simp add: chunk_def)
  from assms obtain a where a: "walk_lookup m pt ?va0 = Some a" and lt: "\<not> MAXVA \<le> ?va0"
    and f: "\<not> (load64 m a AND PTE_V = 0 \<or> load64 m a AND PTE_U = 0 \<or> load64 m a AND PTE_W = 0)"
    unfolding user_writable_def
    by (auto simp: copyout.simps [of m pt va] Let_def split: if_splits option.splits)
  then have "walkaddr m pt ?va0 = PTE2PA (load64 m a)"
    by (simp add: walkaddr_def)
  moreover have "translate m pt va \<noteq> None"
    using assms by (simp add: user_writable_def)
  ultimately have "the (translate m pt va) = PTE2PA (load64 m a) + (va - ?va0)"
    by (simp add: translate_def Let_def split: if_splits)
  moreover have "mem_write m x [b] = m(x := b)" for x
  proof
    show "mem_write m x [b] y = (m(x := b)) y" for y
    proof (cases "y = x")
      case False
      then have "unat (y - x) \<noteq> 0"
        by (simp add: unat_eq_0)
      then show ?thesis
        using False by (simp add: mem_write_def)
    qed (simp add: mem_write_def)
  qed
  moreover have "copyout m' pt v [] = (m', True)" for m' v
    by (simp add: copyout.simps)
  ultimately show ?thesis
    using a f lt n by (simp add: copyout.simps [of m pt va "[b]"] Let_def)
qed

lemma user_writable_agree:
  assumes "page_aligned pt" and "agree (tables m pt va) m m'"
  shows "user_writable m' pt va = user_writable m pt va"
proof -
  note w = translate_agree [OF assms]
  have nil: "copyout m0 pt v [] = (m0, True)" for m0 v
    by (simp add: copyout.simps)
  have n: "chunk va (Suc 0) = Suc 0"
    using page_offset_less [of va] by (simp add: chunk_def)
  have "snd (copyout m' pt va [0]) = snd (copyout m pt va [0])"
    using w(1,2) by (auto simp: copyout.simps [of _ pt va "[0]"] Let_def n nil split: option.split)
  then show ?thesis
    using w(3) by (simp add: user_writable_def)
qed

lemma isolated_first:
  assumes "isolated m pt va (Suc n)" and "translate m pt va = Some a" and "j < Suc n"
  shows "agree (tables m pt (va + of_nat j)) m (m(a := c))" and "translate m pt (va + of_nat j) = Some a \<Longrightarrow> j = 0"
proof -
  have t: "translate m pt (va + of_nat 0) = Some a"
    using assms(2) by simp
  have "PGROUNDDOWN a \<notin> set (tables m pt (va + of_nat j)) \<and> (translate m pt (va + of_nat j) = Some a \<longrightarrow> j = 0)"
    using assms(1,3) t unfolding isolated_def by blast
  then show "agree (tables m pt (va + of_nat j)) m (m(a := c))" and "translate m pt (va + of_nat j) = Some a \<Longrightarrow> j = 0"
    by (auto simp: agree_def)
qed

lemma isolated_le: "isolated m pt va n \<Longrightarrow> k \<le> n \<Longrightarrow> isolated m pt va k"
  unfolding isolated_def by (meson less_le_trans)

lemma copied_Cons:
  assumes al: "page_aligned pt" and iso: "isolated m pt va (Suc (length cs))" and a: "translate m pt va = Some a"
    and rest: "copied (m(a := c)) pt (va + 1) cs m'"
  shows "copied m pt va (c # cs) m'"
proof -
  let ?m = "m(a := c)"
  have ag: "agree (tables m pt (va + of_nat j)) m ?m" if "j < Suc (length cs)" for j
    using iso a that by (rule isolated_first)
  have tr: "translate ?m pt (va + 1 + of_nat i) = translate m pt (va + of_nat (Suc i))" if "i < length cs" for i
    using translate_agree(3) [OF al ag [of "Suc i"]] that by (simp add: algebra_simps)
  have "m' x = (c # cs) ! i" if i: "i < Suc (length cs)" and x: "translate m pt (va + of_nat i) = Some x" for i x
  proof (cases i)
    case 0
    then have "x = a"
      using x a by simp
    moreover have "translate m pt (va + of_nat (Suc k)) \<noteq> Some a" if "k < length cs" for k
      using isolated_first(2) [OF iso a, of "Suc k"] that by auto
    then have "translate ?m pt (va + 1 + of_nat k) \<noteq> Some a" if "k < length cs" for k
      using that tr by simp
    then have "m' a = ?m a"
      using rest unfolding copied_def by blast
    ultimately show ?thesis
      using 0 by simp
  next
    case (Suc k)
    then have "translate ?m pt (va + 1 + of_nat k) = Some x" "k < length cs"
      using i x tr [of k] by simp_all
    then show ?thesis
      using rest Suc unfolding copied_def by simp
  qed
  moreover have "m' x = m x" if x: "\<And>i. i < Suc (length cs) \<Longrightarrow> translate m pt (va + of_nat i) \<noteq> Some x" for x
  proof -
    have "x \<noteq> a"
      using x [of 0] a by auto
    moreover have "translate ?m pt (va + 1 + of_nat k) \<noteq> Some x" if "k < length cs" for k
      using x [of "Suc k"] tr [OF that] that by simp
    then have "m' x = ?m x"
      using rest unfolding copied_def by blast
    ultimately show ?thesis
      by simp
  qed
  ultimately show ?thesis
    unfolding copied_def by auto
qed

lemma piperead_copy_runs:
  assumes "cpu_proc s = Some pr" and "pipe_ok (pipes s pi)" and "p_pagetable (proc s ! pr) = pt" and "page_aligned pt"
    and "isolated (mem s) pt (addr + of_nat i) n"
    and "\<And>j. j < n \<Longrightarrow> user_writable (mem s) pt (addr + of_nat (i + j))"
  defines "q \<equiv> pipe_contents (pipes s pi)"
  shows "runs (piperead_copy pi addr i n s) (\<lambda>r t. r = i + length (take n q) \<and> pipe_ok (pipes t pi) \<and>
    pipe_contents (pipes t pi) = drop n q \<and> copied (mem s) pt (addr + of_nat i) (take n q) (mem t) \<and>
    held t = held s \<and> proc t = proc s \<and> cpu_proc t = cpu_proc s)"
  using assms(1-6) unfolding q_def
proof (induction n arbitrary: i s)
  case 0
  then show ?case
    by (simp add: copied_def)
next
  case (Suc n)
  from Suc.prems(2) show ?case
  proof (cases rule: pipe_fifo.get_cases)
    case 1
    then show ?thesis
      using Suc.prems(1) by (simp add: with_myproc_def myproc_def copied_def Suc.prems(2))
  next
    case (2 c q)
    let ?m = "mem s" and ?va = "addr + of_nat i"
    have w: "user_writable ?m pt ?va"
      using Suc.prems(6) [of 0] by simp
    then obtain a where a: "translate ?m pt ?va = Some a"
      by (auto simp: user_writable_def)
    define m1 where "m1 = ?m(a := c)"
    let ?t = "(upd_pipe pi (\<lambda>_. q) s)\<lparr>mem := m1\<rparr>"
    have e: "piperead_copy pi addr i (Suc n) s = piperead_copy pi addr (Suc i) n ?t"
      using 2 Suc.prems(1,3) copyout_byte [OF w, of c] a by (simp add: m1_def with_myproc_def myproc_def)
    have va: "addr + of_nat (Suc i) = ?va + 1"
      by simp
    have ag: "agree (tables ?m pt (?va + of_nat j)) ?m m1" if "j < Suc n" for j
      unfolding m1_def using Suc.prems(5) a that by (rule isolated_first)
    have iso: "isolated m1 pt (addr + of_nat (Suc i)) n"
      using isolated_agree [OF Suc.prems(4,5), of 1 "m1" "addr + of_nat (Suc i)"] ag by simp
    have wr: "user_writable m1 pt (addr + of_nat (Suc i + j))" if "j < n" for j
      using user_writable_agree [OF Suc.prems(4) ag [of "Suc j"]] Suc.prems(6) [of "Suc j"] that by (simp add: algebra_simps)
    have "runs (piperead_copy pi addr (Suc i) n ?t) (\<lambda>r t. r = Suc i + length (take n (pipe_contents (pipes ?t pi))) \<and>
      pipe_ok (pipes t pi) \<and> pipe_contents (pipes t pi) = drop n (pipe_contents (pipes ?t pi)) \<and>
      copied (mem ?t) pt (addr + of_nat (Suc i)) (take n (pipe_contents (pipes ?t pi))) (mem t) \<and>
      held t = held ?t \<and> proc t = proc ?t \<and> cpu_proc t = cpu_proc ?t)"
      using Suc.prems(1,3,4) 2(2) iso wr by (intro Suc.IH) (simp_all add: upd_pipe_def)
    moreover have "isolated ?m pt ?va (Suc (length (take n (pipe_contents q))))"
      using Suc.prems(5) by (rule isolated_le) simp
    note cc = copied_Cons [OF Suc.prems(4) this a, of c, folded m1_def]
    have "pipes ?t pi = q"
      by (simp add: upd_pipe_def)
    ultimately show ?thesis
      unfolding e using 2(3) cc by (auto elim!: runs_mono simp: algebra_simps upd_pipe_def)
  qed
qed

section \<open>Properties\<close>


definition new_pipe :: pipe where
  "new_pipe = \<lparr>pi_data = replicate PIPESIZE 5, pi_nread = 0xFFFFFFFF, pi_nwrite = 0xFFFFFFFF, pi_readopen = True, pi_writeopen = True\<rparr>"


text \<open>
  C22. A write to a pipe that has room for all of it appends exactly the caller's bytes to the pipe, wakes the readers and
  returns their number.
\<close>

theorem pipewrite_appends:
  assumes "cpu_proc s = Some pr" and "proc_ok s" and "held s = []" and "pipe_ok (pipes s pi)"
    and "pi_readopen (pipes s pi)" and "\<not> p_killed (proc s ! pr)"
    and "length (pipe_contents (pipes s pi)) + length bs \<le> PIPESIZE"
    and "\<And>j. j < length bs \<Longrightarrow> user_byte (mem s) (p_pagetable (proc s ! pr)) (addr + of_nat j) = Some (bs ! j)"
  shows "\<exists>t. pipewrite pi addr (int (length bs)) s = Ok (int (length bs)) t \<and> held t = [] \<and> pipe_ok (pipes t pi) \<and>
    pipe_contents (pipes t pi) = pipe_contents (pipes s pi) @ bs \<and> mem t = mem s \<and>
    proc t = wake_all (Some (Ch_nread pi)) (Some pr) (proc s)"
proof -
  let ?s = "s\<lparr>held := [L_pipe pi]\<rparr>"
  have "pipewrite pi addr (int (length bs)) s = pipewrite_from pi addr 0 (length bs) ?s"
    using assms(3) by (simp add: pipewrite_def)
  moreover have "at_pipe pi pr ?s"
    using assms by (simp add: at_pipe_def no_proc_lock_def)
  ultimately show ?thesis
    using pipewrite_from_runs [of pi pr ?s bs addr 0] assms by (auto simp: runs_iff)
qed

text \<open>A process with the page table of the example in \<open>Walk\<close>, and a pipe.\<close>

definition file_boot :: "'a \<Rightarrow> 'a filest_scheme" where
  "file_boot z = (cons_boot [] (filest_ext (replicate NFILE \<lparr>f_type = FD_NONE, f_ref = 0, f_readable = False, f_writable = False,
     f_pipe = 0, f_ip = None, f_off = 0, f_major = 0\<rparr>) (\<lambda>_. new_pipe) (replicate NDEV (None, None)) z))\<lparr>mem := one_page_memory,
     proc := replicate NPROC (idle_proc\<lparr>p_pagetable := 0x80001000\<rparr>), cpu_proc := Some 0\<rparr>"

lemma file_boot_fields [simp]:
  "pipes (file_boot z) = (\<lambda>_. new_pipe)" "filest.more (file_boot z) = z" "held (file_boot z) = []"
  "length (ftable (file_boot z)) = NFILE" "i < NFILE \<Longrightarrow> f_ref (ftable (file_boot z) ! i) = 0" "mem (file_boot z) = one_page_memory"
  "proc (file_boot z) = replicate NPROC (idle_proc\<lparr>p_pagetable := 0x80001000\<rparr>)" "cpu_proc (file_boot z) = Some 0"
proof -
  let ?f = "\<lparr>f_type = FD_NONE, f_ref = 0, f_readable = False, f_writable = False, f_pipe = 0, f_ip = None, f_off = 0, f_major = 0\<rparr>"
  have m: "consst.more (file_boot z) = filest_ext (replicate NFILE ?f) (\<lambda>_. new_pipe) (replicate NDEV (None, None)) z"
    by (simp add: file_boot_def)
  have f: "ftable (file_boot z) = replicate NFILE ?f"
    using m by (cases "file_boot z") simp
  show "pipes (file_boot z) = (\<lambda>_. new_pipe)" "filest.more (file_boot z) = z"
    using m by (cases "file_boot z", simp)+
  show "length (ftable (file_boot z)) = NFILE" "i < NFILE \<Longrightarrow> f_ref (ftable (file_boot z) ! i) = 0"
    by (simp_all add: f)
  show "held (file_boot z) = []" "mem (file_boot z) = one_page_memory" "cpu_proc (file_boot z) = Some 0"
    "proc (file_boot z) = replicate NPROC (idle_proc\<lparr>p_pagetable := 0x80001000\<rparr>)"
    by (simp_all add: file_boot_def)
qed

lemma one_page_zero: "i < 3 \<Longrightarrow> user_byte one_page_memory 0x80001000 (0x1004 + of_nat i) = Some 0"
proof -
  assume i: "i < 3"
  then have "i = 0 \<or> i = 1 \<or> i = 2"
    by auto
  then have "one_page_memory (0x80004004 + of_nat i) = 0"
    by (auto simp: one_page_memory_def store64_def)
  then show ?thesis
    using i by (simp add: user_byte_def one_page_bytes)
qed

theorem pipewrite_appends_witness:
  "\<exists>t. pipewrite 0x80009000 0x1004 3 (file_boot () :: filest) = Ok 3 t \<and> pipe_contents (pipes t 0x80009000) = [0, 0, 0]"
proof -
  let ?s = "file_boot () :: filest"
  have ok: "pipe_ok new_pipe" and c: "pipe_contents new_pipe = []" and o: "pi_readopen new_pipe"
    by (simp_all add: pipe_ok_def pipe_contents_def new_pipe_def ring_empty)
  have b: "user_byte (mem ?s) (p_pagetable (proc ?s ! 0)) (0x1004 + of_nat j) = Some (replicate 3 0 ! j)" if "j < length (replicate 3 (0 :: byte))" for j
    using that one_page_zero [of j] by simp
  have "\<exists>t. pipewrite 0x80009000 0x1004 (int (length (replicate 3 (0 :: byte)))) ?s = Ok (int (length (replicate 3 (0 :: byte)))) t \<and>
      held t = [] \<and> pipe_ok (pipes t 0x80009000) \<and>
      pipe_contents (pipes t 0x80009000) = pipe_contents (pipes ?s 0x80009000) @ replicate 3 0 \<and> mem t = mem ?s \<and>
      proc t = wake_all (Some (Ch_nread 0x80009000)) (Some 0) (proc ?s)"
    by (rule pipewrite_appends [OF _ _ _ _ _ _ _ b]) (simp_all add: ok c o proc_ok_def idle_proc_def)
  then show ?thesis
    by (auto simp: c numeral_3_eq_3)
qed

text \<open>
  C21. A read from a pipe that is not empty, or has no writer left, returns the oldest bytes, as many as asked for and
  available, stores them at the caller's address and nowhere else, and removes exactly them from the pipe.
\<close>

theorem piperead_delivers:
  assumes "cpu_proc s = Some pr" and "proc_ok s" and "held s = []" and "pipe_ok (pipes s pi)"
    and "pipe_contents (pipes s pi) \<noteq> [] \<or> \<not> pi_writeopen (pipes s pi)"
    and "p_pagetable (proc s ! pr) = pt" and "page_aligned pt" and "isolated (mem s) pt addr n"
    and "\<And>j. j < n \<Longrightarrow> user_writable (mem s) pt (addr + of_nat j)"
  shows "\<exists>t. piperead pi addr (int n) s = Ok (int (length (take n (pipe_contents (pipes s pi))))) t \<and> held t = [] \<and>
    pipe_ok (pipes t pi) \<and> pipe_contents (pipes t pi) = drop n (pipe_contents (pipes s pi)) \<and>
    copied (mem s) pt addr (take n (pipe_contents (pipes s pi))) (mem t)"
proof -
  let ?s = "s\<lparr>held := [L_pipe pi]\<rparr>" and ?q = "pipe_contents (pipes s pi)"
  have go: "\<not> (pi_nread (pipes s pi) = pi_nwrite (pipes s pi) \<and> pi_writeopen (pipes s pi))"
    using assms(5) ring_empty [of "pi_nread (pipes s pi)"] by (auto simp: pipe_contents_def)
  have "runs (piperead_copy pi addr 0 n ?s) (\<lambda>r t. r = 0 + length (take n ?q) \<and> pipe_ok (pipes t pi) \<and>
    pipe_contents (pipes t pi) = drop n ?q \<and> copied (mem ?s) pt (addr + of_nat 0) (take n ?q) (mem t) \<and>
    held t = held ?s \<and> proc t = proc ?s \<and> cpu_proc t = cpu_proc ?s)"
    using piperead_copy_runs [of ?s pr pi pt addr 0 n] assms by simp
  then obtain t where t: "piperead_copy pi addr 0 n ?s = Ok (length (take n ?q)) t" "pipe_ok (pipes t pi)"
    "pipe_contents (pipes t pi) = drop n ?q" "copied (mem s) pt addr (take n ?q) (mem t)" "held t = [L_pipe pi]"
    "proc t = proc s" "cpu_proc t = cpu_proc s"
    by (auto simp: runs_iff)
  have "wakeup (Some (Ch_nwrite pi)) t = Ok () (t\<lparr>proc := wake_all (Some (Ch_nwrite pi)) (cpu_proc t) (proc t)\<rparr>)"
    using t assms(2) by (intro wakeup_eq) (simp_all add: proc_ok_def)
  then have "piperead pi addr (int n) s = Ok (int (length (take n ?q)))
      (t\<lparr>proc := wake_all (Some (Ch_nwrite pi)) (cpu_proc t) (proc t), held := []\<rparr>)"
    using go t assms(3) by (auto simp: piperead_def piperead_locked_def)
  then show ?thesis
    using t by simp
qed

lemma one_page_writable: "i < 3 \<Longrightarrow> user_writable one_page_memory 0x80001000 (0x1004 + of_nat i)"
proof -
  assume i: "i < 3"
  then have "PGROUNDDOWN (0x1004 + of_nat i) = 0x1000"
    using i by (auto simp: less_Suc_eq numeral_3_eq_3 PGROUNDDOWN_def)
  then have "snd (copyout one_page_memory 0x80001000 (0x1004 + of_nat i) [0])"
    using page_offset_less [of "0x1004 + of_nat i"]
    by (simp add: copyout.simps [of one_page_memory] one_page_walk one_page_tables PTE_examples chunk_def)
      (simp add: copyout.simps)
  then show ?thesis
    using i by (simp add: user_writable_def one_page_bytes)
qed

theorem piperead_delivers_witness:
  "\<exists>t. piperead 0 0x1004 3 ((file_boot () :: filest)\<lparr>pipes := (\<lambda>_. new_pipe\<lparr>pi_data := 7 # replicate 510 0 @ [9], pi_nwrite := 1\<rparr>)\<rparr>) =
     Ok 2 t \<and> copied one_page_memory 0x80001000 0x1004 [9, 7] (mem t)"
proof -
  let ?q = "new_pipe\<lparr>pi_data := 7 # replicate 510 0 @ [9], pi_nwrite := 1\<rparr>"
  let ?s = "(file_boot () :: filest)\<lparr>pipes := (\<lambda>_. ?q)\<rparr>"
  have ok: "pipe_ok ?q" and c: "pipe_contents ?q = [9, 7]"
    by (simp_all add: pipe_ok_def pipe_contents_def new_pipe_def ring_contents_def upt_rec nth_Cons' nth_append)
  have w: "user_writable (mem ?s) 0x80001000 (0x1004 + of_nat j)" if "j < 3" for j
    using one_page_writable [OF that] by simp
  have "\<exists>t. piperead 0 0x1004 (int 3) ?s = Ok (int (length (take 3 (pipe_contents (pipes ?s 0))))) t \<and> held t = [] \<and>
    pipe_ok (pipes t 0) \<and> pipe_contents (pipes t 0) = drop 3 (pipe_contents (pipes ?s 0)) \<and>
    copied (mem ?s) 0x80001000 0x1004 (take 3 (pipe_contents (pipes ?s 0))) (mem t)"
    by (rule piperead_delivers [OF _ _ _ _ _ _ _ _ w, where pr = 0])
      (use one_page_isolated in \<open>simp_all add: ok c proc_ok_def page_aligned_def\<close>)
  then show ?thesis
    by (auto simp: c)
qed

end
