(* ===== verification/Proc.thy ===== *)
theory Proc
  imports File
begin

text \<open>
  Processes (\<^verbatim>\<open>kernel/proc.c\<close>): creation, memory, \<^verbatim>\<open>fork()\<close>, \<^verbatim>\<open>exit()\<close> and \<^verbatim>\<open>wait()\<close>.  The trap frame is a page of
  memory and its fields are read and written there.  \<open>kst\<close> is the state of the whole kernel: beside the components below, the
  symbols that the linker provides, the control registers of the hart and the kernel's page table.
\<close>

section \<open>Model\<close>

record symbols =
  sym_etext :: uint64
  sym_trampoline :: uint64
  sym_uservec :: uint64
  sym_userret :: uint64
  sym_kernelvec :: uint64
  sym_usertrap :: uint64
  sym_forkret :: uint64

record csrs =
  r_satp :: uint64
  r_stvec :: uint64
  r_sepc :: uint64
  r_scause :: uint64
  r_stval :: uint64
  r_sstatus :: uint64
  r_time :: uint64
  r_stimecmp :: uint64

record kst = filest +
  syms :: symbols
  csr :: csrs
  kernel_pagetable :: uint64
  forkret_first :: bool
  plic :: "uint64 \<Rightarrow> uint32"

subsection \<open>Trap frames\<close>

abbreviation (input) TF_kernel_satp :: uint64 where "TF_kernel_satp \<equiv> 0"
abbreviation (input) TF_kernel_sp :: uint64 where "TF_kernel_sp \<equiv> 8"
abbreviation (input) TF_kernel_trap :: uint64 where "TF_kernel_trap \<equiv> 16"
abbreviation (input) TF_epc :: uint64 where "TF_epc \<equiv> 24"
abbreviation (input) TF_kernel_hartid :: uint64 where "TF_kernel_hartid \<equiv> 32"
abbreviation (input) TF_sp :: uint64 where "TF_sp \<equiv> 48"
abbreviation (input) TF_a0 :: uint64 where "TF_a0 \<equiv> 112"
abbreviation (input) TF_a1 :: uint64 where "TF_a1 \<equiv> 120"
abbreviation (input) TF_a7 :: uint64 where "TF_a7 \<equiv> 168"
abbreviation (input) TF_SIZE :: nat where "TF_SIZE \<equiv> 288"

definition tf_get :: "nat \<Rightarrow> uint64 \<Rightarrow> 'a kst_scheme \<Rightarrow> uint64" where
  "tf_get p off s = load64 (mem s) (p_trapframe (proc s ! p) + off)"

definition tf_set :: "nat \<Rightarrow> uint64 \<Rightarrow> uint64 \<Rightarrow> 'a kst_scheme \<Rightarrow> 'a kst_scheme" where
  "tf_set p off v s = s\<lparr>mem := store64 (mem s) (p_trapframe (proc s ! p) + off) v\<rparr>"

subsection \<open>Page tables of processes\<close>

definition proc_pagetable :: "nat \<Rightarrow> 'a kst_scheme \<Rightarrow> ('a kst_scheme, uint64) outcome" where
  "proc_pagetable p s =
     andThen (uvmcreate s) (\<lambda>pt s.
     if pt = 0 then Ok 0 s
     else
       andThen (mappages pt TRAMPOLINE PGSIZE (sym_trampoline (syms s)) (PTE_R OR PTE_X) s) (\<lambda>ok s.
       if \<not> ok then andThen (uvmfree pt 0 s) (\<lambda>_ s. Ok 0 s)
       else
         andThen (mappages pt TRAPFRAME PGSIZE (p_trapframe (proc s ! p)) (PTE_R OR PTE_W) s) (\<lambda>ok s.
         if \<not> ok then
           andThen (uvmunmap pt TRAMPOLINE 1 False s) (\<lambda>_ s. andThen (uvmfree pt 0 s) (\<lambda>_ s. Ok 0 s))
         else Ok pt s)))"

definition proc_freepagetable :: "uint64 \<Rightarrow> uint64 \<Rightarrow> 'a kst_scheme \<Rightarrow> ('a kst_scheme, unit) outcome" where
  "proc_freepagetable pagetable sz s =
     andThen (uvmunmap pagetable TRAMPOLINE 1 False s) (\<lambda>_ s.
     andThen (uvmunmap pagetable TRAPFRAME 1 False s) (\<lambda>_ s. uvmfree pagetable sz s))"

definition freeproc :: "nat \<Rightarrow> 'a kst_scheme \<Rightarrow> ('a kst_scheme, unit) outcome" where
  "freeproc p s =
     andThen (if p_trapframe (proc s ! p) \<noteq> 0 then kfree (p_trapframe (proc s ! p)) s else Ok () s) (\<lambda>_ s.
     let s = upd_proc p (\<lambda>q. q\<lparr>p_trapframe := 0\<rparr>) s; q = proc s ! p in
     andThen (if p_pagetable q \<noteq> 0 then proc_freepagetable (p_pagetable q) (p_sz q) s else Ok () s) (\<lambda>_ s.
     Ok () (upd_proc p (\<lambda>q. q\<lparr>p_pagetable := 0, p_sz := 0, p_pid := 0, p_parent := None,
        p_name := (p_name q)[0 := 0], p_chan := None, p_killed := False, p_xstate := 0, p_state := UNUSED\<rparr>) s)))"

text \<open>The search of \<^verbatim>\<open>allocproc()\<close>: the entry that is found stays locked.\<close>

fun find_unused :: "nat list \<Rightarrow> 'a kst_scheme \<Rightarrow> ('a kst_scheme, nat option) outcome" where
  "find_unused [] s = Ok None s"
| "find_unused (p # ps) s =
     andThen (acquire (L_proc p) s) (\<lambda>_ s.
     if p_state (proc s ! p) = UNUSED then Ok (Some p) s
     else andThen (release (L_proc p) s) (\<lambda>_ s. find_unused ps s))"

definition allocproc_fail :: "nat \<Rightarrow> 'a kst_scheme \<Rightarrow> ('a kst_scheme, nat option) outcome" where
  "allocproc_fail p s = andThen (freeproc p s) (\<lambda>_ s. andThen (release (L_proc p) s) (\<lambda>_ s. Ok None s))"

definition allocproc :: "'a kst_scheme \<Rightarrow> ('a kst_scheme, nat option) outcome" where
  "allocproc s =
     andThen (find_unused [0..<NPROC] s) (\<lambda>r s.
     case r of
       None \<Rightarrow> Ok None s
     | Some p \<Rightarrow>
         andThen (allocpid s) (\<lambda>pid s.
         andThen (release (L_proc p) (upd_proc p (\<lambda>q. q\<lparr>p_pid := pid, p_state := USED\<rparr>) s)) (\<lambda>_ s.
         andThen (kalloc s) (\<lambda>tf s.
         andThen (acquire (L_proc p) s) (\<lambda>_ s.
         let s = upd_proc p (\<lambda>q. q\<lparr>p_trapframe := tf\<rparr>) s in
         if tf = 0 then allocproc_fail p s
         else
           andThen (release (L_proc p) s) (\<lambda>_ s.
           andThen (proc_pagetable p s) (\<lambda>pt s.
           andThen (acquire (L_proc p) s) (\<lambda>_ s.
           let s = upd_proc p (\<lambda>q. q\<lparr>p_pagetable := pt\<rparr>) s in
           if pt = 0 then allocproc_fail p s
           else
             let s = upd_proc p (\<lambda>q. q\<lparr>p_context := \<lparr>ctx_ra = sym_forkret (syms s), ctx_sp = p_kstack q + PGSIZE,
                        ctx_s = replicate 12 0\<rparr>\<rparr>) s in
             Ok (Some p) s))))))))"

definition initcode :: "byte list" where
  "initcode =
     [0x17, 0x05, 0x00, 0x00, 0x13, 0x05, 0x45, 0x02,
      0x97, 0x05, 0x00, 0x00, 0x93, 0x85, 0x35, 0x02,
      0x93, 0x08, 0x70, 0x00, 0x73, 0x00, 0x00, 0x00,
      0x93, 0x08, 0x20, 0x00, 0x73, 0x00, 0x00, 0x00,
      0xef, 0xf0, 0x9f, 0xff, 0x2f, 0x69, 0x6e, 0x69,
      0x74, 0x00, 0x00, 0x24, 0x00, 0x00, 0x00, 0x00,
      0x00, 0x00, 0x00, 0x00]"

text \<open>\<^verbatim>\<open>safestrcpy(p->name, src, sizeof(p->name))\<close>\<close>

definition set_name :: "byte list \<Rightarrow> proc \<Rightarrow> proc" where
  "set_name src q = (let b = safestrcpy (arr src) 16 in q\<lparr>p_name := b @ drop (length b) (p_name q)\<rparr>)"

definition userinit :: "'a kst_scheme \<Rightarrow> ('a kst_scheme, unit) outcome" where
  "userinit s =
     andThen (allocproc s) (\<lambda>r s.
     let s = s\<lparr>initproc := r\<rparr> in
     deref r (\<lambda>p.
     andThen (uvmfirst (p_pagetable (proc s ! p)) initcode s) (\<lambda>_ s.
     let s = upd_proc p (\<lambda>q. q\<lparr>p_sz := PGSIZE\<rparr>) s;
         s = tf_set p TF_epc 0 s;
         s = tf_set p TF_sp PGSIZE s;
         s = upd_proc p (set_name (map of_char ''initcode'')) s in
     andThen (namei [slash] s) (\<lambda>cwd s.
     release (L_proc p) (upd_proc p (\<lambda>q. q\<lparr>p_cwd := cwd, p_state := RUNNABLE\<rparr>) s)))))"

definition growproc :: "int \<Rightarrow> 'a kst_scheme \<Rightarrow> ('a kst_scheme, int) outcome" where
  "growproc n s =
     with_myproc s (\<lambda>p.
     let sz = p_sz (proc s ! p); pt = p_pagetable (proc s ! p) in
     if n > 0 then
       andThen (uvmalloc pt sz (sz + of_int n) PTE_W s) (\<lambda>sz s.
       if sz = 0 then Ok (- 1) s else Ok 0 (upd_proc p (\<lambda>q. q\<lparr>p_sz := sz\<rparr>) s))
     else if n < 0 then
       andThen (uvmdealloc pt sz (sz + of_int n) s) (\<lambda>sz s. Ok 0 (upd_proc p (\<lambda>q. q\<lparr>p_sz := sz\<rparr>) s))
     else Ok 0 (upd_proc p (\<lambda>q. q\<lparr>p_sz := sz\<rparr>) s))"

subsection \<open>fork, exit and wait\<close>

definition fork_file :: "nat \<Rightarrow> nat \<Rightarrow> nat \<Rightarrow> 'a kst_scheme \<Rightarrow> ('a kst_scheme, unit) outcome" where
  "fork_file p np i s =
     (case p_ofile (proc s ! p) ! i of
        None \<Rightarrow> Ok () s
      | Some f \<Rightarrow> andThen (filedup f s) (\<lambda>f s. Ok () (upd_proc np (\<lambda>q. q\<lparr>p_ofile := (p_ofile q)[i := Some f]\<rparr>) s)))"

definition fork :: "'a kst_scheme \<Rightarrow> ('a kst_scheme, int) outcome" where
  "fork s =
     with_myproc s (\<lambda>p.
     andThen (allocproc s) (\<lambda>r s.
     case r of
       None \<Rightarrow> Ok (- 1) s
     | Some np \<Rightarrow>
         andThen (release (L_proc np) s) (\<lambda>_ s.
         andThen (uvmcopy (p_pagetable (proc s ! p)) (p_pagetable (proc s ! np)) (p_sz (proc s ! p)) s) (\<lambda>ok s.
         andThen (acquire (L_proc np) s) (\<lambda>_ s.
         if \<not> ok then andThen (freeproc np s) (\<lambda>_ s. andThen (release (L_proc np) s) (\<lambda>_ s. Ok (- 1) s))
         else
           let s = upd_proc np (\<lambda>q. q\<lparr>p_sz := p_sz (proc s ! p)\<rparr>) s;
               s = s\<lparr>mem := mem_write (mem s) (p_trapframe (proc s ! np))
                              (mem_read (mem s) (p_trapframe (proc s ! p)) TF_SIZE)\<rparr>;
               s = tf_set np TF_a0 0 s in
           andThen (foreach [0..<NOFILE] (fork_file p np) s) (\<lambda>_ s.
           andThen (deref (p_cwd (proc s ! p)) (\<lambda>ip. idup ip s)) (\<lambda>ip s.
           let s = upd_proc np (\<lambda>q. q\<lparr>p_cwd := Some ip\<rparr>) s;
               s = upd_proc np (set_name (p_name (proc s ! p))) s;
               pid = p_pid (proc s ! np) in
           andThen (release (L_proc np) s) (\<lambda>_ s.
           andThen (acquire L_wait s) (\<lambda>_ s.
           andThen (release L_wait (upd_proc np (\<lambda>q. q\<lparr>p_parent := Some p\<rparr>) s)) (\<lambda>_ s.
           andThen (acquire (L_proc np) s) (\<lambda>_ s.
           andThen (release (L_proc np) (upd_proc np (\<lambda>q. q\<lparr>p_state := RUNNABLE\<rparr>) s)) (\<lambda>_ s.
           Ok pid s))))))))))))"

definition exit_file :: "nat \<Rightarrow> nat \<Rightarrow> 'a kst_scheme \<Rightarrow> ('a kst_scheme, unit) outcome" where
  "exit_file p fd s =
     (case p_ofile (proc s ! p) ! fd of
        None \<Rightarrow> Ok () s
      | Some f \<Rightarrow> andThen (fileclose f s) (\<lambda>_ s. Ok () (upd_proc p (\<lambda>q. q\<lparr>p_ofile := (p_ofile q)[fd := None]\<rparr>) s)))"

definition exit :: "int \<Rightarrow> 'a kst_scheme \<Rightarrow> ('a kst_scheme, 'b) outcome" where
  "exit status s =
     with_myproc s (\<lambda>p.
     if Some p = initproc s then Panic ''init exiting''
     else
       andThen (foreach [0..<NOFILE] (exit_file p) s) (\<lambda>_ s.
       andThen (begin_op s) (\<lambda>_ s.
       andThen (deref (p_cwd (proc s ! p)) (\<lambda>ip. iput ip s)) (\<lambda>_ s.
       andThen (end_op s) (\<lambda>_ s.
       andThen (acquire L_wait (upd_proc p (\<lambda>q. q\<lparr>p_cwd := None\<rparr>) s)) (\<lambda>_ s.
       andThen (reparent p s) (\<lambda>_ s.
       andThen (wakeup (map_option Ch_proc (p_parent (proc s ! p))) s) (\<lambda>_ s.
       andThen (acquire (L_proc p) s) (\<lambda>_ s.
       andThen (release L_wait (upd_proc p (\<lambda>q. q\<lparr>p_xstate := of_int status, p_state := ZOMBIE\<rparr>) s)) (\<lambda>_ s.
       andThen (sched s) (\<lambda>_ s. Panic ''zombie exit'')))))))))))"

text \<open>
  The scan of \<^verbatim>\<open>wait()\<close> over the table: \<open>Some r\<close> is \<^verbatim>\<open>return r\<close>, with both locks released; otherwise the result tells
  whether there were children.
\<close>

fun wait_scan ::
  "nat list \<Rightarrow> bool \<Rightarrow> uint64 \<Rightarrow> nat \<Rightarrow> 'a kst_scheme \<Rightarrow> ('a kst_scheme, int option \<times> bool) outcome" where
  "wait_scan [] havekids addr p s = Ok (None, havekids) s"
| "wait_scan (pp # pps) havekids addr p s =
     (if p_parent (proc s ! pp) = Some p then
        andThen (acquire (L_proc pp) s) (\<lambda>_ s.
        if p_state (proc s ! pp) = ZOMBIE then
          let pid = p_pid (proc s ! pp);
              (m, ok) = (if addr \<noteq> 0 then copyout (mem s) (p_pagetable (proc s ! p)) addr (bytes32 (p_xstate (proc s ! pp)))
                         else (mem s, True));
              s = s\<lparr>mem := m\<rparr> in
          if \<not> ok then
            andThen (release (L_proc pp) s) (\<lambda>_ s. andThen (release L_wait s) (\<lambda>_ s. Ok (Some (- 1), True) s))
          else
            andThen (freeproc pp s) (\<lambda>_ s.
            andThen (release (L_proc pp) s) (\<lambda>_ s.
            andThen (release L_wait s) (\<lambda>_ s. Ok (Some pid, True) s)))
        else andThen (release (L_proc pp) s) (\<lambda>_ s. wait_scan pps True addr p s))
      else wait_scan pps havekids addr p s)"

definition wait_locked :: "uint64 \<Rightarrow> 'a kst_scheme \<Rightarrow> ('a kst_scheme, int) outcome" where
  "wait_locked addr s =
     with_myproc s (\<lambda>p.
     andThen (wait_scan [0..<NPROC] False addr p s) (\<lambda>(r, havekids) s.
     case r of
       Some pid \<Rightarrow> Ok pid s
     | None \<Rightarrow>
         andThen (if havekids then killed p s else Ok True s) (\<lambda>stop s.
         if stop then andThen (release L_wait s) (\<lambda>_ s. Ok (- 1) s)
         else sleeps (Ch_proc p) L_wait s)))"

definition wait :: "uint64 \<Rightarrow> 'a kst_scheme \<Rightarrow> ('a kst_scheme, int) outcome" where
  "wait addr s = andThen (acquire L_wait s) (\<lambda>_ s. wait_locked addr s)"

definition wait_resume :: "uint64 \<Rightarrow> 'a kst_scheme \<Rightarrow> ('a kst_scheme, int) outcome" where
  "wait_resume addr s = andThen (sleep_resume L_wait s) (\<lambda>_ s. wait_locked addr s)"

text \<open>
  One scan of \<^verbatim>\<open>scheduler()\<close> from entry \<open>i\<close> on: it switches to the first runnable process, with that process's lock
  held; without one the hart waits for an interrupt and the scan starts again.
\<close>

fun scheduler_scan :: "nat list \<Rightarrow> 'a kst_scheme \<Rightarrow> ('a kst_scheme, nat option) outcome" where
  "scheduler_scan [] s = Ok None s"
| "scheduler_scan (i # is) s =
     andThen (scheduler_pick i s) (\<lambda>run s. if run then Ok (Some i) s else scheduler_scan is s)"

text \<open>The rest of the scan when the process has switched back.\<close>

definition scheduler_back :: "nat \<Rightarrow> 'a kst_scheme \<Rightarrow> ('a kst_scheme, nat option) outcome" where
  "scheduler_back i s = andThen (scheduler_done i s) (\<lambda>_ s. scheduler_scan [Suc i..<NPROC] s)"

end
