(* ===== verification/Exec.thy ===== *)
theory Exec
  imports Proc
begin

text \<open>
  \<^verbatim>\<open>exec()\<close> (\<^verbatim>\<open>kernel/exec.c\<close>, \<^verbatim>\<open>kernel/elf.h\<close>).  The argument strings are given by their bytes, without the
  terminators.
\<close>

section \<open>Model\<close>

definition get64 :: "byte list \<Rightarrow> nat \<Rightarrow> uint64" where
  "get64 bs i = ucast (get32 bs i) OR push_bit 32 (ucast (get32 bs (i + 4)))"

definition bytes64 :: "uint64 \<Rightarrow> byte list" where
  "bytes64 x = bytes32 (ucast x) @ bytes32 (ucast (drop_bit 32 x))"

record elfhdr =
  elf_magic :: uint32
  elf_entry :: uint64
  elf_phoff :: uint64
  elf_phnum :: uint16

record proghdr =
  ph_type :: uint32
  ph_flags :: uint32
  ph_off :: uint64
  ph_vaddr :: uint64
  ph_filesz :: uint64
  ph_memsz :: uint64

abbreviation (input) ELFHDR_SIZE :: uint32 where "ELFHDR_SIZE \<equiv> 64"
abbreviation (input) PROGHDR_SIZE :: uint32 where "PROGHDR_SIZE \<equiv> 56"
abbreviation (input) ELF_MAGIC :: uint32 where "ELF_MAGIC \<equiv> 0x464C457F"
abbreviation (input) MAXARG :: nat where "MAXARG \<equiv> 32"
abbreviation (input) USERSTACK :: uint64 where "USERSTACK \<equiv> 1"

definition decode_elfhdr :: "byte list \<Rightarrow> elfhdr" where
  "decode_elfhdr d = \<lparr>elf_magic = get32 d 0, elf_entry = get64 d 24, elf_phoff = get64 d 32, elf_phnum = get16 d 56\<rparr>"

definition decode_proghdr :: "byte list \<Rightarrow> proghdr" where
  "decode_proghdr d = \<lparr>ph_type = get32 d 0, ph_flags = get32 d 4, ph_off = get64 d 8, ph_vaddr = get64 d 16,
     ph_filesz = get64 d 32, ph_memsz = get64 d 40\<rparr>"

definition flags2perm :: "uint32 \<Rightarrow> uint64" where
  "flags2perm flags =
     (let perm = (if flags AND 1 \<noteq> 0 then PTE_X else 0) in
      if flags AND 2 \<noteq> 0 then perm OR PTE_W else perm)"

text \<open>The loop of \<^verbatim>\<open>loadseg()\<close>; a counter that wraps around starts over and never ends.\<close>

function loadseg_from ::
  "uint64 \<Rightarrow> uint64 \<Rightarrow> nat \<Rightarrow> uint32 \<Rightarrow> nat \<Rightarrow> nat \<Rightarrow> 'a kst_scheme \<Rightarrow> ('a kst_scheme, bool) outcome" where
  "loadseg_from pagetable va ip offset sz i s =
     (if i < sz then
        let pa = walkaddr (mem s) pagetable (va + of_nat i); n = min (sz - i) 4096 in
        if pa = 0 then Panic ''loadseg: address should exist''
        else
          andThen (readi (Kernel pa) ip (offset + of_nat i) (of_nat n) s) (\<lambda>(r, bs) s.
          if r \<noteq> int n then Ok False s
          else if 2 ^ 32 \<le> i + 4096 then Spin
          else loadseg_from pagetable va ip offset sz (i + 4096) s)
      else Ok True s)"
  by auto
termination
  by (relation "measure (\<lambda>(pt, va, ip, off, sz, i, s). 2 ^ 32 - i)") auto

definition loadseg ::
  "uint64 \<Rightarrow> uint64 \<Rightarrow> nat \<Rightarrow> uint32 \<Rightarrow> uint32 \<Rightarrow> 'a kst_scheme \<Rightarrow> ('a kst_scheme, bool) outcome" where
  "loadseg pagetable va ip offset sz s = loadseg_from pagetable va ip offset (unat sz) 0 s"

text \<open>The program headers, \<open>n\<close> of them from \<open>off\<close> on; the result is the size reached, and whether all went well.\<close>

fun exec_segments ::
  "nat \<Rightarrow> uint32 \<Rightarrow> nat \<Rightarrow> uint64 \<Rightarrow> uint64 \<Rightarrow> 'a kst_scheme \<Rightarrow> ('a kst_scheme, uint64 \<times> bool) outcome" where
  "exec_segments 0 off ip pagetable sz s = Ok (sz, True) s"
| "exec_segments (Suc n) off ip pagetable sz s =
     andThen (readi (Local []) ip off PROGHDR_SIZE s) (\<lambda>(r, bs) s.
     if r \<noteq> 56 then Ok (sz, False) s
     else
       let ph = decode_proghdr bs in
       if ph_type ph \<noteq> 1 then exec_segments n (off + PROGHDR_SIZE) ip pagetable sz s
       else if ph_memsz ph < ph_filesz ph \<or> ph_vaddr ph + ph_memsz ph < ph_vaddr ph \<or> ph_vaddr ph mod PGSIZE \<noteq> 0
         then Ok (sz, False) s
       else
         andThen (uvmalloc pagetable sz (ph_vaddr ph + ph_memsz ph) (flags2perm (ph_flags ph)) s) (\<lambda>sz1 s.
         if sz1 = 0 then Ok (sz, False) s
         else
           andThen (loadseg pagetable (ph_vaddr ph) ip (ucast (ph_off ph)) (ucast (ph_filesz ph)) s) (\<lambda>ok s.
           if \<not> ok then Ok (sz1, False) s
           else exec_segments n (off + PROGHDR_SIZE) ip pagetable sz1 s)))"

definition align16 :: "uint64 \<Rightarrow> uint64" where
  "align16 sp = sp - sp mod 16"

text \<open>Pushing the argument strings; the result is the stack pointer and the addresses of the strings.\<close>

fun push_args ::
  "byte list list \<Rightarrow> uint64 \<Rightarrow> uint64 \<Rightarrow> uint64 \<Rightarrow> uint64 list \<Rightarrow> 'a kst_scheme \<Rightarrow>
   ('a kst_scheme, (uint64 \<times> uint64 list) option) outcome" where
  "push_args [] pagetable stackbase sp ustack s = Ok (Some (sp, ustack)) s"
| "push_args (a # argv) pagetable stackbase sp ustack s =
     (if MAXARG \<le> length ustack then Ok None s
      else
        let sp = align16 (sp - of_nat (length a + 1)) in
        if sp < stackbase then Ok None s
        else
          let (m, ok) = copyout (mem s) pagetable sp (a @ [0]); s = s\<lparr>mem := m\<rparr> in
          if \<not> ok then Ok None s
          else push_args argv pagetable stackbase sp (ustack @ [sp]) s)"

text \<open>\<^verbatim>\<open>bad:\<close>\<close>

definition exec_bad ::
  "uint64 \<Rightarrow> uint64 \<Rightarrow> nat option \<Rightarrow> 'a kst_scheme \<Rightarrow> ('a kst_scheme, int) outcome" where
  "exec_bad pagetable sz ip s =
     andThen (if pagetable \<noteq> 0 then proc_freepagetable pagetable sz s else Ok () s) (\<lambda>_ s.
     andThen (if ip \<noteq> None then andThen (iunlockput ip s) (\<lambda>_ s. end_op s) else Ok () s) (\<lambda>_ s.
     Ok (- 1) s))"

text \<open>The first part: the program is in memory and the inode has been released.\<close>

definition exec_load ::
  "byte list \<Rightarrow> 'a kst_scheme \<Rightarrow> ('a kst_scheme, int + (uint64 \<times> uint64 \<times> elfhdr)) outcome" where
  "exec_load path s =
     with_myproc s (\<lambda>p.
     andThen (begin_op s) (\<lambda>_ s.
     andThen (namei path s) (\<lambda>r s.
     case r of
       None \<Rightarrow> andThen (end_op s) (\<lambda>_ s. Ok (Inl (- 1)) s)
     | Some ip \<Rightarrow>
         andThen (ilock (Some ip) s) (\<lambda>_ s.
         andThen (readi (Local []) ip 0 ELFHDR_SIZE s) (\<lambda>(r, bs) s.
         let elf = decode_elfhdr bs in
         if r \<noteq> 64 \<or> elf_magic elf \<noteq> ELF_MAGIC then andThen (exec_bad 0 0 (Some ip) s) (\<lambda>r s. Ok (Inl r) s)
         else
           andThen (proc_pagetable p s) (\<lambda>pt s.
           if pt = 0 then andThen (exec_bad 0 0 (Some ip) s) (\<lambda>r s. Ok (Inl r) s)
           else
             andThen (exec_segments (unat (elf_phnum elf)) (ucast (elf_phoff elf)) ip pt 0 s) (\<lambda>(sz, ok) s.
             if \<not> ok then andThen (exec_bad pt sz (Some ip) s) (\<lambda>r s. Ok (Inl r) s)
             else
               andThen (iunlockput (Some ip) s) (\<lambda>_ s.
               andThen (end_op s) (\<lambda>_ s. Ok (Inr (pt, sz, elf)) s))))))))) "

text \<open>The rest: stack, arguments, and the commitment to the new image.\<close>

definition exec_commit ::
  "byte list \<Rightarrow> uint64 \<Rightarrow> uint64 \<Rightarrow> uint64 \<Rightarrow> uint64 \<Rightarrow> 'a kst_scheme \<Rightarrow> ('a kst_scheme, unit) outcome" where
  "exec_commit path pagetable sz sp entry s =
     with_myproc s (\<lambda>p.
     let oldpagetable = p_pagetable (proc s ! p); oldsz = p_sz (proc s ! p);
         s = tf_set p TF_a1 sp s;
         s = upd_proc p (set_name (rev (takeWhile (\<lambda>c. c \<noteq> slash) (rev path)))) s;
         s = upd_proc p (\<lambda>q. q\<lparr>p_pagetable := pagetable, p_sz := sz\<rparr>) s;
         s = tf_set p TF_epc entry s;
         s = tf_set p TF_sp sp s in
     proc_freepagetable oldpagetable oldsz s)"

definition exec_start ::
  "byte list \<Rightarrow> byte list list \<Rightarrow> uint64 \<Rightarrow> uint64 \<Rightarrow> elfhdr \<Rightarrow> 'a kst_scheme \<Rightarrow> ('a kst_scheme, int) outcome" where
  "exec_start path argv pt sz elf s =
     (let sz = PGROUNDUP sz in
      andThen (uvmalloc pt sz (sz + (USERSTACK + 1) * PGSIZE) PTE_W s) (\<lambda>sz1 s.
      if sz1 = 0 then exec_bad pt sz None s
      else
        let sz = sz1; stackbase = sz - USERSTACK * PGSIZE in
        andThen (uvmclear pt (sz - (USERSTACK + 1) * PGSIZE) s) (\<lambda>_ s.
        andThen (push_args argv pt stackbase sz [] s) (\<lambda>r s.
        case r of
          None \<Rightarrow> exec_bad pt sz None s
        | Some (sp, ustack) \<Rightarrow>
            let argc = length ustack; sp = align16 (sp - of_nat ((argc + 1) * 8)) in
            if sp < stackbase then exec_bad pt sz None s
            else
              let (m, ok) = copyout (mem s) pt sp (concat (map bytes64 (ustack @ [0]))); s = s\<lparr>mem := m\<rparr> in
              if \<not> ok then exec_bad pt sz None s
              else andThen (exec_commit path pt sz sp (elf_entry elf) s) (\<lambda>_ s. Ok (int argc) s)))))"

definition exec :: "byte list \<Rightarrow> byte list list \<Rightarrow> 'a kst_scheme \<Rightarrow> ('a kst_scheme, int) outcome" where
  "exec path argv s =
     andThen (exec_load path s) (\<lambda>r s.
     case r of
       Inl e \<Rightarrow> Ok e s
     | Inr (pt, sz, elf) \<Rightarrow> exec_start path argv pt sz elf s)"

declare loadseg_from.simps [simp del]

end
