(* ===== verification/Sysfile.thy ===== *)
theory Sysfile
  imports Exec
begin

text \<open>
  The system calls (\<^verbatim>\<open>kernel/syscall.c\<close>, \<^verbatim>\<open>kernel/sysproc.c\<close>, \<^verbatim>\<open>kernel/sysfile.c\<close>): fetching the arguments of the
  current process, the calls themselves, and the dispatcher.  A result is the 64-bit value that ends up
  in register \<^verbatim>\<open>a0\<close>; \<open>- 1\<close> is the error value.
\<close>

section \<open>Arguments\<close>

definition fetchaddr :: "uint64 \<Rightarrow> 'a kst_scheme \<Rightarrow> ('a kst_scheme, uint64 option) outcome" where
  "fetchaddr addr s =
     with_myproc s (\<lambda>p.
     let q = proc s ! p in
     if p_sz q \<le> addr \<or> p_sz q < addr + 8 then Ok None s
     else let (bs, ok) = copyin (mem s) (p_pagetable q) addr 8 in Ok (if ok then Some (get64 bs 0) else None) s)"

text \<open>The string fetched, without its terminator; its length is the code's result.\<close>

definition fetchstr :: "uint64 \<Rightarrow> nat \<Rightarrow> 'a kst_scheme \<Rightarrow> ('a kst_scheme, byte list option) outcome" where
  "fetchstr addr maxlen s =
     with_myproc s (\<lambda>p.
     let (bs, ok) = copyinstr (mem s) (p_pagetable (proc s ! p)) addr maxlen in
     Ok (if ok then Some (takeWhile (\<lambda>c. c \<noteq> 0) bs) else None) s)"

definition argraw :: "nat \<Rightarrow> 'a kst_scheme \<Rightarrow> ('a kst_scheme, uint64) outcome" where
  "argraw n s =
     with_myproc s (\<lambda>p. if n < 6 then Ok (tf_get p (TF_a0 + 8 * of_nat n) s) s else Panic ''argraw'')"

definition argint :: "nat \<Rightarrow> 'a kst_scheme \<Rightarrow> ('a kst_scheme, int) outcome" where
  "argint n s = andThen (argraw n s) (\<lambda>x s. Ok (sint (ucast x :: uint32)) s)"

definition argaddr :: "nat \<Rightarrow> 'a kst_scheme \<Rightarrow> ('a kst_scheme, uint64) outcome" where
  "argaddr n s = argraw n s"

definition argstr :: "nat \<Rightarrow> nat \<Rightarrow> 'a kst_scheme \<Rightarrow> ('a kst_scheme, byte list option) outcome" where
  "argstr n maxlen s = andThen (argaddr n s) (\<lambda>addr s. fetchstr addr maxlen s)"

abbreviation (input) MAXPATH :: nat where "MAXPATH \<equiv> 128"

section \<open>File descriptors\<close>

definition argfd :: "nat \<Rightarrow> 'a kst_scheme \<Rightarrow> ('a kst_scheme, (nat \<times> nat) option) outcome" where
  "argfd n s =
     andThen (argint n s) (\<lambda>fd s.
     with_myproc s (\<lambda>p.
     if fd < 0 \<or> int NOFILE \<le> fd then Ok None s
     else Ok (map_option (\<lambda>f. (nat fd, f)) (p_ofile (proc s ! p) ! nat fd)) s))"

definition fdalloc :: "nat \<Rightarrow> 'a kst_scheme \<Rightarrow> ('a kst_scheme, nat option) outcome" where
  "fdalloc f s =
     with_myproc s (\<lambda>p.
     case first_index (\<lambda>x. x = None) (p_ofile (proc s ! p)) of
       None \<Rightarrow> Ok None s
     | Some fd \<Rightarrow> Ok (Some fd) (upd_proc p (\<lambda>q. q\<lparr>p_ofile := (p_ofile q)[fd := Some f]\<rparr>) s))"

definition clear_fd :: "nat \<Rightarrow> 'a kst_scheme \<Rightarrow> ('a kst_scheme, unit) outcome" where
  "clear_fd fd s = with_myproc s (\<lambda>p. Ok () (upd_proc p (\<lambda>q. q\<lparr>p_ofile := (p_ofile q)[fd := None]\<rparr>) s))"

definition sys_dup :: "'a kst_scheme \<Rightarrow> ('a kst_scheme, uint64) outcome" where
  "sys_dup s =
     andThen (argfd 0 s) (\<lambda>r s.
     case r of
       None \<Rightarrow> Ok (- 1) s
     | Some (_, f) \<Rightarrow>
         andThen (fdalloc f s) (\<lambda>r s.
         case r of None \<Rightarrow> Ok (- 1) s | Some fd \<Rightarrow> andThen (filedup f s) (\<lambda>_ s. Ok (of_nat fd) s)))"

definition sys_read :: "'a kst_scheme \<Rightarrow> ('a kst_scheme, uint64) outcome" where
  "sys_read s =
     andThen (argaddr 1 s) (\<lambda>p s.
     andThen (argint 2 s) (\<lambda>n s.
     andThen (argfd 0 s) (\<lambda>r s.
     case r of None \<Rightarrow> Ok (- 1) s | Some (_, f) \<Rightarrow> andThen (fileread f p n s) (\<lambda>r s. Ok (of_int r) s))))"

definition sys_write :: "'a kst_scheme \<Rightarrow> ('a kst_scheme, uint64) outcome" where
  "sys_write s =
     andThen (argaddr 1 s) (\<lambda>p s.
     andThen (argint 2 s) (\<lambda>n s.
     andThen (argfd 0 s) (\<lambda>r s.
     case r of None \<Rightarrow> Ok (- 1) s | Some (_, f) \<Rightarrow> andThen (filewrite f p n s) (\<lambda>r s. Ok (of_int r) s))))"

definition sys_close :: "'a kst_scheme \<Rightarrow> ('a kst_scheme, uint64) outcome" where
  "sys_close s =
     andThen (argfd 0 s) (\<lambda>r s.
     case r of
       None \<Rightarrow> Ok (- 1) s
     | Some (fd, f) \<Rightarrow> andThen (clear_fd fd s) (\<lambda>_ s. andThen (fileclose f s) (\<lambda>_ s. Ok 0 s)))"

text \<open>\<open>padding\<close>: the bytes of \<^verbatim>\<open>struct stat\<close> that the kernel does not set.\<close>

definition sys_fstat :: "byte list \<Rightarrow> 'a kst_scheme \<Rightarrow> ('a kst_scheme, uint64) outcome" where
  "sys_fstat padding s =
     andThen (argaddr 1 s) (\<lambda>st s.
     andThen (argfd 0 s) (\<lambda>r s.
     case r of None \<Rightarrow> Ok (- 1) s | Some (_, f) \<Rightarrow> andThen (filestat padding f st s) (\<lambda>r s. Ok (of_int r) s)))"

section \<open>Links and directories\<close>

text \<open>The way out of a transaction with an error.\<close>

definition end_with :: "uint64 \<Rightarrow> 'a kst_scheme \<Rightarrow> ('a kst_scheme, uint64) outcome" where
  "end_with r s = andThen (end_op s) (\<lambda>_ s. Ok r s)"

definition add_nlink :: "uint16 \<Rightarrow> nat \<Rightarrow> 'a kst_scheme \<Rightarrow> ('a kst_scheme, unit) outcome" where
  "add_nlink d ip s = iupdate ip (upd_inode ip (\<lambda>x. x\<lparr>i_nlink := i_nlink x + d\<rparr>) s)"

definition link_bad :: "nat \<Rightarrow> 'a kst_scheme \<Rightarrow> ('a kst_scheme, uint64) outcome" where
  "link_bad ip s =
     andThen (ilock (Some ip) s) (\<lambda>_ s.
     andThen (add_nlink (- 1) ip s) (\<lambda>_ s.
     andThen (iunlockput (Some ip) s) (\<lambda>_ s. end_with (- 1) s)))"

definition sys_link :: "'a kst_scheme \<Rightarrow> ('a kst_scheme, uint64) outcome" where
  "sys_link s =
     andThen (argstr 0 MAXPATH s) (\<lambda>old s.
     andThen (if old = None then Ok None s else argstr 1 MAXPATH s) (\<lambda>new s.
     if old = None \<or> new = None then Ok (- 1) s
     else
       andThen (begin_op s) (\<lambda>_ s.
       andThen (namei (the old) s) (\<lambda>r s.
       case r of
         None \<Rightarrow> end_with (- 1) s
       | Some ip \<Rightarrow>
           andThen (ilock (Some ip) s) (\<lambda>_ s.
           if i_type (ino s ip) = T_DIR then andThen (iunlockput (Some ip) s) (\<lambda>_ s. end_with (- 1) s)
           else
             andThen (add_nlink 1 ip s) (\<lambda>_ s.
             andThen (iunlock (Some ip) s) (\<lambda>_ s.
             andThen (nameiparent (the new) s) (\<lambda>(r, name) s.
             case r of
               None \<Rightarrow> link_bad ip s
             | Some dp \<Rightarrow>
                 andThen (ilock (Some dp) s) (\<lambda>_ s.
                 andThen (if i_dev (ino s dp) \<noteq> i_dev (ino s ip) then Ok False s
                          else dirlink dp name (i_inum (ino s ip)) s) (\<lambda>ok s.
                 andThen (iunlockput (Some dp) s) (\<lambda>_ s.
                 if \<not> ok then link_bad ip s
                 else andThen (iput ip s) (\<lambda>_ s. end_with 0 s))))))))))))"

text \<open>The loop of \<^verbatim>\<open>isdirempty()\<close>, from offset \<open>off\<close> on.\<close>

function isdirempty_from :: "nat \<Rightarrow> uint32 \<Rightarrow> 'a kst_scheme \<Rightarrow> ('a kst_scheme, bool) outcome" where
  "isdirempty_from dp off s =
     (if off < i_size (ino s dp) then
        andThen (read_dirent dp off s) (\<lambda>(r, de) s.
        if r \<noteq> 16 then Panic ''isdirempty: readi''
        else if dirent_inum de \<noteq> 0 then Ok False s
        else isdirempty_from dp (off + 16) s)
      else Ok True s)"
  by auto
termination
  by (relation "measure (\<lambda>(dp, off, s). 2 ^ 32 - unat off)") (auto dest: read_dirent_advances)

definition isdirempty :: "nat \<Rightarrow> 'a kst_scheme \<Rightarrow> ('a kst_scheme, bool) outcome" where
  "isdirempty dp s = isdirempty_from dp 32 s"

definition unlink_bad :: "nat \<Rightarrow> 'a kst_scheme \<Rightarrow> ('a kst_scheme, uint64) outcome" where
  "unlink_bad dp s = andThen (iunlockput (Some dp) s) (\<lambda>_ s. end_with (- 1) s)"

definition sys_unlink :: "'a kst_scheme \<Rightarrow> ('a kst_scheme, uint64) outcome" where
  "sys_unlink s =
     andThen (argstr 0 MAXPATH s) (\<lambda>path s.
     case path of
       None \<Rightarrow> Ok (- 1) s
     | Some path \<Rightarrow>
         andThen (begin_op s) (\<lambda>_ s.
         andThen (nameiparent path s) (\<lambda>(r, name) s.
         case r of
           None \<Rightarrow> end_with (- 1) s
         | Some dp \<Rightarrow>
             andThen (ilock (Some dp) s) (\<lambda>_ s.
             if namecmp name [46] = 0 \<or> namecmp name [46, 46] = 0 then unlink_bad dp s
             else
               andThen (dirlookup dp name s) (\<lambda>r s.
               case r of
                 None \<Rightarrow> unlink_bad dp s
               | Some (ip, off) \<Rightarrow>
                   andThen (ilock (Some ip) s) (\<lambda>_ s.
                   if sint (i_nlink (ino s ip)) < 1 then Panic ''unlink: nlink < 1''
                   else
                     andThen (if i_type (ino s ip) = T_DIR then isdirempty ip s else Ok True s) (\<lambda>empty s.
                     if \<not> empty then andThen (iunlockput (Some ip) s) (\<lambda>_ s. unlink_bad dp s)
                     else
                       andThen (writei (Local (replicate 16 0)) dp off 16 s) (\<lambda>r s.
                       if r \<noteq> 16 then Panic ''unlink: writei''
                       else
                         andThen (if i_type (ino s ip) = T_DIR then add_nlink (- 1) dp s else Ok () s) (\<lambda>_ s.
                         andThen (iunlockput (Some dp) s) (\<lambda>_ s.
                         andThen (add_nlink (- 1) ip s) (\<lambda>_ s.
                         andThen (iunlockput (Some ip) s) (\<lambda>_ s. end_with 0 s))))))))))))"

definition create_fail :: "nat \<Rightarrow> nat \<Rightarrow> 'a kst_scheme \<Rightarrow> ('a kst_scheme, nat option) outcome" where
  "create_fail ip dp s =
     andThen (iupdate ip (upd_inode ip (\<lambda>x. x\<lparr>i_nlink := 0\<rparr>) s)) (\<lambda>_ s.
     andThen (iunlockput (Some ip) s) (\<lambda>_ s.
     andThen (iunlockput (Some dp) s) (\<lambda>_ s. Ok None s)))"

text \<open>The part of \<^verbatim>\<open>create()\<close> behind \<^verbatim>\<open>ialloc()\<close>.\<close>

definition create_new ::
  "nat \<Rightarrow> nat \<Rightarrow> byte list \<Rightarrow> uint16 \<Rightarrow> uint16 \<Rightarrow> uint16 \<Rightarrow> 'a kst_scheme \<Rightarrow> ('a kst_scheme, nat option) outcome" where
  "create_new ip dp name type major minor s =
     andThen (ilock (Some ip) s) (\<lambda>_ s.
     andThen (iupdate ip (upd_inode ip (\<lambda>x. x\<lparr>i_major := major, i_minor := minor, i_nlink := 1\<rparr>) s)) (\<lambda>_ s.
     andThen (if type = T_DIR then
                andThen (dirlink ip [46] (i_inum (ino s ip)) s) (\<lambda>ok s.
                if \<not> ok then Ok False s else dirlink ip [46, 46] (i_inum (ino s dp)) s)
              else Ok True s) (\<lambda>ok s.
     if \<not> ok then create_fail ip dp s
     else
       andThen (dirlink dp name (i_inum (ino s ip)) s) (\<lambda>ok s.
       if \<not> ok then create_fail ip dp s
       else
         andThen (if type = T_DIR then add_nlink 1 dp s else Ok () s) (\<lambda>_ s.
         andThen (iunlockput (Some dp) s) (\<lambda>_ s. Ok (Some ip) s))))))"

definition create ::
  "byte list \<Rightarrow> uint16 \<Rightarrow> uint16 \<Rightarrow> uint16 \<Rightarrow> 'a kst_scheme \<Rightarrow> ('a kst_scheme, nat option) outcome" where
  "create path type major minor s =
     andThen (nameiparent path s) (\<lambda>(r, name) s.
     case r of
       None \<Rightarrow> Ok None s
     | Some dp \<Rightarrow>
         andThen (ilock (Some dp) s) (\<lambda>_ s.
         andThen (dirlookup dp name s) (\<lambda>r s.
         case r of
           Some (ip, _) \<Rightarrow>
             andThen (iunlockput (Some dp) s) (\<lambda>_ s.
             andThen (ilock (Some ip) s) (\<lambda>_ s.
             if type = T_FILE \<and> (i_type (ino s ip) = T_FILE \<or> i_type (ino s ip) = T_DEVICE) then Ok (Some ip) s
             else andThen (iunlockput (Some ip) s) (\<lambda>_ s. Ok None s)))
         | None \<Rightarrow>
             andThen (ialloc (i_dev (ino s dp)) type s) (\<lambda>r s.
             case r of
               None \<Rightarrow> andThen (iunlockput (Some dp) s) (\<lambda>_ s. Ok None s)
             | Some ip \<Rightarrow> create_new ip dp name type major minor s))))"

declare isdirempty_from.simps [simp del]

end
