(* ===== verification/Syscall.thy ===== *)
theory Syscall
  imports Sysfile
begin

text \<open>
  The remaining system calls (\<^verbatim>\<open>kernel/sysfile.c\<close>: opening, \<^verbatim>\<open>exec\<close>, pipes, the swap calls; \<^verbatim>\<open>kernel/sysproc.c\<close>) and
  the dispatcher \<^verbatim>\<open>syscall()\<close> (\<^verbatim>\<open>kernel/syscall.c\<close>).
\<close>

section \<open>Opening and making files\<close>

definition open_inode :: "byte list \<Rightarrow> int \<Rightarrow> 'a kst_scheme \<Rightarrow> ('a kst_scheme, nat option) outcome" where
  "open_inode path omode s =
     (if omode AND 0x200 \<noteq> 0 then create path T_FILE 0 0 s
      else
        andThen (namei path s) (\<lambda>r s.
        case r of
          None \<Rightarrow> Ok None s
        | Some ip \<Rightarrow>
            andThen (ilock (Some ip) s) (\<lambda>_ s.
            if i_type (ino s ip) = T_DIR \<and> omode \<noteq> 0
            then andThen (iunlockput (Some ip) s) (\<lambda>_ s. Ok None s)
            else Ok (Some ip) s)))"

definition open_fail :: "nat \<Rightarrow> 'a kst_scheme \<Rightarrow> ('a kst_scheme, uint64) outcome" where
  "open_fail ip s = andThen (iunlockput (Some ip) s) (\<lambda>_ s. end_with (- 1) s)"

definition set_open :: "nat \<Rightarrow> nat \<Rightarrow> int \<Rightarrow> 'a kst_scheme \<Rightarrow> 'a kst_scheme" where
  "set_open f ip omode s =
     (let x = ino s ip;
          s = upd_file f (\<lambda>y. if i_type x = T_DEVICE then y\<lparr>f_type := FD_DEVICE, f_major := i_major x\<rparr>
                              else y\<lparr>f_type := FD_INODE, f_off := 0\<rparr>) s in
      upd_file f (\<lambda>y. y\<lparr>f_ip := Some ip, f_readable := (omode AND 1 = 0),
        f_writable := (omode AND 1 \<noteq> 0 \<or> omode AND 2 \<noteq> 0)\<rparr>) s)"

definition sys_open :: "'a kst_scheme \<Rightarrow> ('a kst_scheme, uint64) outcome" where
  "sys_open s =
     andThen (argint 1 s) (\<lambda>omode s.
     andThen (argstr 0 MAXPATH s) (\<lambda>path s.
     case path of
       None \<Rightarrow> Ok (- 1) s
     | Some path \<Rightarrow>
         andThen (begin_op s) (\<lambda>_ s.
         andThen (open_inode path omode s) (\<lambda>r s.
         case r of
           None \<Rightarrow> end_with (- 1) s
         | Some ip \<Rightarrow>
             if i_type (ino s ip) = T_DEVICE \<and>
                (sint (i_major (ino s ip)) < 0 \<or> int NDEV \<le> sint (i_major (ino s ip))) then open_fail ip s
             else
               andThen (filealloc s) (\<lambda>r s.
               case r of
                 None \<Rightarrow> open_fail ip s
               | Some f \<Rightarrow>
                   andThen (fdalloc f s) (\<lambda>r s.
                   case r of
                     None \<Rightarrow> andThen (fileclose f s) (\<lambda>_ s. open_fail ip s)
                   | Some fd \<Rightarrow>
                       let s = set_open f ip omode s in
                       andThen (if omode AND 0x400 \<noteq> 0 \<and> i_type (ino s ip) = T_FILE then itrunc ip s else Ok () s) (\<lambda>_ s.
                       andThen (iunlock (Some ip) s) (\<lambda>_ s. end_with (of_nat fd) s)))))))) "

text \<open>\<^verbatim>\<open>sys_mkdir()\<close> and \<^verbatim>\<open>sys_mknod()\<close> with their path fetched.\<close>

definition make_node :: "byte list option \<Rightarrow> uint16 \<Rightarrow> uint16 \<Rightarrow> uint16 \<Rightarrow> 'a kst_scheme \<Rightarrow> ('a kst_scheme, uint64) outcome" where
  "make_node path type major minor s =
     (case path of
        None \<Rightarrow> end_with (- 1) s
      | Some path \<Rightarrow>
          andThen (create path type major minor s) (\<lambda>r s.
          case r of
            None \<Rightarrow> end_with (- 1) s
          | Some ip \<Rightarrow> andThen (iunlockput (Some ip) s) (\<lambda>_ s. end_with 0 s)))"

definition sys_mkdir :: "'a kst_scheme \<Rightarrow> ('a kst_scheme, uint64) outcome" where
  "sys_mkdir s =
     andThen (begin_op s) (\<lambda>_ s. andThen (argstr 0 MAXPATH s) (\<lambda>path s. make_node path T_DIR 0 0 s))"

definition sys_mknod :: "'a kst_scheme \<Rightarrow> ('a kst_scheme, uint64) outcome" where
  "sys_mknod s =
     andThen (begin_op s) (\<lambda>_ s.
     andThen (argint 1 s) (\<lambda>major s.
     andThen (argint 2 s) (\<lambda>minor s.
     andThen (argstr 0 MAXPATH s) (\<lambda>path s. make_node path T_DEVICE (of_int major) (of_int minor) s))))"

definition sys_chdir :: "'a kst_scheme \<Rightarrow> ('a kst_scheme, uint64) outcome" where
  "sys_chdir s =
     with_myproc s (\<lambda>p.
     andThen (begin_op s) (\<lambda>_ s.
     andThen (argstr 0 MAXPATH s) (\<lambda>path s.
     andThen (case path of None \<Rightarrow> Ok None s | Some path \<Rightarrow> namei path s) (\<lambda>r s.
     case r of
       None \<Rightarrow> end_with (- 1) s
     | Some ip \<Rightarrow>
         andThen (ilock (Some ip) s) (\<lambda>_ s.
         if i_type (ino s ip) \<noteq> T_DIR then andThen (iunlockput (Some ip) s) (\<lambda>_ s. end_with (- 1) s)
         else
           andThen (iunlock (Some ip) s) (\<lambda>_ s.
           andThen (deref (p_cwd (proc s ! p)) (\<lambda>cwd. iput cwd s)) (\<lambda>_ s.
           andThen (end_op s) (\<lambda>_ s.
           Ok 0 (upd_proc p (\<lambda>q. q\<lparr>p_cwd := Some ip\<rparr>) s)))))))))"

section \<open>exec and pipes\<close>

text \<open>
  The argument strings of \<^verbatim>\<open>sys_exec()\<close>: each is copied into a page of its own.  The result is the pages and
  the strings, and whether all could be fetched; \<open>k\<close> entries of \<^verbatim>\<open>argv\<close> are left.
\<close>

fun fetch_args ::
  "nat \<Rightarrow> uint64 \<Rightarrow> 'a kst_scheme \<Rightarrow> ('a kst_scheme, uint64 list \<times> byte list list \<times> bool) outcome" where
  "fetch_args 0 uargv s = Ok ([], [], False) s"
| "fetch_args (Suc k) uargv s =
     andThen (fetchaddr uargv s) (\<lambda>r s.
     case r of
       None \<Rightarrow> Ok ([], [], False) s
     | Some uarg \<Rightarrow>
         if uarg = 0 then Ok ([], [], True) s
         else
           andThen (kalloc s) (\<lambda>pg s.
           if pg = 0 then Ok ([], [], False) s
           else
             andThen (fetchstr uarg 4096 s) (\<lambda>r s.
             case r of
               None \<Rightarrow> Ok ([pg], [], False) s
             | Some a \<Rightarrow>
                 andThen (fetch_args k (uargv + 8) (s\<lparr>mem := mem_write (mem s) pg (a @ [0])\<rparr>)) (\<lambda>(pgs, as, ok) s.
                 Ok (pg # pgs, a # as, ok) s))))"

definition sys_exec :: "'a kst_scheme \<Rightarrow> ('a kst_scheme, uint64) outcome" where
  "sys_exec s =
     andThen (argaddr 1 s) (\<lambda>uargv s.
     andThen (argstr 0 MAXPATH s) (\<lambda>path s.
     case path of
       None \<Rightarrow> Ok (- 1) s
     | Some path \<Rightarrow>
         andThen (fetch_args MAXARG uargv s) (\<lambda>(pgs, argv, ok) s.
         andThen (if ok then exec path argv s else Ok (- 1) s) (\<lambda>ret s.
         andThen (foreach pgs kfree s) (\<lambda>_ s. Ok (of_int ret) s)))))"

definition close_pair :: "nat \<Rightarrow> nat \<Rightarrow> 'a kst_scheme \<Rightarrow> ('a kst_scheme, uint64) outcome" where
  "close_pair rfile wfile s = andThen (fileclose rfile s) (\<lambda>_ s. andThen (fileclose wfile s) (\<lambda>_ s. Ok (- 1) s))"

definition sys_pipe :: "'a kst_scheme \<Rightarrow> ('a kst_scheme, uint64) outcome" where
  "sys_pipe s =
     with_myproc s (\<lambda>p.
     andThen (argaddr 0 s) (\<lambda>fdarray s.
     andThen (pipealloc s) (\<lambda>r s.
     case r of
       None \<Rightarrow> Ok (- 1) s
     | Some (rfile, wfile) \<Rightarrow>
         andThen (fdalloc rfile s) (\<lambda>r0 s.
         case r0 of
           None \<Rightarrow> close_pair rfile wfile s
         | Some fd0 \<Rightarrow>
             andThen (fdalloc wfile s) (\<lambda>r1 s.
             case r1 of
               None \<Rightarrow> andThen (clear_fd fd0 s) (\<lambda>_ s. close_pair rfile wfile s)
             | Some fd1 \<Rightarrow>
                 let pt = p_pagetable (proc s ! p);
                     (m, ok) = copyout (mem s) pt fdarray (bytes32 (of_nat fd0));
                     (m, ok) = (if ok then copyout m pt (fdarray + 4) (bytes32 (of_nat fd1)) else (m, False));
                     s = s\<lparr>mem := m\<rparr> in
                 if ok then Ok 0 s
                 else andThen (clear_fd fd0 s) (\<lambda>_ s. andThen (clear_fd fd1 s) (\<lambda>_ s. close_pair rfile wfile s)))))))"

section \<open>The swap calls\<close>

definition sys_swapread :: "'a kst_scheme \<Rightarrow> ('a kst_scheme, uint64) outcome" where
  "sys_swapread s =
     andThen (argaddr 0 s) (\<lambda>ptr s.
     andThen (argint 1 s) (\<lambda>blkno s.
     andThen (swapread ptr blkno True s) (\<lambda>_ s. Ok 0 s)))"

definition sys_swapwrite :: "'a kst_scheme \<Rightarrow> ('a kst_scheme, uint64) outcome" where
  "sys_swapwrite s =
     andThen (argaddr 0 s) (\<lambda>ptr s.
     andThen (argint 1 s) (\<lambda>blkno s.
     andThen (swapwrite ptr blkno True s) (\<lambda>_ s. Ok 0 s)))"

definition sys_swapstat :: "'a kst_scheme \<Rightarrow> ('a kst_scheme, uint64) outcome" where
  "sys_swapstat s =
     with_myproc s (\<lambda>p.
     andThen (argaddr 0 s) (\<lambda>rp s.
     andThen (argaddr 1 s) (\<lambda>wp s.
     let pt = p_pagetable (proc s ! p);
         (m, ok) = copyout (mem s) pt rp (bytes32 (of_int (nr_sectors_read s)));
         (m, ok) = (if ok then copyout m pt wp (bytes32 (of_int (nr_sectors_write s))) else (m, False)) in
     Ok (if ok then 0 else - 1) (s\<lparr>mem := m\<rparr>))))"

section \<open>Processes\<close>

definition sys_exit :: "'a kst_scheme \<Rightarrow> ('a kst_scheme, uint64) outcome" where
  "sys_exit s = andThen (argint 0 s) (\<lambda>n s. exit n s)"

definition sys_getpid :: "'a kst_scheme \<Rightarrow> ('a kst_scheme, uint64) outcome" where
  "sys_getpid s = with_myproc s (\<lambda>p. Ok (of_int (p_pid (proc s ! p))) s)"

definition sys_fork :: "'a kst_scheme \<Rightarrow> ('a kst_scheme, uint64) outcome" where
  "sys_fork s = andThen (fork s) (\<lambda>r s. Ok (of_int r) s)"

definition sys_wait :: "'a kst_scheme \<Rightarrow> ('a kst_scheme, uint64) outcome" where
  "sys_wait s = andThen (argaddr 0 s) (\<lambda>p s. andThen (wait p s) (\<lambda>r s. Ok (of_int r) s))"

definition sys_sbrk :: "'a kst_scheme \<Rightarrow> ('a kst_scheme, uint64) outcome" where
  "sys_sbrk s =
     andThen (argint 0 s) (\<lambda>n s.
     with_myproc s (\<lambda>p.
     let addr = p_sz (proc s ! p) in
     andThen (growproc n s) (\<lambda>r s. Ok (if r < 0 then - 1 else addr) s)))"

text \<open>The loop of \<^verbatim>\<open>sys_sleep()\<close>, entered again after each tick.\<close>

definition sys_sleep_locked :: "int \<Rightarrow> uint32 \<Rightarrow> 'a kst_scheme \<Rightarrow> ('a kst_scheme, uint64) outcome" where
  "sys_sleep_locked n ticks0 s =
     (if ticks s - ticks0 < of_int n then
        with_myproc s (\<lambda>p.
        andThen (killed p s) (\<lambda>k s.
        if k then andThen (release L_ticks s) (\<lambda>_ s. Ok (- 1) s)
        else sleeps Ch_ticks L_ticks s))
      else andThen (release L_ticks s) (\<lambda>_ s. Ok 0 s))"

definition sys_sleep :: "'a kst_scheme \<Rightarrow> ('a kst_scheme, uint64) outcome" where
  "sys_sleep s =
     andThen (argint 0 s) (\<lambda>n s.
     andThen (acquire L_ticks s) (\<lambda>_ s. sys_sleep_locked (max n 0) (ticks s) s))"

definition sys_sleep_resume :: "int \<Rightarrow> uint32 \<Rightarrow> 'a kst_scheme \<Rightarrow> ('a kst_scheme, uint64) outcome" where
  "sys_sleep_resume n ticks0 s = andThen (sleep_resume L_ticks s) (\<lambda>_ s. sys_sleep_locked n ticks0 s)"

definition sys_kill :: "'a kst_scheme \<Rightarrow> ('a kst_scheme, uint64) outcome" where
  "sys_kill s = andThen (argint 0 s) (\<lambda>pid s. andThen (kill pid s) (\<lambda>r s. Ok (of_int r) s))"

definition sys_uptime :: "'a kst_scheme \<Rightarrow> ('a kst_scheme, uint64) outcome" where
  "sys_uptime s =
     andThen (acquire L_ticks s) (\<lambda>_ s.
     let xticks = ticks s in andThen (release L_ticks s) (\<lambda>_ s. Ok (ucast xticks) s))"

section \<open>The dispatcher\<close>

definition syscalls :: "byte list \<Rightarrow> nat \<Rightarrow> ('a kst_scheme \<Rightarrow> ('a kst_scheme, uint64) outcome) option" where
  "syscalls padding num =
     (if num = 0 \<or> 24 < num then None
      else Some ([sys_fork, sys_exit, sys_wait, sys_pipe, sys_read, sys_kill, sys_exec, sys_fstat padding,
        sys_chdir, sys_dup, sys_getpid, sys_sbrk, sys_sleep, sys_uptime, sys_open, sys_write,
        sys_mknod, sys_unlink, sys_link, sys_mkdir, sys_close, sys_swapread, sys_swapwrite, sys_swapstat] ! (num - 1)))"

definition syscall :: "byte list \<Rightarrow> 'a kst_scheme \<Rightarrow> ('a kst_scheme, unit) outcome" where
  "syscall padding s =
     with_myproc s (\<lambda>p.
     let num = sint (ucast (tf_get p TF_a7 s) :: uint32) in
     case (if num > 0 then syscalls padding (nat num) else None) of
       Some f \<Rightarrow> andThen (f s) (\<lambda>r s. Ok () (tf_set p TF_a0 r s))
     | None \<Rightarrow>
         andThen (printf (map of_char ''%d %s: unknown sys call %d'' @ [10]) [Int_arg (of_int (p_pid (proc s ! p))),
            Str_arg (Some (takeWhile (\<lambda>c. c \<noteq> 0) (p_name (proc s ! p)))), Int_arg (of_int num)] s) (\<lambda>_ s.
         Ok () (tf_set p TF_a0 (- 1) s)))"

section \<open>Properties of system calls\<close>

lemma argint_eq: "cpu_proc s = Some p \<Longrightarrow> n < 6 \<Longrightarrow> argint n s = Ok (sint (ucast (tf_get p (TF_a0 + 8 * of_nat n) s) :: uint32)) s"
  by (simp add: argint_def argraw_def with_myproc_def myproc_def)

lemma argaddr_eq: "cpu_proc s = Some p \<Longrightarrow> n < 6 \<Longrightarrow> argaddr n s = Ok (tf_get p (TF_a0 + 8 * of_nat n) s) s"
  by (simp add: argaddr_def argraw_def with_myproc_def myproc_def)

lemma fdalloc_eq:
  "cpu_proc s = Some p \<Longrightarrow> fdalloc f s =
     (case first_index (\<lambda>x. x = None) (p_ofile (proc s ! p)) of
        None \<Rightarrow> Ok None s
      | Some fd \<Rightarrow> Ok (Some fd) (upd_proc p (\<lambda>q. q\<lparr>p_ofile := (p_ofile q)[fd := Some f]\<rparr>) s))"
  by (simp add: fdalloc_def with_myproc_def myproc_def)

lemma filedup_eq:
  assumes "L_ftable \<notin> set (held s)" "1 \<le> f_ref (ftable s ! f)"
  shows "filedup f s = Ok f (upd_file f (\<lambda>x. x\<lparr>f_ref := f_ref x + 1\<rparr>) s)"
  using assms by (simp add: filedup_def upd_file_def)

text \<open>A machine whose process 0 has file 0 open as descriptor 0, with every argument of its system call zero.\<close>

definition sys_boot :: "memory \<Rightarrow> kst" where
  "sys_boot m = (file_boot (kst_ext \<lparr>sym_etext = 0, sym_trampoline = 0, sym_uservec = 0, sym_userret = 0, sym_kernelvec = 0,
       sym_usertrap = 0, sym_forkret = 0\<rparr>
     \<lparr>r_satp = 0, r_stvec = 0, r_sepc = 0, r_scause = 8, r_stval = 0, r_sstatus = 0, r_time = 0, r_stimecmp = 0\<rparr>
     0x80001000 False (\<lambda>_. 0) ()))\<lparr>mem := m, proc := replicate NPROC (idle_proc\<lparr>p_trapframe := 0, p_ofile := Some 0 # replicate 15 None\<rparr>),
     ftable := [\<lparr>f_type = FD_DEVICE, f_ref = 1, f_readable = True, f_writable = True, f_pipe = 0, f_ip = None, f_off = 0, f_major = 1\<rparr>]\<rparr>"

lemma sys_boot_fields [simp]:
  "mem (sys_boot m) = m" "held (sys_boot m) = []" "cpu_proc (sys_boot m) = Some 0"
  "proc (sys_boot m) = replicate NPROC (idle_proc\<lparr>p_trapframe := 0, p_ofile := Some 0 # replicate 15 None\<rparr>)"
  "ftable (sys_boot m) = [\<lparr>f_type = FD_DEVICE, f_ref = 1, f_readable = True, f_writable = True, f_pipe = 0, f_ip = None,
     f_off = 0, f_major = 1\<rparr>]"
  by (simp_all add: sys_boot_def)

definition swap_args :: memory where
  "swap_args = (\<lambda>_. 0)(0xa8 := 22, 0x78 := 0x58, 0x79 := 0x1b)"

lemma zero_args_load: "load64 (\<lambda>_. 0) 112 = 0"
  by code_simp

lemma swap_args_load: "load64 swap_args 168 = 22" "load64 swap_args 120 = 7000"
  by code_simp+

text \<open>
  C23. \<^verbatim>\<open>dup(fd)\<close> of a valid descriptor returns the lowest free descriptor, which then refers to the same entry of the file
  table as \<open>fd\<close>, and counts the new reference; no other descriptor, process or file changes.  With a bad descriptor, or when
  the process has none free, it returns -1 and changes nothing.
\<close>
theorem dup_shares_file:
  assumes cur: "cpu_proc s = Some p" "p < length (proc s)" and fd: "fd = sint (ucast (tf_get p TF_a0 s) :: uint32)"
    and files: "\<forall>k f. k < NOFILE \<and> p_ofile (proc s ! p) ! k = Some f \<longrightarrow> f < length (ftable s) \<and> 1 \<le> f_ref (ftable s ! f)"
    and lock: "L_ftable \<notin> set (held s)"
  shows "if fd < 0 \<or> int NOFILE \<le> fd \<or> p_ofile (proc s ! p) ! nat fd = None \<or> None \<notin> set (p_ofile (proc s ! p))
    then sys_dup s = Ok (- 1) s
    else \<exists>f new t. p_ofile (proc s ! p) ! nat fd = Some f \<and> sys_dup s = Ok (of_nat new) t \<and>
      new < length (p_ofile (proc s ! p)) \<and> p_ofile (proc s ! p) ! new = None \<and> (\<forall>k<new. p_ofile (proc s ! p) ! k \<noteq> None) \<and>
      proc t = (proc s)[p := (proc s ! p)\<lparr>p_ofile := (p_ofile (proc s ! p))[new := Some f]\<rparr>] \<and>
      ftable t = (ftable s)[f := (ftable s ! f)\<lparr>f_ref := f_ref (ftable s ! f) + 1\<rparr>] \<and> held t = held s"
proof -
  let ?of = "p_ofile (proc s ! p)"
  have arg: "argfd 0 s = (if fd < 0 \<or> int NOFILE \<le> fd then Ok None s else Ok (map_option (\<lambda>f. (nat fd, f)) (?of ! nat fd)) s)"
    unfolding argfd_def argint_eq [OF cur(1), of 0, simplified] using cur(1) fd by (simp add: with_myproc_def myproc_def)
  show ?thesis
  proof (cases "fd < 0 \<or> int NOFILE \<le> fd \<or> ?of ! nat fd = None")
    case True
    then have "sys_dup s = Ok (- 1) s"
      unfolding sys_dup_def arg by auto
    then show ?thesis
      using True by auto
  next
    case False
    then obtain f where f: "?of ! nat fd = Some f" "0 \<le> fd" "fd < int NOFILE"
      by auto
    have ref: "f < length (ftable s)" "1 \<le> f_ref (ftable s ! f)"
      using files f by (metis nat_less_iff)+
    have dup: "sys_dup s = andThen (fdalloc f s) (\<lambda>r s.
         case r of None \<Rightarrow> Ok (- 1) s | Some fd \<Rightarrow> andThen (filedup f s) (\<lambda>_ s. Ok (of_nat fd) s))"
      unfolding sys_dup_def arg using f False by simp
    show ?thesis
    proof (cases "first_index (\<lambda>x. x = None) ?of")
      case None
      then have "None \<notin> set ?of" "sys_dup s = Ok (- 1) s"
        unfolding first_index_None dup fdalloc_eq [OF cur(1)] by (auto simp: None)
      then show ?thesis
        by simp
    next
      case (Some new)
      let ?s = "upd_proc p (\<lambda>q. q\<lparr>p_ofile := (p_ofile q)[new := Some f]\<rparr>) s"
      have new: "new < length ?of" "?of ! new = None" "\<forall>k<new. ?of ! k \<noteq> None"
        using Some unfolding first_index_Some by auto
      have "ftable ?s = ftable s"
        by (simp add: upd_proc_def)
      then have "filedup f ?s = Ok f (upd_file f (\<lambda>x. x\<lparr>f_ref := f_ref x + 1\<rparr>) ?s)"
        using lock ref by (intro filedup_eq) simp_all
      then have "sys_dup s = Ok (of_nat new) (upd_file f (\<lambda>x. x\<lparr>f_ref := f_ref x + 1\<rparr>) ?s)"
        unfolding dup fdalloc_eq [OF cur(1)] by (simp add: Some)
      moreover have "None \<in> set ?of"
        using new(1,2) by (metis nth_mem)
      ultimately show ?thesis
        using False f(1) new by (auto simp: upd_file_def upd_proc_def intro!: exI [of _ new])
    qed
  qed
qed

theorem dup_shares_file_witness:
  "\<exists>t. sys_dup (sys_boot (\<lambda>_. 0)) = Ok 1 t \<and> p_ofile (proc t ! 0) ! 1 = Some 0 \<and> f_ref (ftable t ! 0) = 2"
proof -
  let ?s = "sys_boot (\<lambda>_. 0)"
  have a: "0 = sint (ucast (tf_get 0 TF_a0 ?s) :: uint32)"
    by (simp add: tf_get_def zero_args_load)
  have files: "\<forall>k f. k < NOFILE \<and> p_ofile (proc ?s ! 0) ! k = Some f \<longrightarrow> f < length (ftable ?s) \<and> 1 \<le> f_ref (ftable ?s ! f)"
    by (auto simp: nth_Cons nth_replicate split: nat.splits)
  obtain f new t where t: "p_ofile (proc ?s ! 0) ! 0 = Some f" "sys_dup ?s = Ok (of_nat new) t"
      "p_ofile (proc ?s ! 0) ! new = None" "\<forall>k<new. p_ofile (proc ?s ! 0) ! k \<noteq> None"
      "proc t = (proc ?s)[0 := (proc ?s ! 0)\<lparr>p_ofile := (p_ofile (proc ?s ! 0))[new := Some f]\<rparr>]"
      "ftable t = (ftable ?s)[f := (ftable ?s ! f)\<lparr>f_ref := f_ref (ftable ?s ! f) + 1\<rparr>]"
    using dup_shares_file [OF _ _ a files] by auto
  have f: "f = 0"
    using t(1) by simp
  have "p_ofile (proc ?s ! 0) ! 1 = None" "p_ofile (proc ?s ! 0) ! 0 \<noteq> None"
    by simp_all
  then have "new = 1"
    using t(3,4) by (metis less_one linorder_neqE_nat)
  then show ?thesis
    using t f by auto
qed

text \<open>
  C24. The system calls \<^verbatim>\<open>swapread\<close> and \<^verbatim>\<open>swapwrite\<close> hand the block number of the user program to the kernel's
  routines unchecked: with a number outside the swap area, any process that makes the call stops the kernel.
\<close>
theorem swap_calls_panic:
  assumes cur: "cpu_proc s = Some p" and num: "sint (ucast (tf_get p TF_a7 s) :: uint32) \<in> {22, 23}"
    and blk: "blkno = sint (ucast (tf_get p (TF_a0 + 8) s) :: uint32)" "blkno < 0 \<or> 7000 \<le> blkno"
  shows "syscall padding s = Panic (if sint (ucast (tf_get p TF_a7 s) :: uint32) = 22
    then ''swapread: blkno exceeded range'' else ''swapwrite: blkno exceeded range'')"
proof -
  have "sys_swapread s = Panic ''swapread: blkno exceeded range''" "sys_swapwrite s = Panic ''swapwrite: blkno exceeded range''"
    unfolding sys_swapread_def sys_swapwrite_def
    using argaddr_eq [OF cur, of 0] argint_eq [OF cur, of 1] blk
    by (simp_all add: swapread_def swapwrite_def)
  then show ?thesis
    using cur num by (auto simp: syscall_def syscalls_def with_myproc_def myproc_def Let_def numeral_eq_Suc)
qed

theorem swap_calls_panic_witness: "syscall [] (sys_boot swap_args) = Panic ''swapread: blkno exceeded range''"
  using swap_calls_panic [of "sys_boot swap_args" 0 7000 "[]"]
  by (simp add: tf_get_def swap_args_load)

end
