(* ===== verification/Trap.thy ===== *)
theory Trap
  imports Syscall
begin

text \<open>
  Traps and interrupts (\<^verbatim>\<open>kernel/trap.c\<close>, \<^verbatim>\<open>kernel/plic.c\<close>) and the start of the kernel (\<^verbatim>\<open>kernel/start.c\<close>,
  \<^verbatim>\<open>kernel/main.c\<close>, \<^verbatim>\<open>kvminit()\<close> and \<^verbatim>\<open>kvminithart()\<close> of \<^verbatim>\<open>kernel/vm.c\<close>, \<^verbatim>\<open>forkret()\<close> of \<^verbatim>\<open>kernel/proc.c\<close>).  The page-fault
  branch of \<^verbatim>\<open>usertrap()\<close> brings a page back from the swap area.

  \<open>vdisk\<close> stands for \<^verbatim>\<open>virtio_disk_intr()\<close>; \<open>padding\<close> as in \<^verbatim>\<open>filestat()\<close>.
\<close>

section \<open>Registers\<close>

abbreviation (input) SSTATUS_SPP :: uint64 where "SSTATUS_SPP \<equiv> 256"
abbreviation (input) SSTATUS_SPIE :: uint64 where "SSTATUS_SPIE \<equiv> 32"
abbreviation (input) SSTATUS_SIE :: uint64 where "SSTATUS_SIE \<equiv> 2"

definition upd_csr :: "(csrs \<Rightarrow> csrs) \<Rightarrow> 'a kst_scheme \<Rightarrow> 'a kst_scheme" where
  "upd_csr f s = s\<lparr>csr := f (csr s)\<rparr>"

definition intr_on :: "'a kst_scheme \<Rightarrow> 'a kst_scheme" where
  "intr_on s = upd_csr (\<lambda>c. c\<lparr>r_sstatus := r_sstatus c OR SSTATUS_SIE\<rparr>) s"

definition intr_off :: "'a kst_scheme \<Rightarrow> 'a kst_scheme" where
  "intr_off s = upd_csr (\<lambda>c. c\<lparr>r_sstatus := r_sstatus c AND NOT SSTATUS_SIE\<rparr>) s"

definition intr_get :: "'a kst_scheme \<Rightarrow> bool" where
  "intr_get s \<longleftrightarrow> r_sstatus (csr s) AND SSTATUS_SIE \<noteq> 0"

definition trapinithart :: "'a kst_scheme \<Rightarrow> 'a kst_scheme" where
  "trapinithart s = upd_csr (\<lambda>c. c\<lparr>r_stvec := sym_kernelvec (syms s)\<rparr>) s"

section \<open>Interrupt controller\<close>

text \<open>The registers of the controller are written at their offsets from \<^verbatim>\<open>PLIC\<close>.\<close>

definition plicinit :: "'a kst_scheme \<Rightarrow> 'a kst_scheme" where
  "plicinit s = s\<lparr>plic := (plic s)(40 := 1, 4 := 1)\<rparr>"

definition plicinithart :: "'a kst_scheme \<Rightarrow> 'a kst_scheme" where
  "plicinithart s = (let hart = of_nat (cpuid s) in
     s\<lparr>plic := (plic s)(0x2080 + hart * 0x100 := 0x402, 0x201000 + hart * 0x2000 := 0)\<rparr>)"

definition plic_claim :: "'a kst_scheme \<Rightarrow> uint32" where
  "plic_claim s = plic s (0x201004 + of_nat (cpuid s) * 0x2000)"

definition plic_complete :: "uint32 \<Rightarrow> 'a kst_scheme \<Rightarrow> 'a kst_scheme" where
  "plic_complete irq s = s\<lparr>plic := (plic s)(0x201004 + of_nat (cpuid s) * 0x2000 := irq)\<rparr>"

section \<open>Device interrupts\<close>

definition clockintr :: "'a kst_scheme \<Rightarrow> ('a kst_scheme, unit) outcome" where
  "clockintr s =
     andThen
       (if cpuid s = 0 then
          andThen (acquire L_ticks s) (\<lambda>_ s.
          andThen (wakeup (Some Ch_ticks) (s\<lparr>ticks := ticks s + 1\<rparr>)) (\<lambda>_ s. release L_ticks s))
        else Ok () s)
       (\<lambda>_ s. Ok () (upd_csr (\<lambda>c. c\<lparr>r_stimecmp := r_time c + 1000000\<rparr>) s))"

definition devintr ::
  "('a kst_scheme \<Rightarrow> ('a kst_scheme, unit) outcome) \<Rightarrow> 'a kst_scheme \<Rightarrow> ('a kst_scheme, nat) outcome" where
  "devintr vdisk s =
     (let scause = r_scause (csr s) in
      if scause = 0x8000000000000009 then
        let irq = plic_claim s in
        andThen
          (if irq = 10 then uartintr s
           else if irq = 1 then vdisk s
           else if irq \<noteq> 0 then printf (map of_char ''unexpected interrupt irq=%d'' @ [10]) [Int_arg irq] s
           else Ok () s)
          (\<lambda>_ s. Ok 1 (if irq \<noteq> 0 then plic_complete irq s else s))
      else if scause = 0x8000000000000005 then andThen (clockintr s) (\<lambda>_ s. Ok 2 s)
      else Ok 0 s)"

section \<open>Traps from user space\<close>

text \<open>
  The last steps before user space: the result is the address of \<^verbatim>\<open>userret\<close> and the value for \<^verbatim>\<open>satp\<close>.
\<close>

definition usertrapret :: "'a kst_scheme \<Rightarrow> ('a kst_scheme, uint64 \<times> uint64) outcome" where
  "usertrapret s =
     with_myproc s (\<lambda>p.
     let s = intr_off s;
         s = upd_csr (\<lambda>c. c\<lparr>r_stvec := TRAMPOLINE + (sym_uservec (syms s) - sym_trampoline (syms s))\<rparr>) s;
         s = tf_set p TF_kernel_satp (r_satp (csr s)) s;
         s = tf_set p TF_kernel_sp (p_kstack (proc s ! p) + PGSIZE) s;
         s = tf_set p TF_kernel_trap (sym_usertrap (syms s)) s;
         s = tf_set p TF_kernel_hartid (of_nat (cpuid s)) s;
         s = upd_csr (\<lambda>c. c\<lparr>r_sstatus := (r_sstatus c AND NOT SSTATUS_SPP) OR SSTATUS_SPIE\<rparr>) s;
         s = upd_csr (\<lambda>c. c\<lparr>r_sepc := tf_get p TF_epc s\<rparr>) s in
     Ok (TRAMPOLINE + (sym_userret (syms s) - sym_trampoline (syms s)), MAKE_SATP (p_pagetable (proc s ! p))) s)"

definition die :: "nat \<Rightarrow> 'a kst_scheme \<Rightarrow> ('a kst_scheme, 'b) outcome" where
  "die p s = andThen (setkilled p s) (\<lambda>_ s. exit (- 1) s)"

text \<open>An access to the page below the stack pointer's page counts as a hit of the guard page.\<close>

definition bad_access :: "uint64 \<Rightarrow> uint64 \<Rightarrow> uint64 \<Rightarrow> bool" where
  "bad_access va sz sp \<longleftrightarrow>
     sz \<le> va \<or> (va < PGROUNDDOWN sp \<and> PGROUNDDOWN sp - PGSIZE \<le> va)"

definition page_fault :: "nat \<Rightarrow> uint64 \<Rightarrow> 'a kst_scheme \<Rightarrow> ('a kst_scheme, unit) outcome" where
  "page_fault p va s =
     (if bad_access va (p_sz (proc s ! p)) (tf_get p TF_sp s) then die p s
      else
        andThen (walk (p_pagetable (proc s ! p)) va False s) (\<lambda>r s.
        case r of
          None \<Rightarrow> die p s
        | Some pte \<Rightarrow>
            if load64 (mem s) pte AND PTE_V = 0 \<and> load64 (mem s) pte AND PTE_S \<noteq> 0 then
              andThen (kalloc s) (\<lambda>pa s.
              if pa = 0 then die p s
              else andThen (swap_in (p_pagetable (proc s ! p)) (PGROUNDDOWN va) pte pa 0 s) (\<lambda>_ s. Ok () s))
            else die p s))"

definition usertrap_end :: "nat \<Rightarrow> nat \<Rightarrow> 'a kst_scheme \<Rightarrow> ('a kst_scheme, uint64 \<times> uint64) outcome" where
  "usertrap_end p which_dev s =
     andThen (killed p s) (\<lambda>k s.
     if k then exit (- 1) s
     else andThen (if which_dev = 2 then yield s else Ok () s) (\<lambda>_ s. usertrapret s))"

definition usertrap ::
  "byte list \<Rightarrow> ('a kst_scheme \<Rightarrow> ('a kst_scheme, unit) outcome) \<Rightarrow> 'a kst_scheme \<Rightarrow>
   ('a kst_scheme, uint64 \<times> uint64) outcome" where
  "usertrap padding vdisk s =
     (if r_sstatus (csr s) AND SSTATUS_SPP \<noteq> 0 then Panic ''usertrap: not from user mode''
      else
        with_myproc s (\<lambda>p.
        let s = trapinithart s;
            s = tf_set p TF_epc (r_sepc (csr s)) s;
            cause = r_scause (csr s) in
        if cause = 8 then
          andThen (killed p s) (\<lambda>k s.
          if k then exit (- 1) s
          else
            let s = tf_set p TF_epc (tf_get p TF_epc s + 4) s; s = intr_on s in
            andThen (syscall padding s) (\<lambda>_ s. usertrap_end p 0 s))
        else
          andThen (devintr vdisk s) (\<lambda>which_dev s.
          if which_dev \<noteq> 0 then usertrap_end p which_dev s
          else if r_scause (csr s) \<in> {12, 13, 15} then
            andThen (page_fault p (r_stval (csr s)) s) (\<lambda>_ s. usertrap_end p 0 s)
          else
            andThen (printf (map of_char ''usertrap(): unexpected scause 0x%lx pid=%d'' @ [10])
              [Long_arg (r_scause (csr s)), Int_arg (of_int (p_pid (proc s ! p)))] s) (\<lambda>_ s.
            andThen (printf (map of_char ''            sepc=0x%lx stval=0x%lx'' @ [10])
              [Long_arg (r_sepc (csr s)), Long_arg (r_stval (csr s))] s) (\<lambda>_ s.
            andThen (setkilled p s) (\<lambda>_ s. usertrap_end p 0 s)))))) "

text \<open>A process that gave up the CPU in \<^verbatim>\<open>usertrap()\<close> goes on to user space.\<close>

definition usertrap_resume :: "'a kst_scheme \<Rightarrow> ('a kst_scheme, uint64 \<times> uint64) outcome" where
  "usertrap_resume s = andThen (yield_resume s) (\<lambda>_ s. usertrapret s)"

section \<open>Traps from kernel code\<close>

definition restore_csrs :: "uint64 \<Rightarrow> uint64 \<Rightarrow> 'a kst_scheme \<Rightarrow> 'a kst_scheme" where
  "restore_csrs sepc sstatus s = upd_csr (\<lambda>c. c\<lparr>r_sepc := sepc, r_sstatus := sstatus\<rparr>) s"

definition kerneltrap ::
  "('a kst_scheme \<Rightarrow> ('a kst_scheme, unit) outcome) \<Rightarrow> 'a kst_scheme \<Rightarrow> ('a kst_scheme, unit) outcome" where
  "kerneltrap vdisk s =
     (let sepc = r_sepc (csr s); sstatus = r_sstatus (csr s) in
      if sstatus AND SSTATUS_SPP = 0 then Panic ''kerneltrap: not from supervisor mode''
      else if intr_get s then Panic ''kerneltrap: interrupts enabled''
      else
        andThen (devintr vdisk s) (\<lambda>which_dev s.
        if which_dev = 0 then Panic ''kerneltrap''
        else
          andThen (if which_dev = 2 \<and> myproc s \<noteq> None then yield s else Ok () s) (\<lambda>_ s.
          Ok () (restore_csrs sepc sstatus s))))"

definition kerneltrap_resume :: "uint64 \<Rightarrow> uint64 \<Rightarrow> 'a kst_scheme \<Rightarrow> ('a kst_scheme, unit) outcome" where
  "kerneltrap_resume sepc sstatus s = andThen (yield_resume s) (\<lambda>_ s. Ok () (restore_csrs sepc sstatus s))"

definition forkret :: "'a kst_scheme \<Rightarrow> ('a kst_scheme, uint64 \<times> uint64) outcome" where
  "forkret s =
     with_myproc s (\<lambda>p.
     andThen (release (L_proc p) s) (\<lambda>_ s.
     andThen (if forkret_first s then andThen (fsinit ROOTDEV s) (\<lambda>_ s. Ok () (s\<lparr>forkret_first := False\<rparr>))
              else Ok () s) (\<lambda>_ s.
     usertrapret s)))"

section \<open>Starting the kernel\<close>

text \<open>The machine-mode registers that \<^verbatim>\<open>start()\<close> sets before it drops to supervisor mode.\<close>

record mregs =
  m_mstatus :: uint64
  m_mepc :: uint64
  m_satp :: uint64
  m_medeleg :: uint64
  m_mideleg :: uint64
  m_sie :: uint64
  m_pmpaddr0 :: uint64
  m_pmpcfg0 :: uint64
  m_mie :: uint64
  m_menvcfg :: uint64
  m_mcounteren :: uint64
  m_stimecmp :: uint64
  m_time :: uint64
  m_mhartid :: uint64
  m_tp :: uint64

definition timerinit :: "mregs \<Rightarrow> mregs" where
  "timerinit m = m\<lparr>m_mie := m_mie m OR 32, m_menvcfg := m_menvcfg m OR push_bit 63 1,
     m_mcounteren := m_mcounteren m OR 2, m_stimecmp := m_time m + 1000000\<rparr>"

definition start :: "uint64 \<Rightarrow> mregs \<Rightarrow> mregs" where
  "start main_addr m =
     (let m = m\<lparr>m_mstatus := (m_mstatus m AND NOT (push_bit 11 3)) OR push_bit 11 1\<rparr>;
          m = m\<lparr>m_mepc := main_addr\<rparr>;
          m = m\<lparr>m_satp := 0\<rparr>;
          m = m\<lparr>m_medeleg := 0xffff, m_mideleg := 0xffff, m_sie := m_sie m OR 0x222\<rparr>;
          m = m\<lparr>m_pmpaddr0 := 0x3fffffffffffff, m_pmpcfg0 := 0xf\<rparr>;
          m = timerinit m in
      m\<lparr>m_tp := scast (ucast (m_mhartid m) :: uint32)\<rparr>)"

definition kvminit :: "'a kst_scheme \<Rightarrow> ('a kst_scheme, unit) outcome" where
  "kvminit s =
     andThen (kvmmake (sym_etext (syms s)) (sym_trampoline (syms s)) s) (\<lambda>k s. Ok () (s\<lparr>kernel_pagetable := k\<rparr>))"

definition kvminithart :: "'a kst_scheme \<Rightarrow> 'a kst_scheme" where
  "kvminithart s = upd_csr (\<lambda>c. c\<lparr>r_satp := MAKE_SATP (kernel_pagetable s)\<rparr>) s"

text \<open>The branch of \<^verbatim>\<open>main()\<close> that hart 0 takes, up to the scheduler; \<open>disk_init\<close> is \<^verbatim>\<open>virtio_disk_init()\<close>.\<close>

definition main_boot ::
  "('a kst_scheme \<Rightarrow> ('a kst_scheme, unit) outcome) \<Rightarrow> 'a kst_scheme \<Rightarrow> ('a kst_scheme, unit) outcome" where
  "main_boot disk_init s =
     (let s = consoleinit s; s = printfinit s in
      andThen (printf [10] [] s) (\<lambda>_ s.
      andThen (printf (map of_char ''xv6 kernel is booting'' @ [10]) [] s) (\<lambda>_ s.
      andThen (printf [10] [] s) (\<lambda>_ s.
      andThen (kinit s) (\<lambda>_ s.
      andThen (kvminit s) (\<lambda>_ s.
      let s = kvminithart s; s = procinit s; s = trapinithart s; s = plicinit s; s = plicinithart s;
          s = binit s; s = iinit s in
      andThen (disk_init s) (\<lambda>_ s.
      userinit s)))))))"

definition main_other :: "'a kst_scheme \<Rightarrow> ('a kst_scheme, unit) outcome" where
  "main_other s =
     andThen (printf (map of_char ''hart %d starting'' @ [10]) [Int_arg (of_nat (cpuid s))] s) (\<lambda>_ s.
     let s = kvminithart s; s = trapinithart s; s = plicinithart s in Ok () s)"

section \<open>A fault on a page that is in the swap area\<close>

lemma walk_lookup_page: "walk_lookup m pt (PGROUNDDOWN va) = walk_lookup m pt va"
proof -
  have px: "PX l (PGROUNDDOWN va) = PX l va" for l
    unfolding PX_alt PGROUNDDOWN_shift by (rule bit_word_eqI) (auto simp: bit_simps add.assoc dest: bit_imp_le_length)
  have "walk_levels l m p (PGROUNDDOWN va) = walk_levels l m p va" for l p
    by (induction l arbitrary: p) (simp_all add: px Let_def)
  then show ?thesis
    by (simp add: walk_lookup_def)
qed

text \<open>
  C2. A page fault on a swapped-out page of the process brings the page back: the handler returns, the user
  reads at every address of the page the byte that was in the page's slot, the slot is free, and the frame that was taken
  from the free list is at the end of the list of replaceable pages.
\<close>

theorem page_fault_restores:
  assumes good: "\<not> bad_access va (p_sz (proc s ! p)) (tf_get p TF_sp s)" "va < MAXVA"
    and pt: "pt = p_pagetable (proc s ! p)" "page_aligned pt"
    and a: "walk_lookup (mem s) pt va = Some a"
    and e: "load64 (mem s) a AND PTE_V = 0" "load64 (mem s) a AND PTE_S \<noteq> 0" "load64 (mem s) a AND PTE_U \<noteq> 0"
    and k: "swap_idx (load64 (mem s) a) = k" "k < SWAPSLOTS" "k < length (swap_bitmap s)"
    and ok: "swap_ok s" and free: "kmem_ok s (pa # fs)" and l: "lru_list s xs" "page_index pa \<notin> set xs"
    and sep: "pa \<notin> set (tables (mem s) pt va)"
  shows "\<exists>t. page_fault p va s = Ok () t \<and>
    (\<forall>i<4096. user_byte (mem t) pt (PGROUNDDOWN va + of_nat i) = Some (swap_view s k ! i)) \<and>
    swap_bitmap t = (swap_bitmap s)[k := False] \<and> lru_list t (xs @ [page_index pa])"
proof -
  have lk: "L_kmem \<notin> set (held s)"
    using ok unfolding swap_ok_def sleepable_def by (elim conjE) simp
  obtain u where u: "kalloc s = Ok pa u" "page_frame pa s u"
    using kalloc_pop_runs [OF free lk] by (auto simp: runs_iff)
  have fr: "frame_ok s pa"
    using free by (simp add: kmem_ok_def)
  then have pa: "page_aligned pa" "pa \<noteq> 0"
    by (simp_all add: frame_ok_def)
  obtain m f where um: "u = s\<lparr>mem := m, freelist := f\<rparr>" and far: "\<And>x. PGROUNDDOWN x \<noteq> pa \<Longrightarrow> m x = mem s x"
    using u(2) by (auto simp: page_frame_def)
  have sb: "same_bio s u"
    by (simp add: same_bio_def um)
  have ok': "swap_ok u" and view: "swap_view u k = swap_view s k"
    using swap_ok_same [OF sb] ok by simp_all
  have l': "lru_list u xs"
    using l(1) lru_list_cong [of u s] um by simp
  have wl: "walk_levels 2 (mem s) pt (PGROUNDDOWN va) = Some a"
    using a walk_lookup_page [of "mem s" pt va] by (simp add: walk_lookup_def)
  have aw: "a mod 8 = 0" "PGROUNDDOWN a \<noteq> pa"
    using walk_levels_aligned [OF pt(2) wl] walk_levels_page [OF pt(2) wl] sep by (auto simp: tables_def)
  have la: "load64 (mem u) a = load64 (mem s) a"
    using aw um far by (intro load64_entry_cong) auto
  have k': "swap_idx (load64 (mem u) a) = k" "k < length (swap_bitmap u)" "swap_bitmap u = swap_bitmap s"
    using k la by (simp_all add: um)
  let ?f = "restored_flags (load64 (mem s) a) 0"
  obtain t where t: "swap_in pt (PGROUNDDOWN va) a pa 0 u = Ok ?f t" "mem_read (mem t) pa 4096 = swap_view s k"
      "load64 (mem t) a = PA2PTE pa OR ?f" "swap_bitmap t = (swap_bitmap s)[k := False]" "lru_list t (xs @ [page_index pa])"
      "\<And>x. PGROUNDDOWN x \<noteq> pa \<Longrightarrow> \<not> x - a < 8 \<Longrightarrow> mem t x = mem u x"
    using swap_in_runs [OF ok' l' l(2) pa(1) k'(1) k(2) k'(2) aw, of pt "PGROUNDDOWN va" 0]
    unfolding runs_iff la view k'(3) by blast
  have run: "page_fault p va s = Ok () t"
    using good pt(1) a e u(1) t(1) pa(2) um by (simp add: page_fault_def walk_def)
  have "walk_lookup (mem t) pt (PGROUNDDOWN va) = Some a"
    unfolding walk_lookup_def
  proof (rule walk_levels_validate [OF pt(2) wl e(1)])
    fix x assume "PGROUNDDOWN x \<in> set (level_pages 2 (mem s) pt (PGROUNDDOWN va))" "\<not> x - a < 8"
    then show "mem t x = mem s x"
      using t(6) [of x] far um sep by (auto simp: tables_def)
  qed
  moreover have "bit ?f 0" "bit ?f 4"
    using e(3) word_bit_test [of "load64 (mem s) a" 4] by (simp_all add: restored_flags_bits)
  moreover have "PGROUNDDOWN va < MAXVA"
    using good(2) PGROUNDDOWN_le [of va] by (rule order.strict_trans1 [rotated])
  ultimately have "user_byte (mem t) pt (PGROUNDDOWN va + of_nat i) = Some (mem t (pa + of_nat i))" if "i < 4096" for i
    using t(3) restored_flags_less pa that by (intro user_byte_entry)
  moreover have "mem t (pa + of_nat i) = swap_view s k ! i" if "i < 4096" for i
    using nth_mem_read [OF that, of "mem t" pa] t(2) by simp
  ultimately show ?thesis
    using run t(4,5) by auto
qed


text \<open>The second page of a process with slot 5 in its entry; one frame is free.\<close>

definition fault_memory :: memory where
  "fault_memory = store64 one_page_memory 0x80003008 0x1616"

definition fault_state :: kst where
  "fault_state = (file_boot (kst_ext \<lparr>sym_etext = 0, sym_trampoline = 0, sym_uservec = 0, sym_userret = 0, sym_kernelvec = 0,
       sym_usertrap = 0, sym_forkret = 0\<rparr>
     \<lparr>r_satp = 0, r_stvec = 0, r_sepc = 0, r_scause = 13, r_stval = 0x1008, r_sstatus = 0, r_time = 0, r_stimecmp = 0\<rparr>
     0x80001000 False (\<lambda>_. 0) ()))\<lparr>mem := fault_memory, freelist := 0x80040000,
     proc := replicate NPROC (idle_proc\<lparr>p_pagetable := 0x80001000, p_sz := 0x3000\<rparr>)\<rparr>"

lemma fault_state_fields [simp]:
  "mem fault_state = fault_memory" "freelist fault_state = 0x80040000" "held fault_state = []"
  "proc fault_state = replicate NPROC (idle_proc\<lparr>p_pagetable := 0x80001000, p_sz := 0x3000\<rparr>)" "cpu_proc fault_state = Some 0"
  "pages fault_state = (\<lambda>_. no_page)" "lru_head fault_state = None" "kernel_end fault_state = 0x80030000"
  "swap_bitmap fault_state = replicate SWAPSLOTS False"
  by (simp_all add: fault_state_def)
    (simp_all add: file_boot_def cons_boot_def uart_boot_def fs_boot_def log_boot_def)

lemma bcache_ok_parts:
  assumes "bufs t = bufs s" and "disk t = disk s" and "slocks t = slocks s"
  shows "bcache_ok t xs = bcache_ok s xs" and "bkey t = bkey s"
proof -
  have key: "bkey t = bkey s"
    by (simp add: fun_eq_iff bkey_def assms)
  then show "bkey t = bkey s" .
  have "mru t xs = mru s xs"
    by (simp add: mru_def assms)
  then show "bcache_ok t xs = bcache_ok s xs"
    by (simp add: bcache_ok_def buf_ok_def no_dup_def key assms)
qed

lemma cache_upd:
  "bcache_ok (s\<lparr>proc := ps\<rparr>) xs = bcache_ok s xs" "bcache_ok (s\<lparr>cpu_proc := c\<rparr>) xs = bcache_ok s xs"
  "bkey (s\<lparr>proc := ps\<rparr>) = bkey s" "bkey (s\<lparr>cpu_proc := c\<rparr>) = bkey s"
  by (rule bcache_ok_parts; simp)+

lemma cache_upd_mem:
  fixes s :: "'a memst_scheme"
  shows "bcache_ok (s\<lparr>mem := m\<rparr>) xs = bcache_ok s xs" "bcache_ok (s\<lparr>freelist := f\<rparr>) xs = bcache_ok s xs"
    "bkey (s\<lparr>mem := m\<rparr>) = bkey s" "bkey (s\<lparr>freelist := f\<rparr>) = bkey s"
  by (rule bcache_ok_parts; simp)+

lemma cons_boot_cache: "bcache_ok (cons_boot l y) (rev [0..<NBUF])" "i < NBUF \<Longrightarrow> bkey (cons_boot l y) i = (0, 0)"
  by (simp_all only: cons_boot_def uart_boot_def fs_boot_def log_boot_def mem_boot_def bio_boot_keys bio_boot_ok)

lemma file_boot_cache: "bcache_ok (file_boot z) (rev [0..<NBUF])" "i < NBUF \<Longrightarrow> bkey (file_boot z) i = (0, 0)"
  by (simp_all only: file_boot_def cache_upd cache_upd_mem cons_boot_cache)

lemma fault_state_swap_ok: "swap_ok fault_state"
proof -
  have sl: "sleepable fault_state"
    by (simp add: sleepable_def running_def proc_ok_def)
  have ok: "bcache_ok fault_state (rev [0..<NBUF])"
    by (simp only: fault_state_def cache_upd cache_upd_mem file_boot_cache)
  have "bkey fault_state i = (0, 0)" if "i < NBUF" for i
    using that by (simp only: fault_state_def cache_upd cache_upd_mem file_boot_cache)
  then show ?thesis
    by (rule swap_ok_fresh [OF ok sl])
qed

lemma fault_tables:
  "load64 fault_memory 0x80001000 = PA2PTE 0x80002000 OR 1" "load64 fault_memory 0x80002000 = PA2PTE 0x80003000 OR 1"
  "load64 fault_memory 0x80003008 = 0x1616" "load64 fault_memory 0x80040000 = 0" "load64 fault_memory 0x30 = 0"
  by (simp_all add: fault_memory_def load64_store64_other one_page_tables)
    (simp_all add: one_page_memory_def load64_store64_other load64_zero)

theorem page_fault_restores_witness:
  "\<exists>t. page_fault 0 0x1000 fault_state = Ok () t \<and> user_byte (mem t) 0x80001000 0x1007 = Some (swap_view fault_state 5 ! 7)"
proof -
  have w: "walk_lookup fault_memory 0x80001000 0x1000 = Some 0x80003008"
    by (simp add: walk_two_levels PX_page1 fault_tables PTE_examples)
  have g: "\<not> bad_access 0x1000 (p_sz (proc fault_state ! 0)) (tf_get 0 TF_sp fault_state)"
    by (simp add: bad_access_def tf_get_def idle_proc_def fault_tables PGROUNDDOWN_def)
  have "tables fault_memory 0x80001000 0x1000 = [0x80001000, 0x80002000, 0x80003000]"
    using PX_page1 by (simp add: tables_def PGROUNDDOWN_def Let_def eval_nat_numeral fault_tables PTE_examples)
  moreover have "kmem_ok fault_state [0x80040000]"
    by (simp add: kmem_ok_def frame_ok_def fault_tables page_aligned_def)
  moreover have "lru_list fault_state []"
    by (simp add: lru_list_def no_page_def)
  moreover have "swap_idx 0x1616 = 5"
    by (simp add: swap_idx_def)
  ultimately have "\<exists>t. page_fault 0 0x1000 fault_state = Ok () t \<and>
    (\<forall>i<4096. user_byte (mem t) 0x80001000 (PGROUNDDOWN 0x1000 + of_nat i) = Some (swap_view fault_state 5 ! i)) \<and>
    swap_bitmap t = (swap_bitmap fault_state)[5 := False] \<and> lru_list t ([] @ [page_index 0x80040000])"
    using w by (intro page_fault_restores [OF g, where a = "0x80003008", OF _ _ _ _ _ _ _ _ _ _ fault_state_swap_ok])
      (simp_all add: page_aligned_def fault_tables)
  then obtain t where t: "page_fault 0 0x1000 fault_state = Ok () t"
    "\<And>i. i < 4096 \<Longrightarrow> user_byte (mem t) 0x80001000 (PGROUNDDOWN 0x1000 + of_nat i) = Some (swap_view fault_state 5 ! i)"
    by blast
  then show ?thesis
    using t(2) [of 7] by (auto simp: PGROUNDDOWN_def)
qed

end
