(* ===== verification/BufOps.thy ===== *)
theory BufOps
  imports BlockIO
begin

text \<open>
  The buffer cache as a client sees it that holds several buffers at a time and pins others
  (\<^verbatim>\<open>kernel/log.c\<close> does both).  \<open>R\<close> is the set of buffers that the client has read and not released, \<open>P\<close> the set of
  pinned ones; nobody else refers to a buffer.  \<open>K\<close> is a set of blocks that do not share sectors.
\<close>

section \<open>The state between two calls\<close>

definition keys_ok :: "(uint32 \<times> uint32) set \<Rightarrow> bool" where
  "keys_ok K \<longleftrightarrow> (0, 0) \<notin> K \<and> inj_on (\<lambda>q. disk_sector (snd q)) K"

definition cio :: "(uint32 \<times> uint32) set \<Rightarrow> nat set \<Rightarrow> nat set \<Rightarrow> 'a biost_scheme \<Rightarrow> bool" where
  "cio K R P s \<longleftrightarrow> (\<exists>xs. bcache_ok s xs) \<and> sleepable s \<and>
     (\<forall>j<NBUF. b_refcnt (bufs s ! j) = (if j \<in> R then 1 else 0) + (if j \<in> P then 1 else 0)) \<and>
     (\<forall>j \<in> R. j < NBUF \<and> owns (SL_buf j) s \<and> b_valid (bufs s ! j) \<and> bkey s j \<in> K) \<and>
     (\<forall>j \<in> P. j < NBUF \<and> b_valid (bufs s ! j) \<and> bkey s j \<in> K) \<and>
     (\<forall>j<NBUF. j \<notin> R \<longrightarrow> \<not> sl_locked (slocks s (SL_buf j))) \<and>
     (\<forall>q \<in> K. unshared q s)"

definition clean :: "nat \<Rightarrow> 'a biost_scheme \<Rightarrow> bool" where
  "clean j s \<longleftrightarrow> b_data (bufs s ! j) = disk s (disk_sector (b_blockno (bufs s ! j)))"

text \<open>The buffers of a set hold the same blocks with the same contents.\<close>

definition keep :: "nat set \<Rightarrow> 'a biost_scheme \<Rightarrow> 'a biost_scheme \<Rightarrow> bool" where
  "keep R s t \<longleftrightarrow> (\<forall>j \<in> R. bkey t j = bkey s j \<and> b_data (bufs t ! j) = b_data (bufs s ! j))"

lemma cioD:
  assumes "cio K R P s"
  shows "\<exists>xs. bcache_ok s xs" and "sleepable s"
    and "j < NBUF \<Longrightarrow> b_refcnt (bufs s ! j) = (if j \<in> R then 1 else 0) + (if j \<in> P then 1 else 0)"
    and "j \<in> R \<Longrightarrow> j < NBUF" and "j \<in> R \<Longrightarrow> owns (SL_buf j) s" and "j \<in> R \<Longrightarrow> b_valid (bufs s ! j)"
    and "j \<in> R \<Longrightarrow> bkey s j \<in> K"
    and "j \<in> P \<Longrightarrow> j < NBUF" and "j \<in> P \<Longrightarrow> b_valid (bufs s ! j)" and "j \<in> P \<Longrightarrow> bkey s j \<in> K"
    and "j < NBUF \<Longrightarrow> j \<notin> R \<Longrightarrow> \<not> sl_locked (slocks s (SL_buf j))" and "q \<in> K \<Longrightarrow> unshared q s"
  using assms unfolding cio_def by blast+

lemma cioI:
  assumes "bcache_ok s xs" and "sleepable s"
    and "\<And>j. j < NBUF \<Longrightarrow> b_refcnt (bufs s ! j) = (if j \<in> R then 1 else 0) + (if j \<in> P then 1 else 0)"
    and "\<And>j. j \<in> R \<Longrightarrow> j < NBUF \<and> owns (SL_buf j) s \<and> b_valid (bufs s ! j) \<and> bkey s j \<in> K"
    and "\<And>j. j \<in> P \<Longrightarrow> j < NBUF \<and> b_valid (bufs s ! j) \<and> bkey s j \<in> K"
    and "\<And>j. j < NBUF \<Longrightarrow> j \<notin> R \<Longrightarrow> \<not> sl_locked (slocks s (SL_buf j))"
    and "\<And>q. q \<in> K \<Longrightarrow> unshared q s"
  shows "cio K R P s"
  unfolding cio_def using assms by blast

lemma cio_same:
  assumes "same_bio s t"
  shows "cio K R P t = cio K R P s"
proof -
  have eq: "bufs t = bufs s" "slocks t = slocks s"
    using assms by (simp_all add: same_bio_def)
  show ?thesis
    unfolding cio_def same_bio_props [OF assms] eq ..
qed

lemma keys_okD: "keys_ok K \<Longrightarrow> q \<in> K \<Longrightarrow> q \<noteq> (0, 0)"
  "keys_ok K \<Longrightarrow> q \<in> K \<Longrightarrow> r \<in> K \<Longrightarrow> disk_sector (snd q) = disk_sector (snd r) \<Longrightarrow> q = r"
  by (auto simp: keys_ok_def inj_on_def)

section \<open>Reading\<close>

lemma cio_can_bread:
  assumes c: "cio K R P s" and K: "keys_ok K" and q: "(dev, b) \<in> K" and new: "\<forall>j \<in> R. bkey s j \<noteq> (dev, b)"
    and free: "(\<exists>j \<in> P. bkey s j = (dev, b)) \<or> (\<exists>j<NBUF. j \<notin> R \<union> P)"
  shows "can_bread s dev b"
proof -
  have key: "(dev, b) \<noteq> (0, 0)"
    using keys_okD(1) [OF K q] .
  obtain xs where xs: "bcache_ok s xs"
    using cioD(1) [OF c] by blast
  have "\<exists>j<NBUF. b_refcnt (bufs s ! j) = 0" if "cached s (dev, b) = None"
  proof -
    have "\<exists>j<NBUF. j \<notin> R \<union> P"
      using that cioD(8) [OF c] free by (auto simp: cached_None)
    then obtain j where j: "j < NBUF" "j \<notin> R" "j \<notin> P"
      by blast
    then show ?thesis
      using cioD(3) [OF c j(1)] by auto
  qed
  moreover have "\<not> sl_locked (slocks s (SL_buf i)) \<and> b_refcnt (bufs s ! i) + 1 \<noteq> 0" if "cached s (dev, b) = Some i" for i
  proof -
    have i: "i < NBUF" "bkey s i = (dev, b)"
      using that cached_Some [OF bcache_okD(2) [OF xs] key] by auto
    then have "i \<notin> R"
      using new by auto
    then show ?thesis
      using cioD(11) [OF c i(1)] cioD(3) [OF c i(1)] by auto
  qed
  ultimately show ?thesis
    using key by (auto simp: can_bread_def split: option.splits)
qed

text \<open>A block without a referenced buffer reads as it is on the disk.\<close>

lemma unreferenced_view:
  assumes ok: "bcache_ok s xs" and z: "\<And>j. j < NBUF \<Longrightarrow> bkey s j = q \<Longrightarrow> b_refcnt (bufs s ! j) = 0"
  shows "bview s q = disk s (disk_sector (snd q))"
proof (cases "\<exists>j<NBUF. bkey s j = q")
  case True
  then obtain j where j: "j < NBUF" "bkey s j = q"
    by blast
  then show ?thesis
    using bview_hit [OF ok j] bcache_okD(3) [OF ok j(1)] z [OF j] by (auto simp: buf_ok_def bkey_def)
next
  case False
  then show ?thesis
    using bview_uncached by blast
qed

lemma bread_cio:
  assumes c: "cio K R P s" and K: "keys_ok K" and q: "(dev, b) \<in> K" and new: "\<forall>j \<in> R. bkey s j \<noteq> (dev, b)"
    and free: "(\<exists>j \<in> P. bkey s j = (dev, b)) \<or> (\<exists>j<NBUF. j \<notin> R \<union> P)"
  shows "runs (bread dev b s) (\<lambda>i t. i \<notin> R \<and> cio K (insert i R) P t \<and> bkey t i = (dev, b) \<and>
    b_data (bufs t ! i) = bview s (dev, b) \<and> bview t = bview s \<and> disk t = disk s \<and> keep (R \<union> P) s t \<and>
    (i \<in> P \<longleftrightarrow> (\<exists>j \<in> P. bkey s j = (dev, b))) \<and> (i \<notin> P \<longrightarrow> clean i t) \<and> biost.more t = biost.more s)"
proof -
  obtain xs where xs: "bcache_ok s xs"
    using cioD(1) [OF c] by blast
  have key: "(dev, b) \<noteq> (0, 0)"
    using keys_okD(1) [OF K q] .
  have br: "runs (bread dev b s) (bread_post dev b xs s)"
    by (rule bread_runs [OF xs cioD(2) [OF c] cio_can_bread [OF c K q new free]])
  have "i \<notin> R \<and> cio K (insert i R) P t \<and> bkey t i = (dev, b) \<and>
    b_data (bufs t ! i) = bview s (dev, b) \<and> bview t = bview s \<and> disk t = disk s \<and> keep (R \<union> P) s t \<and>
    (i \<in> P \<longleftrightarrow> (\<exists>j \<in> P. bkey s j = (dev, b))) \<and> (i \<notin> P \<longrightarrow> clean i t)"
    if post: "bread_post dev b xs s i t" for i t
  proof -
    note p = bread_post_fields [OF post]
    have fr: "bframe i s t" and ul: "\<not> sl_locked (slocks s (SL_buf i))"
      and hit: "bkey s i = (dev, b) \<or> b_refcnt (bufs s ! i) = 0"
      using post by (simp_all add: bread_post_def)
    have st: "proc t = proc s" "cpu_proc t = cpu_proc s" "\<And>l. l \<noteq> SL_buf i \<Longrightarrow> slocks t l = slocks s l"
      using fr by (auto simp: bframe_def)
    have iR: "i \<notin> R"
      using cioD(5) [OF c] ul by (auto simp: owns_def)
    have iP: "bkey s i = (dev, b)" if "i \<in> P"
      using hit cioD(3) [OF c p(1)] that iR by auto
    have no: "bkey s j \<noteq> (dev, b)" if "j < NBUF" "j \<noteq> i" for j
      using bcache_okD(2) [OF p(2)] that p(1,4,14) key unfolding no_dup_def by metis
    have own: "owns (SL_buf j) t = owns (SL_buf j) s" if "j \<noteq> i" for j
      using that st mypid_cong [OF st(1,2)] by (simp add: owns_def)
    have "cio K (insert i R) P t"
    proof (rule cioI [OF p(2,3)])
      show "b_refcnt (bufs t ! j) = (if j \<in> insert i R then 1 else 0) + (if j \<in> P then 1 else 0)" if "j < NBUF" for j
        using that p(8) p(13) [of j] cioD(3) [OF c that] iR by (cases "j = i") auto
      show "j < NBUF \<and> owns (SL_buf j) t \<and> b_valid (bufs t ! j) \<and> bkey t j \<in> K" if "j \<in> insert i R" for j
        using that p(1,4,5,6) q cioD(4-7) [OF c, of j] p(13,14) [of j] own [of j] by (cases "j = i") auto
      show "j < NBUF \<and> b_valid (bufs t ! j) \<and> bkey t j \<in> K" if "j \<in> P" for j
        using that p(1,4,6) q cioD(8-10) [OF c, of j] p(13,14) [of j] by (cases "j = i") auto
      show "\<not> sl_locked (slocks t (SL_buf j))" if "j < NBUF" "j \<notin> insert i R" for j
        using that cioD(11) [OF c, of j] st(3) by auto
      show "unshared r t" if r: "r \<in> K" for r
        unfolding unshared_def
      proof (intro allI impI)
        fix j assume j: "j < NBUF" "b_valid (bufs t ! j)" "disk_sector (b_blockno (bufs t ! j)) = disk_sector (snd r)"
        show "bkey t j = r"
        proof (cases "j = i")
          case True
          then show ?thesis
            using keys_okD(2) [OF K q r] j(3) p(4) by (auto simp: bkey_def)
        next
          case False
          then show ?thesis
            using cioD(12) [OF c r] j p(13,14) [OF False] by (auto simp: unshared_def)
        qed
      qed
    qed
    moreover have "keep (R \<union> P) s t"
      unfolding keep_def
    proof
      fix j assume j: "j \<in> R \<union> P"
      show "bkey t j = bkey s j \<and> b_data (bufs t ! j) = b_data (bufs s ! j)"
      proof (cases "j = i")
        case True
        then have "i \<in> P"
          using j iR by auto
        then show ?thesis
          using True iP p(4,7) bview_hit [OF xs p(1) iP] cioD(9) [OF c, of i] by simp
      qed (simp add: p(13,14))
    qed
    moreover have "i \<in> P \<longleftrightarrow> (\<exists>j \<in> P. bkey s j = (dev, b))"
      using iP no cioD(8) [OF c] by metis
    moreover have "clean i t" if "i \<notin> P"
    proof -
      have "b_refcnt (bufs s ! i) = 0"
        using cioD(3) [OF c p(1)] that iR by simp
      then have "bview s (dev, b) = disk s (disk_sector (snd (dev, b)))"
        using no by (intro unreferenced_view [OF xs]) metis
      then show ?thesis
        using p(4,7,12) by (simp add: clean_def bkey_def)
    qed
    ultimately show ?thesis
      using iR p(4,7,10,12) by blast
  qed
  note claim = this
  have "runs (bread dev b s) (\<lambda>i t. i \<notin> R \<and> cio K (insert i R) P t \<and> bkey t i = (dev, b) \<and>
    b_data (bufs t ! i) = bview s (dev, b) \<and> bview t = bview s \<and> disk t = disk s \<and> keep (R \<union> P) s t \<and>
    (i \<in> P \<longleftrightarrow> (\<exists>j \<in> P. bkey s j = (dev, b))) \<and> (i \<notin> P \<longrightarrow> clean i t))"
    by (rule runs_mono [OF br]) (rule claim)
  then show ?thesis
    by (rule runs_mono [OF runs_conj [OF _ safe_bread_more]]) blast
qed

section \<open>Writing\<close>

lemma bwrite_cio:
  assumes c: "cio K R P s" and K: "keys_ok K" and i: "i \<in> R" and d: "length d = BSIZE"
  shows "runs (bwrite i (set_data i d s)) (\<lambda>_ t. cio K R P t \<and> (\<forall>j. bkey t j = bkey s j) \<and>
    (\<forall>j. b_data (bufs t ! j) = (if j = i then d else b_data (bufs s ! j))) \<and>
    disk t = (disk s)(disk_sector (snd (bkey s i)) := d) \<and> bview t (bkey s i) = d \<and>
    (\<forall>q \<in> K. q \<noteq> bkey s i \<longrightarrow> bview t q = bview s q) \<and> biost.more t = biost.more s)"
proof -
  obtain xs where xs: "bcache_ok s xs"
    using cioD(1) [OF c] by blast
  note ci = cioD(4-7) [OF c i]
  have len: "i < length (bufs s)"
    using mruD(1) [OF bcache_okD(1) [OF xs]] ci(1) by simp
  have ref: "b_refcnt (bufs s ! i) \<noteq> 0"
    using cioD(3) [OF c ci(1)] i by simp
  define u where "u = set_data i d s"
  note f = set_data_fields [OF len, where d = d, folded u_def]
  note inv = set_data_inv [OF xs ci(1) ref ci(3) d, folded u_def]
  have blk: "b_blockno (bufs u ! i) = snd (bkey s i)"
    using f(4) by (simp add: bkey_def)
  define t where "t = u\<lparr>disk := (disk u)(disk_sector (snd (bkey s i)) := d)\<rparr>"
  have run: "bwrite i (set_data i d s) = Ok () t"
    using bwrite_eq [of u i] f(6,7) ci(2) cioD(2) [OF c] f(1) blk by (simp add: t_def u_def)
  have sole: "sole i u"
    unfolding sole_def
  proof (intro allI impI)
    fix j assume j: "j < NBUF" "j \<noteq> i" "b_valid (bufs u ! j)"
    have "bkey s j \<noteq> bkey s i"
      using bcache_okD(2) [OF xs] j(1,2) ci(1) keys_okD(1) [OF K ci(4)] unfolding no_dup_def by metis
    then show "disk_sector (b_blockno (bufs u ! j)) \<noteq> disk_sector (b_blockno (bufs u ! i))"
      using cioD(12) [OF c ci(4)] j f(2,4) [of j] blk by (auto simp: unshared_def)
  qed
  have "b_valid (bufs u ! i)" and di: "b_data (bufs u ! i) = d"
    using f ci(3) by simp_all
  note inv2 = bwrite_inv [OF inv(1) ci(1) this(1) sole, unfolded blk di, folded t_def]
  have bt: "bufs t = bufs u" "slocks t = slocks s" and kt: "bkey t j = bkey s j" for j
    using f(5) by (simp_all add: t_def u_def bkey_def)
  have ow: "owns l t = owns l s" for l
    using f(6) by (simp add: t_def owns_def mypid_def)
  have "sleepable t"
    using f(7) cioD(2) [OF c] sleepable_cong [of t u] by (simp add: t_def)
  then have "cio K R P t"
    using cioD(3-12) [OF c] f(2,3,4) unfolding cio_def unshared_def bt kt ow
    by (intro conjI) (use inv2(1) in blast, auto)
  moreover have "bview t (bkey s i) = d"
    using inv2(2) [of "bkey s i"] inv(2) [of "bkey s i"] f(5) by simp
  moreover have "bview t q = bview s q" if "q \<in> K" "q \<noteq> bkey s i" for q
  proof -
    have "disk_sector (snd q) \<noteq> disk_sector (snd (bkey s i))"
      using keys_okD(2) [OF K that(1) ci(4)] that(2) by auto
    then show ?thesis
      using inv2(2) [of q] inv(2) [of q] that by simp
  qed
  moreover have "disk t = (disk s)(disk_sector (snd (bkey s i)) := d)" "biost.more t = biost.more s"
    by (simp_all add: t_def u_def)
  ultimately show ?thesis
    unfolding run using f(1) bt kt by simp
qed

section \<open>Giving buffers back\<close>

lemma brelse_state_more_fields:
  assumes "i < length (bufs s)" and "running s"
  shows "b_data (bufs (brelse_state i s) ! j) = b_data (bufs s ! j)"
    and "j \<noteq> i \<Longrightarrow> owns (SL_buf j) (brelse_state i s) = owns (SL_buf j) s"
    and "sl_locked (slocks (brelse_state i s) (SL_buf j)) \<longleftrightarrow> j \<noteq> i \<and> sl_locked (slocks s (SL_buf j))"
proof -
  let ?d = "drop_lock (SL_buf i) s"
  let ?u = "brelse_ref i ?d"
  have l: "same_but_links ?u (brelse_state i s)"
    by (simp add: brelse_state_def Let_def)
  note st = links_state [OF l]
  show "b_data (bufs (brelse_state i s) ! j) = b_data (bufs s ! j)"
    using l assms(1) unfolding same_but_links_def
    by (auto simp: brelse_ref_def upd_buf_def nth_list_update)
  have eq: "slocks (brelse_state i s) = slocks ?d" "mypid (brelse_state i s) = mypid ?d"
    using st mypid_cong [of "brelse_state i s" ?d] by (simp_all add: brelse_ref_def)
  then have "owns (SL_buf j) (brelse_state i s) = owns (SL_buf j) ?d"
    by (simp add: owns_def)
  then show "j \<noteq> i \<Longrightarrow> owns (SL_buf j) (brelse_state i s) = owns (SL_buf j) s"
    using assms(2) by simp
  show "sl_locked (slocks (brelse_state i s) (SL_buf j)) \<longleftrightarrow> j \<noteq> i \<and> sl_locked (slocks s (SL_buf j))"
    unfolding eq by (cases "j = i") simp_all
qed

lemma brelse_cio:
  assumes c: "cio K R P s" and K: "keys_ok K" and i: "i \<in> R" and cl: "i \<notin> P \<Longrightarrow> clean i s"
  shows "runs (brelse i s) (\<lambda>_ t. cio K (R - {i}) P t \<and> (\<forall>j. bkey t j = bkey s j \<and> b_data (bufs t ! j) = b_data (bufs s ! j)) \<and>
    bview t = bview s \<and> disk t = disk s \<and> biost.more t = biost.more s)"
proof -
  obtain xs where xs: "bcache_ok s xs"
    using cioD(1) [OF c] by blast
  note ci = cioD(4-7) [OF c i]
  have len: "i < length (bufs s)"
    using mruD(1) [OF bcache_okD(1) [OF xs]] ci(1) by simp
  have ref: "b_refcnt (bufs s ! i) = (if i \<in> P then 2 else 1)"
    using cioD(3) [OF c ci(1)] i by simp
  define t where "t = brelse_state i s"
  note f = brelse_state_fields [OF len, folded t_def] and g = brelse_state_more_fields [OF len, folded t_def]
  have run: "runs (brelse i s) (\<lambda>_ u. u = t \<and> sleepable u \<and> bview u = bview s \<and>
      bcache_ok u (if b_refcnt (bufs s ! i) = 1 then i # remove1 i xs else xs))"
    unfolding t_def using ci keys_okD(1) [OF K ci(4)] cioD(2) [OF c] ref cl
    by (intro brelse_runs [OF xs]) (auto simp: clean_def split: if_splits)
  have rn: "running s"
    using cioD(2) [OF c] by simp
  have "cio K (R - {i}) P t" if ok: "bcache_ok t ys" and sl: "sleepable t" for ys
  proof (rule cioI [OF ok sl])
    show "b_refcnt (bufs t ! j) = (if j \<in> R - {i} then 1 else 0) + (if j \<in> P then 1 else 0)" if "j < NBUF" for j
      using f(1) [of j] cioD(3) [OF c that] i by auto
    show "j < NBUF \<and> owns (SL_buf j) t \<and> b_valid (bufs t ! j) \<and> bkey t j \<in> K" if "j \<in> R - {i}" for j
      using that cioD(4-7) [OF c, of j] f(2,3) [of j] g(2) [of j] rn by auto
    show "j < NBUF \<and> b_valid (bufs t ! j) \<and> bkey t j \<in> K" if "j \<in> P" for j
      using cioD(8-10) [OF c that] f(2,3) [of j] by auto
    show "\<not> sl_locked (slocks t (SL_buf j))" if "j < NBUF" "j \<notin> R - {i}" for j
      using that cioD(11) [OF c, of j] g(3) [OF rn, of j] by auto
    show "unshared q t" if "q \<in> K" for q
      using cioD(12) [OF c that] f(2,3) unfolding unshared_def by (simp add: bkey_def)
  qed
  note ct = this
  have "runs (brelse i s) (\<lambda>_ t. cio K (R - {i}) P t \<and> (\<forall>j. bkey t j = bkey s j \<and> b_data (bufs t ! j) = b_data (bufs s ! j)) \<and>
    bview t = bview s \<and> disk t = disk s)"
    by (rule runs_mono [OF run], elim conjE) (use ct f(3,4) g(1) [OF rn] in blast)
  then show ?thesis
    by (rule runs_mono [OF runs_conj [OF _ safe_brelse_more]]) blast
qed

lemma bunpin_cio:
  assumes c: "cio K R P s" and i: "i \<in> R" "i \<in> P"
  shows "runs (bunpin i s) (\<lambda>_ t. cio K R (P - {i}) t \<and> (\<forall>j. bkey t j = bkey s j \<and> b_data (bufs t ! j) = b_data (bufs s ! j)) \<and>
    bview t = bview s \<and> disk t = disk s \<and> biost.more t = biost.more s)"
proof -
  obtain xs where xs: "bcache_ok s xs"
    using cioD(1) [OF c] by blast
  note ci = cioD(4-7) [OF c i(1)]
  have len: "i < length (bufs s)"
    using mruD(1) [OF bcache_okD(1) [OF xs]] ci(1) by simp
  have ref: "b_refcnt (bufs s ! i) = 2"
    using cioD(3) [OF c ci(1)] i by simp
  have h: "held s = []"
    using cioD(2) [OF c] by simp
  define t where "t = upd_buf i (\<lambda>b. b\<lparr>b_refcnt := b_refcnt b - 1\<rparr>) s"
  have run: "bunpin i s = Ok () t"
    using h by (simp add: bunpin_def acquire_def release_def holding_def t_def upd_buf_def)
  have b: "bufs t ! j = (if j = i then (bufs s ! j)\<lparr>b_refcnt := 1\<rparr> else bufs s ! j)" for j
    using len ref by (simp add: t_def upd_buf_def)
  have st: "slocks t = slocks s" "disk t = disk s" "proc t = proc s" "cpu_proc t = cpu_proc s" "held t = held s"
    "length (bufs t) = length (bufs s)" "biost.more t = biost.more s"
    by (simp_all add: t_def upd_buf_def)
  have k: "bkey t j = bkey s j" and fl: "b_valid (bufs t ! j) = b_valid (bufs s ! j)" "b_data (bufs t ! j) = b_data (bufs s ! j)"
    "b_blockno (bufs t ! j) = b_blockno (bufs s ! j)" for j
    by (simp_all add: bkey_def b)
  have one: "one_buf i s t"
    using st b by (simp add: one_buf_def bkey_def)
  have ok: "bcache_ok t xs"
  proof (rule bcache_ok_one_buf [OF xs one ci(1)])
    show "buf_ok t i"
      using bcache_okD(3) [OF xs ci(1)] ref by (auto simp: buf_ok_def k b)
    show "bkey t i = (0, 0)" if "j < NBUF" "j \<noteq> i" "bkey s j = bkey t i" for j
      using bcache_okD(2) [OF xs] that ci(1) k unfolding no_dup_def by metis
  qed
  have view: "bview t = bview s"
    unfolding bview_def cached_def k fl st by (simp add: fun_eq_iff)
  have ow: "owns l t = owns l s" for l
    using st mypid_cong [of t s] by (simp add: owns_def)
  have "sleepable t"
    using sleepable_cong [of t s] st cioD(2) [OF c] by simp
  then have "cio K R (P - {i}) t"
    using cioD(3-12) [OF c] i unfolding cio_def unshared_def k fl ow st
    by (intro conjI) (use ok in blast, auto simp: b)
  then show ?thesis
    unfolding run using k fl st view by simp
qed

lemma bpin_cio:
  assumes c: "cio K R P s" and i: "i \<in> R" "i \<notin> P"
  shows "runs (bpin i s) (\<lambda>_ t. cio K R (insert i P) t \<and> (\<forall>j. bkey t j = bkey s j) \<and> disk t = disk s \<and> biost.more t = biost.more s)"
proof -
  obtain xs where xs: "bcache_ok s xs"
    using cioD(1) [OF c] by blast
  note ci = cioD(4-7) [OF c i(1)]
  have len: "i < length (bufs s)"
    using mruD(1) [OF bcache_okD(1) [OF xs]] ci(1) by simp
  have ref: "b_refcnt (bufs s ! i) = 1"
    using cioD(3) [OF c ci(1)] i by simp
  have h: "held s = []"
    using cioD(2) [OF c] by simp
  define t where "t = upd_buf i (\<lambda>b. b\<lparr>b_refcnt := b_refcnt b + 1\<rparr>) s"
  have run: "bpin i s = Ok () t"
    using h by (simp add: bpin_def acquire_def release_def holding_def t_def upd_buf_def)
  have b: "bufs t ! j = (if j = i then (bufs s ! j)\<lparr>b_refcnt := 2\<rparr> else bufs s ! j)" for j
    using len ref by (simp add: t_def upd_buf_def)
  have st: "slocks t = slocks s" "disk t = disk s" "proc t = proc s" "cpu_proc t = cpu_proc s" "held t = held s"
    "length (bufs t) = length (bufs s)" "biost.more t = biost.more s"
    by (simp_all add: t_def upd_buf_def)
  have k: "bkey t j = bkey s j" and fl: "b_valid (bufs t ! j) = b_valid (bufs s ! j)" "b_data (bufs t ! j) = b_data (bufs s ! j)"
    "b_blockno (bufs t ! j) = b_blockno (bufs s ! j)" for j
    by (simp_all add: bkey_def b)
  have one: "one_buf i s t"
    using st b by (simp add: one_buf_def bkey_def)
  have ok: "bcache_ok t xs"
  proof (rule bcache_ok_one_buf [OF xs one ci(1)])
    show "buf_ok t i"
      using bcache_okD(3) [OF xs ci(1)] ref by (auto simp: buf_ok_def k b)
    show "bkey t i = (0, 0)" if "j < NBUF" "j \<noteq> i" "bkey s j = bkey t i" for j
      using bcache_okD(2) [OF xs] that ci(1) k unfolding no_dup_def by metis
  qed
  have ow: "owns l t = owns l s" for l
    using st mypid_cong [of t s] by (simp add: owns_def)
  have "sleepable t"
    using sleepable_cong [of t s] st cioD(2) [OF c] by simp
  then have "cio K R (insert i P) t"
    using cioD(3-12) [OF c] i ci unfolding cio_def unshared_def k fl ow st
    by (intro conjI) (use ok in blast, auto simp: b)
  then show ?thesis
    unfolding run using k st by simp
qed

end
