(* ===== verification/Recovery.thy ===== *)
theory Recovery
  imports Log BufOps
begin

text \<open>
  What a crash can do to a transaction (\<^verbatim>\<open>kernel/log.c\<close>): the disk after every write of \<^verbatim>\<open>commit()\<close>, and what
  \<^verbatim>\<open>recover_from_log()\<close> makes of it.
\<close>

section \<open>The blocks of the log\<close>

definition hdr_key :: "'a logst_scheme \<Rightarrow> uint32 \<times> uint32" where
  "hdr_key s = (log_dev s, of_int (log_start s))"

definition log_key :: "'a logst_scheme \<Rightarrow> nat \<Rightarrow> uint32 \<times> uint32" where
  "log_key s i = (log_dev s, log_block s i)"

definition home_key :: "'a logst_scheme \<Rightarrow> nat \<Rightarrow> uint32 \<times> uint32" where
  "home_key s i = (log_dev s, lh_block s ! i)"

abbreviation sector :: "uint32 \<times> uint32 \<Rightarrow> uint64" where
  "sector q \<equiv> disk_sector (snd q)"

lemma keys_more:
  assumes "biost.more t = biost.more s"
  shows "hdr_key t = hdr_key s" "log_key t = log_key s" "home_key t = home_key s"
  using more_log [OF assms] by (simp_all add: hdr_key_def log_key_def home_key_def log_block_def fun_eq_iff)

text \<open>One block has been copied to another, in the cache and on the disk; nothing else of \<open>K\<close> and of the disk has changed.\<close>

definition moved ::
  "(uint32 \<times> uint32) set \<Rightarrow> uint32 \<times> uint32 \<Rightarrow> uint32 \<times> uint32 \<Rightarrow> 'a biost_scheme \<Rightarrow> 'a biost_scheme \<Rightarrow> bool" where
  "moved K src dst s t \<longleftrightarrow> disk t = (disk s)(sector dst := bview s src) \<and> bview t dst = bview s src \<and>
     (\<forall>q \<in> K. q \<noteq> dst \<longrightarrow> bview t q = bview s q)"

lemma cio_length_view: "cio K R P s \<Longrightarrow> length (bview s q) = BSIZE"
  using cioD(1) length_bview by blast

lemma write_log_one_runs:
  assumes c: "cio K {} P s" and K: "keys_ok K" and k: "log_key s i \<in> K" "home_key s i \<in> K" "log_key s i \<noteq> home_key s i"
    and pin: "\<exists>j \<in> P. bkey s j = home_key s i" "\<forall>j \<in> P. bkey s j \<noteq> log_key s i" and free: "\<exists>j<NBUF. j \<notin> P"
  shows "runs (write_log_one i s) (\<lambda>_ t. cio K {} P t \<and> (\<forall>j \<in> P. bkey t j = bkey s j) \<and>
    moved K (home_key s i) (log_key s i) s t \<and> biost.more t = biost.more s)"
proof -
  obtain l t1 where l: "bread (log_dev s) (log_block s i) s = Ok l t1" "cio K {l} P t1" "bkey t1 l = log_key s i"
      "bview t1 = bview s" "disk t1 = disk s" "keep P s t1" "l \<notin> P" "biost.more t1 = biost.more s"
    using bread_cio [OF c K k(1) [unfolded log_key_def]] pin(2) free by (auto simp: runs_iff log_key_def)
  note m1 = more_log [OF l(8)]
  have pin1: "\<exists>j \<in> P. bkey t1 j = home_key s i"
    using pin(1) l(6) by (auto simp: keep_def)
  have "\<forall>j \<in> {l}. bkey t1 j \<noteq> (log_dev s, lh_block s ! i)"
    using l(3) k(3) by (simp add: home_key_def)
  then obtain h t2 where h: "bread (log_dev s) (lh_block s ! i) t1 = Ok h t2" "cio K {h, l} P t2" "h \<noteq> l"
      "bkey t2 h = home_key s i" "b_data (bufs t2 ! h) = bview s (home_key s i)"
      "bview t2 = bview s" "disk t2 = disk s" "keep ({l} \<union> P) t1 t2" "h \<in> P" "biost.more t2 = biost.more s"
    using bread_cio [OF l(2) K k(2) [unfolded home_key_def]] pin1 l(4,5,8) by (auto simp: runs_iff home_key_def)
  have kl: "bkey t2 l = log_key s i"
    using h(8) l(3) by (simp add: keep_def)
  let ?d = "bview s (home_key s i)"
  have len: "length ?d = BSIZE"
    by (rule cio_length_view [OF c])
  obtain t3 where t3: "bwrite l (set_data l ?d t2) = Ok () t3" "cio K {h, l} P t3" "\<And>j. bkey t3 j = bkey t2 j"
      "\<And>j. b_data (bufs t3 ! j) = (if j = l then ?d else b_data (bufs t2 ! j))"
      "disk t3 = (disk s)(sector (log_key s i) := ?d)" "bview t3 (log_key s i) = ?d"
      "\<And>q. q \<in> K \<Longrightarrow> q \<noteq> log_key s i \<Longrightarrow> bview t3 q = bview s q" "biost.more t3 = biost.more s"
    using bwrite_cio [OF h(2) K _ len, of l] kl h(6,7,10) by (auto simp: runs_iff)
  obtain t4 where t4: "brelse h t3 = Ok () t4" "cio K {l} P t4"
      "\<And>j. bkey t4 j = bkey t3 j" "\<And>j. b_data (bufs t4 ! j) = b_data (bufs t3 ! j)"
      "bview t4 = bview t3" "disk t4 = disk t3" "biost.more t4 = biost.more s"
    using brelse_cio [OF t3(2) K, of h] h(3,9) t3(8) by (auto simp: runs_iff insert_Diff_if)
  have "clean l t4"
    using t4(3,4,6) t3(3-5) kl by (simp add: clean_def bkey_def log_key_def)
  then obtain t5 where t5: "brelse l t4 = Ok () t5" "cio K {} P t5" "\<And>j. bkey t5 j = bkey t4 j"
      "bview t5 = bview t4" "disk t5 = disk t4" "biost.more t5 = biost.more s"
    using brelse_cio [OF t4(2) K, of l] t4(7) by (auto simp: runs_iff)
  have "write_log_one i s = Ok () t5"
    using l(1) h(1,5) t3(1) t4(1) t5(1) m1 by (simp add: write_log_one_def log_block_def)
  moreover have "bkey t5 j = bkey s j" if "j \<in> P" for j
    using that t5(3) t4(3) t3(3) h(8) l(6) by (simp add: keep_def)
  moreover have "moved K (home_key s i) (log_key s i) s t5"
    using t5(4,5) t4(5,6) t3(5-7) by (simp add: moved_def)
  ultimately show ?thesis
    using t5(2,6) by simp
qed

lemma unpin_runs:
  assumes "cio K R P s" and "i \<in> R" and "r \<longrightarrow> P = {}" and "\<not> r \<longrightarrow> i \<in> P"
  shows "runs (if r then Ok () s else bunpin i s) (\<lambda>_ t. cio K R (P - {i}) t \<and> (\<forall>j. bkey t j = bkey s j \<and>
    b_data (bufs t ! j) = b_data (bufs s ! j)) \<and> bview t = bview s \<and> disk t = disk s \<and> biost.more t = biost.more s)"
  using assms bunpin_cio [OF assms(1,2)] by (cases r) auto

lemma install_one_runs:
  assumes c: "cio K {} P s" and K: "keys_ok K" and k: "log_key s i \<in> K" "home_key s i \<in> K" "log_key s i \<noteq> home_key s i"
    and pin: "r \<longrightarrow> P = {}" "\<not> r \<longrightarrow> (\<exists>j \<in> P. bkey s j = home_key s i)" "\<forall>j \<in> P. bkey s j \<noteq> log_key s i"
    and free: "\<exists>j<NBUF. j \<notin> P"
  shows "runs (install_one r i s) (\<lambda>_ t. cio K {} {j \<in> P. bkey s j \<noteq> home_key s i} t \<and> (\<forall>j \<in> P. bkey t j = bkey s j) \<and>
    moved K (log_key s i) (home_key s i) s t \<and> biost.more t = biost.more s)"
proof -
  obtain l t1 where l: "bread (log_dev s) (log_block s i) s = Ok l t1" "cio K {l} P t1" "bkey t1 l = log_key s i"
      "b_data (bufs t1 ! l) = bview s (log_key s i)" "clean l t1"
      "bview t1 = bview s" "disk t1 = disk s" "keep P s t1" "l \<notin> P" "biost.more t1 = biost.more s"
    using bread_cio [OF c K k(1) [unfolded log_key_def]] pin(3) free by (auto simp: runs_iff log_key_def)
  note m1 = more_log [OF l(10)]
  have k1: "bkey t1 j = bkey s j" if "j \<in> P" for j
    using that l(8) by (simp add: keep_def)
  have "\<exists>j<NBUF. j \<notin> {l}"
    by (rule exI [of _ "if l = 0 then 1 else 0"]) auto
  then have pin1: "(\<exists>j \<in> P. bkey t1 j = home_key s i) \<or> (\<exists>j<NBUF. j \<notin> {l} \<union> P)"
    using pin(1,2) k1 by (cases r) auto
  have "\<forall>j \<in> {l}. bkey t1 j \<noteq> (log_dev s, lh_block s ! i)"
    using l(3) k(3) by (simp add: home_key_def)
  then obtain h t2 where h: "bread (log_dev s) (lh_block s ! i) t1 = Ok h t2" "cio K {h, l} P t2" "h \<noteq> l"
      "bkey t2 h = home_key s i" "bview t2 = bview s" "disk t2 = disk s" "keep ({l} \<union> P) t1 t2"
      "h \<in> P \<longleftrightarrow> (\<exists>j \<in> P. bkey t1 j = home_key s i)" "biost.more t2 = biost.more s"
    using bread_cio [OF l(2) K k(2) [unfolded home_key_def]] pin1 l(6,7,10) by (auto simp: runs_iff home_key_def)
  have kl: "bkey t2 l = log_key s i" "b_data (bufs t2 ! l) = bview s (log_key s i)"
    using h(7) l(3,4) by (simp_all add: keep_def)
  have k2: "bkey t2 j = bkey s j" if "j \<in> P" for j
    using that h(7) k1 by (simp add: keep_def)
  let ?d = "bview s (log_key s i)"
  have len: "length ?d = BSIZE"
    by (rule cio_length_view [OF c])
  obtain t3 where t3: "bwrite h (set_data h ?d t2) = Ok () t3" "cio K {h, l} P t3" "\<And>j. bkey t3 j = bkey t2 j"
      "\<And>j. b_data (bufs t3 ! j) = (if j = h then ?d else b_data (bufs t2 ! j))"
      "disk t3 = (disk s)(sector (home_key s i) := ?d)" "bview t3 (home_key s i) = ?d"
      "\<And>q. q \<in> K \<Longrightarrow> q \<noteq> home_key s i \<Longrightarrow> bview t3 q = bview s q" "biost.more t3 = biost.more s"
    using bwrite_cio [OF h(2) K _ len, of h] h(4,5,6,9) by (auto simp: runs_iff)
  have "\<not> r \<longrightarrow> h \<in> P"
    using pin(2) h(8) k1 by auto
  then obtain t4 where t4: "(if r then Ok () t3 else bunpin h t3) = Ok () t4" "cio K {h, l} (P - {h}) t4"
      "\<And>j. bkey t4 j = bkey t3 j" "\<And>j. b_data (bufs t4 ! j) = b_data (bufs t3 ! j)"
      "bview t4 = bview t3" "disk t4 = disk t3" "biost.more t4 = biost.more s"
    using unpin_runs [OF t3(2) _ pin(1), of h] t3(8) by (auto simp: runs_iff)
  have "sector (log_key s i) \<noteq> sector (home_key s i)"
    using keys_okD(2) [OF K k(1,2)] k(3) by blast
  then have "clean l t4"
    using l(4,5,7) kl t4(3,4,6) t3(3-5) h(3) l(3) by (simp add: clean_def bkey_def log_key_def)
  then obtain t5 where t5: "brelse l t4 = Ok () t5" "cio K {h} (P - {h}) t5" "\<And>j. bkey t5 j = bkey t4 j"
      "\<And>j. b_data (bufs t5 ! j) = b_data (bufs t4 ! j)" "bview t5 = bview t4" "disk t5 = disk t4" "biost.more t5 = biost.more s"
    using brelse_cio [OF t4(2) K, of l] h(3) t4(7) by (auto simp: runs_iff insert_Diff_if)
  have "clean h t5"
    using t5(3,4,6) t4(3,4,6) t3(3-5) h(4) by (simp add: clean_def bkey_def home_key_def)
  then obtain t6 where t6: "brelse h t5 = Ok () t6" "cio K {} (P - {h}) t6" "\<And>j. bkey t6 j = bkey t5 j"
      "bview t6 = bview t5" "disk t6 = disk t5" "biost.more t6 = biost.more s"
    using brelse_cio [OF t5(2) K, of h] t5(7) by (auto simp: runs_iff)
  have "install_one r i s = Ok () t6"
    using l(1) h(1) kl t3(1) t4(1) t5(1) t6(1) m1 by (simp add: install_one_def log_block_def)
  moreover have "P - {h} = {j \<in> P. bkey s j \<noteq> home_key s i}"
  proof -
    obtain xs where "bcache_ok t2 xs"
      using cioD(1) [OF h(2)] by blast
    then have "no_dup t2"
      by (rule bcache_okD(2))
    then have "j = h" if "j \<in> P" "bkey s j = home_key s i" for j
      using that k2 h(4) cioD(4) [OF h(2), of h] cioD(8) [OF h(2), of j] keys_okD(1) [OF K k(2)]
      unfolding no_dup_def by (metis insertI1)
    then show ?thesis
      using h(4) k2 by auto
  qed
  moreover have "bkey t6 j = bkey s j" if "j \<in> P" for j
    using that t6(3) t5(3) t4(3) t3(3) k2 by simp
  moreover have "moved K (log_key s i) (home_key s i) s t6"
    using t6(4,5) t5(5,6) t4(5,6) t3(5-7) by (simp add: moved_def)
  ultimately show ?thesis
    using t6(2,6) by simp
qed

section \<open>The header\<close>

definition header_of :: "int \<Rightarrow> uint32 list \<Rightarrow> byte list \<Rightarrow> byte list" where
  "header_of n bs d = put_uints (put32 d 0 (of_int n)) 4 (take (nat n) bs)"

lemma header_roundtrip:
  assumes "length d = BSIZE" and "0 \<le> n" and "n \<le> int LOGSIZE" and "nat n \<le> length bs"
  shows "length (header_of n bs d) = BSIZE" and "header_n (header_of n bs d) = n"
    and "get_uints (header_of n bs d) 4 (nat n) = take (nat n) bs"
proof -
  have l: "4 + 4 * length (take (nat n) bs) \<le> length (put32 d 0 (of_int n))"
    using assms by simp
  show "length (header_of n bs d) = BSIZE"
    unfolding header_of_def using l assms(1) by simp
  have "sint (word_of_int n :: uint32) = n"
    using assms(2,3) by (simp add: signed_of_int signed_take_bit_int_eq_self)
  then show "header_n (header_of n bs d) = n"
    unfolding header_n_def header_of_def using get_put_uints_other(1) [OF l, of 0] assms(1) by simp
  show "get_uints (header_of n bs d) 4 (nat n) = take (nat n) bs"
    unfolding get_uints_def header_of_def using get_put_uints [OF l] assms(4) by (intro nth_equalityI) simp_all
qed

lemma write_head_runs:
  assumes c: "cio K {} P s" and K: "keys_ok K" and k: "hdr_key s \<in> K" "\<forall>j \<in> P. bkey s j \<noteq> hdr_key s"
    and free: "\<exists>j<NBUF. j \<notin> P" and n: "0 \<le> lh_n s" "lh_n s \<le> int LOGSIZE" "nat (lh_n s) \<le> length (lh_block s)"
  shows "runs (write_head s) (\<lambda>_ t. cio K {} P t \<and> (\<forall>j \<in> P. bkey t j = bkey s j) \<and>
    disk t = (disk s)(sector (hdr_key s) := header_of (lh_n s) (lh_block s) (bview s (hdr_key s))) \<and>
    bview t (hdr_key s) = header_of (lh_n s) (lh_block s) (bview s (hdr_key s)) \<and>
    (\<forall>q \<in> K. q \<noteq> hdr_key s \<longrightarrow> bview t q = bview s q) \<and> biost.more t = biost.more s)"
proof -
  let ?d = "header_of (lh_n s) (lh_block s) (bview s (hdr_key s))"
  obtain b t1 where b: "bread (log_dev s) (of_int (log_start s)) s = Ok b t1" "cio K {b} P t1" "bkey t1 b = hdr_key s"
      "b_data (bufs t1 ! b) = bview s (hdr_key s)" "bview t1 = bview s" "disk t1 = disk s" "keep P s t1" "b \<notin> P"
      "biost.more t1 = biost.more s"
    using bread_cio [OF c K k(1) [unfolded hdr_key_def]] k(2) free by (auto simp: runs_iff hdr_key_def)
  note m1 = more_log [OF b(9)]
  have len: "length ?d = BSIZE"
    by (rule header_roundtrip(1) [OF cio_length_view [OF c] n])
  obtain t2 where t2: "bwrite b (set_data b ?d t1) = Ok () t2" "cio K {b} P t2" "\<And>j. bkey t2 j = bkey t1 j"
      "b_data (bufs t2 ! b) = ?d" "disk t2 = (disk s)(sector (hdr_key s) := ?d)" "bview t2 (hdr_key s) = ?d"
      "\<And>q. q \<in> K \<Longrightarrow> q \<noteq> hdr_key s \<Longrightarrow> bview t2 q = bview s q" "biost.more t2 = biost.more s"
    using bwrite_cio [OF b(2) K _ len, of b] b(3,5,6,9) by (auto simp: runs_iff)
  have "clean b t2"
    using t2(3-5) b(3) by (simp add: clean_def bkey_def hdr_key_def)
  then obtain t3 where t3: "brelse b t2 = Ok () t3" "cio K {} P t3" "\<And>j. bkey t3 j = bkey t2 j"
      "bview t3 = bview t2" "disk t3 = disk t2" "biost.more t3 = biost.more s"
    using brelse_cio [OF t2(2) K, of b] t2(8) by (auto simp: runs_iff)
  have "write_head s = Ok () t3"
    using b(1,4) t2(1) t3(1) m1 by (simp add: write_head_def header_of_def Let_def)
  then show ?thesis
    using t3 t2(3,5-7) b(7) by (simp add: keep_def)
qed

lemma read_head_runs:
  assumes c: "cio K {} {} s" and K: "keys_ok K" and k: "hdr_key s \<in> K" and n: "header_n (bview s (hdr_key s)) \<le> int LOGSIZE"
  shows "runs (read_head s) (\<lambda>_ t. cio K {} {} t \<and> bview t = bview s \<and> disk t = disk s \<and>
    biost.more t = biost.more (s\<lparr>lh_n := header_n (bview s (hdr_key s)),
      lh_block := get_uints (bview s (hdr_key s)) 4 (nat (header_n (bview s (hdr_key s)))) @
        drop (nat (header_n (bview s (hdr_key s)))) (lh_block s)\<rparr>))"
proof -
  have free: "\<exists>j<NBUF. j \<notin> {}"
    by (rule exI [of _ 0]) simp
  obtain b t1 where b: "bread (log_dev s) (of_int (log_start s)) s = Ok b t1" "cio K {b} {} t1" "bkey t1 b = hdr_key s"
      "b_data (bufs t1 ! b) = bview s (hdr_key s)" "bview t1 = bview s" "disk t1 = disk s" "clean b t1" "biost.more t1 = biost.more s"
    using bread_cio [OF c K k [unfolded hdr_key_def]] free by (auto simp: runs_iff hdr_key_def)
  define d where "d = bview s (hdr_key s)"
  define t2 where "t2 = t1\<lparr>lh_n := header_n d, lh_block := get_uints d 4 (nat (header_n d)) @ drop (nat (header_n d)) (lh_block s)\<rparr>"
  have sb: "same_bio t1 t2"
    by (simp add: same_bio_def t2_def)
  have "cio K {b} {} t2" "clean b t2"
    using cio_same [OF sb] b(2,7) by (simp_all add: clean_def t2_def)
  then obtain t3 where t3: "brelse b t2 = Ok () t3" "cio K {} {} t3" "bview t3 = bview t2" "disk t3 = disk t2" "biost.more t3 = biost.more t2"
    using brelse_cio [OF _ K, of "{b}" "{}" t2 b] by (auto simp: runs_iff)
  have "read_head s = Ok () t3"
    using b(1,4) t3(1) n more_log [OF b(8)] by (simp add: read_head_def Let_def t2_def d_def [symmetric])
  moreover have "bview t2 = bview s"
    using same_bio_props(5) [OF sb] b(5) by (simp add: fun_eq_iff)
  moreover have "biost.more t2 = biost.more (s\<lparr>lh_n := header_n d, lh_block := get_uints d 4 (nat (header_n d)) @ drop (nat (header_n d)) (lh_block s)\<rparr>)"
    using b(8) by (cases s, cases t1) (simp add: t2_def)
  ultimately show ?thesis
    using t3 b(6) by (simp add: d_def t2_def)
qed

section \<open>Copying the blocks of a transaction\<close>

definition copied_to ::
  "(uint32 \<times> uint32) set \<Rightarrow> (nat \<Rightarrow> uint32 \<times> uint32) \<Rightarrow> (nat \<Rightarrow> uint32 \<times> uint32) \<Rightarrow> nat \<Rightarrow>
   'a biost_scheme \<Rightarrow> 'a biost_scheme \<Rightarrow> bool" where
  "copied_to K src dst m s t \<longleftrightarrow>
     (\<forall>i<m. bview t (dst i) = bview s (src i) \<and> disk t (sector (dst i)) = bview s (src i)) \<and>
     (\<forall>q \<in> K. q \<notin> dst ` {..<m} \<longrightarrow> bview t q = bview s q) \<and>
     (\<forall>x. x \<notin> (\<lambda>i. sector (dst i)) ` {..<m} \<longrightarrow> disk t x = disk s x)"

lemma copied_step:
  assumes K: "keys_ok K" and st: "copied_to K src dst m s t" and mv: "moved K (src m) (dst m) t u"
    and k: "src m \<in> K" "src m \<notin> dst ` {..<m}" "\<And>i. i \<le> m \<Longrightarrow> dst i \<in> K" "dst m \<notin> dst ` {..<m}"
  shows "copied_to K src dst (Suc m) s u"
proof -
  have v: "bview t (src m) = bview s (src m)"
    using st k(1,2) by (simp add: copied_to_def)
  have ne: "dst i \<noteq> dst m" "sector (dst i) \<noteq> sector (dst m)" if "i < m" for i
  proof -
    show "dst i \<noteq> dst m"
      using k(4) that by (metis imageI lessThan_iff)
    then show "sector (dst i) \<noteq> sector (dst m)"
      using keys_okD(2) [OF K k(3) k(3), of i m] that by auto
  qed
  show ?thesis
    unfolding copied_to_def
  proof (intro conjI allI impI ballI)
    fix i assume i: "i < Suc m"
    show "bview u (dst i) = bview s (src i)" and "disk u (sector (dst i)) = bview s (src i)"
      using st mv v ne [of i] k(3) [of i] i unfolding copied_to_def moved_def by (cases "i = m"; simp)+
  next
    fix q assume "q \<in> K" "q \<notin> dst ` {..<Suc m}"
    then show "bview u q = bview s q"
      using st mv unfolding copied_to_def moved_def by (auto simp: lessThan_Suc)
  next
    fix x assume "x \<notin> (\<lambda>i. sector (dst i)) ` {..<Suc m}"
    then show "disk u x = disk s x"
      using st mv unfolding copied_to_def moved_def by (auto simp: lessThan_Suc)
  qed
qed

text \<open>
  A transaction that is ready to commit: the blocks are distinct and in \<open>K\<close>, and the buffers that hold the logged blocks
  are pinned.
\<close>

definition tx_keys :: "nat \<Rightarrow> 'a logst_scheme \<Rightarrow> (uint32 \<times> uint32) list" where
  "tx_keys n s = hdr_key s # map (log_key s) [0..<n] @ map (home_key s) [0..<n]"

definition tx_ok :: "(uint32 \<times> uint32) set \<Rightarrow> nat set \<Rightarrow> 'a logst_scheme \<Rightarrow> bool" where
  "tx_ok K P s \<longleftrightarrow> keys_ok K \<and> cio K {} P s \<and> (\<exists>j<NBUF. j \<notin> P) \<and>
     0 \<le> lh_n s \<and> lh_n s \<le> int LOGSIZE \<and> nat (lh_n s) \<le> length (lh_block s) \<and>
     set (tx_keys (nat (lh_n s)) s) \<subseteq> K \<and> distinct (tx_keys (nat (lh_n s)) s) \<and>
     bkey s ` P = home_key s ` {..<nat (lh_n s)}"

lemma tx_keysD:
  assumes "distinct (tx_keys n s)" and "set (tx_keys n s) \<subseteq> K"
  shows "hdr_key s \<in> K" "i < n \<Longrightarrow> log_key s i \<in> K" "i < n \<Longrightarrow> home_key s i \<in> K"
    "i < n \<Longrightarrow> log_key s i \<noteq> hdr_key s" "i < n \<Longrightarrow> home_key s i \<noteq> hdr_key s"
    "i < n \<Longrightarrow> j < n \<Longrightarrow> log_key s i \<noteq> home_key s j"
    "i < n \<Longrightarrow> j < n \<Longrightarrow> log_key s i = log_key s j \<longleftrightarrow> i = j"
    "i < n \<Longrightarrow> j < n \<Longrightarrow> home_key s i = home_key s j \<longleftrightarrow> i = j"
proof -
  have s: "set (tx_keys n s) = insert (hdr_key s) (log_key s ` {..<n} \<union> home_key s ` {..<n})"
    by (simp add: tx_keys_def atLeast0LessThan)
  have d: "hdr_key s \<notin> log_key s ` {..<n}" "hdr_key s \<notin> home_key s ` {..<n}"
    "log_key s ` {..<n} \<inter> home_key s ` {..<n} = {}" "inj_on (log_key s) {..<n}" "inj_on (home_key s) {..<n}"
    using assms(1) by (simp_all add: tx_keys_def distinct_map atLeast0LessThan)
  show "hdr_key s \<in> K" "i < n \<Longrightarrow> log_key s i \<in> K" "i < n \<Longrightarrow> home_key s i \<in> K"
    using assms(2) unfolding s by blast+
  show "i < n \<Longrightarrow> log_key s i \<noteq> hdr_key s" "i < n \<Longrightarrow> home_key s i \<noteq> hdr_key s"
    "i < n \<Longrightarrow> j < n \<Longrightarrow> log_key s i \<noteq> home_key s j"
    using d(1-3) by (metis imageI lessThan_iff disjoint_iff)+
  show "i < n \<Longrightarrow> j < n \<Longrightarrow> log_key s i = log_key s j \<longleftrightarrow> i = j"
    "i < n \<Longrightarrow> j < n \<Longrightarrow> home_key s i = home_key s j \<longleftrightarrow> i = j"
    using d(4,5) by (simp_all add: inj_on_eq_iff)
qed

lemma tx_keys_below:
  assumes "distinct (tx_keys n s)" and "m < n"
  shows "log_key s m \<notin> home_key s ` {..<m}" "home_key s m \<notin> log_key s ` {..<m}"
    "log_key s m \<notin> log_key s ` {..<m}" "home_key s m \<notin> home_key s ` {..<m}"
proof -
  note d = tx_keysD(6-8) [OF assms(1) order.refl]
  have "i < n" if "i < m" for i
    using that assms(2) by simp
  then show "log_key s m \<notin> home_key s ` {..<m}" "home_key s m \<notin> log_key s ` {..<m}"
    "log_key s m \<notin> log_key s ` {..<m}" "home_key s m \<notin> home_key s ` {..<m}"
    using d assms(2) by (metis imageE lessThan_iff less_irrefl)+
qed

lemma tx_keys_more:
  assumes "biost.more t = biost.more s"
  shows "tx_keys n t = tx_keys n s"
  unfolding tx_keys_def keys_more [OF assms] ..

lemma write_log_steps:
  assumes K: "keys_ok K" and c: "cio K {} P s" and free: "\<exists>j<NBUF. j \<notin> P"
    and tk: "distinct (tx_keys n s)" "set (tx_keys n s) \<subseteq> K" and pin: "bkey s ` P = home_key s ` {..<n}" and m: "m \<le> n"
  shows "runs (foreach [0..<m] write_log_one s) (\<lambda>_ t. cio K {} P t \<and> (\<forall>j \<in> P. bkey t j = bkey s j) \<and>
    copied_to K (home_key s) (log_key s) m s t \<and> biost.more t = biost.more s)"
  using m
proof (induction m)
  case 0
  then show ?case
    using c by (simp add: copied_to_def)
next
  case (Suc m)
  note d = tx_keysD [OF tk]
  have "runs (write_log_one m t) (\<lambda>_ u. cio K {} P u \<and> (\<forall>j \<in> P. bkey u j = bkey s j) \<and>
      copied_to K (home_key s) (log_key s) (Suc m) s u \<and> biost.more u = biost.more s)"
    if t: "cio K {} P t" "\<forall>j \<in> P. bkey t j = bkey s j" "copied_to K (home_key s) (log_key s) m s t" "biost.more t = biost.more s" for t
  proof -
    note km = keys_more [OF t(4)]
    have mn: "m < n"
      using Suc.prems by simp
    have lm: "\<forall>j \<in> P. bkey t j \<noteq> log_key s m"
    proof
      fix j assume "j \<in> P"
      then have "bkey t j \<in> home_key s ` {..<n}"
        using pin t(2) by auto
      then show "bkey t j \<noteq> log_key s m"
        using d(6) [OF mn] by (metis imageE lessThan_iff)
    qed
    have "home_key s m \<in> bkey s ` P"
      using pin mn by simp
    then have hm: "\<exists>j \<in> P. bkey t j = home_key s m"
      using t(2) by (metis imageE)
    have "runs (write_log_one m t) (\<lambda>_ u. cio K {} P u \<and> (\<forall>j \<in> P. bkey u j = bkey t j) \<and>
        moved K (home_key s m) (log_key s m) t u \<and> biost.more u = biost.more t)"
      by (rule write_log_one_runs [OF t(1) K, of m, unfolded km, OF d(2) [OF mn] d(3) [OF mn] d(6) [OF mn mn] hm lm free])
    then show ?thesis
    proof (rule runs_mono, elim conjE, intro conjI)
      fix u assume "moved K (home_key s m) (log_key s m) t u"
      then show "copied_to K (home_key s) (log_key s) (Suc m) s u"
        using mn by (intro copied_step [OF K t(3) _ d(3) [OF mn] tx_keys_below(2) [OF tk(1) mn] d(2) tx_keys_below(3) [OF tk(1) mn]]) auto
    qed (use t in auto)
  qed
  then show ?case
    unfolding foreach_snoc using Suc by (auto elim!: runs_mono)
qed

lemma install_steps:
  assumes K: "keys_ok K" and c: "cio K {} P s" and free: "\<exists>j<NBUF. j \<notin> P"
    and tk: "distinct (tx_keys n s)" "set (tx_keys n s) \<subseteq> K"
    and pin: "r \<longrightarrow> P = {}" "\<not> r \<longrightarrow> bkey s ` P = home_key s ` {..<n}" and m: "m \<le> n"
  shows "runs (foreach [0..<m] (install_one r) s) (\<lambda>_ t. cio K {} {j \<in> P. bkey s j \<notin> home_key s ` {..<m}} t \<and>
    (\<forall>j \<in> P. bkey s j \<notin> home_key s ` {..<m} \<longrightarrow> bkey t j = bkey s j) \<and>
    copied_to K (log_key s) (home_key s) m s t \<and> biost.more t = biost.more s)"
  using m
proof (induction m)
  case 0
  then show ?case
    using c by (simp add: copied_to_def)
next
  case (Suc m)
  note d = tx_keysD [OF tk]
  let ?Q = "\<lambda>m. {j \<in> P. bkey s j \<notin> home_key s ` {..<m}}"
  have mn: "m < n"
    using Suc.prems by simp
  have "runs (install_one r m t) (\<lambda>_ u. cio K {} (?Q (Suc m)) u \<and>
      (\<forall>j \<in> P. bkey s j \<notin> home_key s ` {..<Suc m} \<longrightarrow> bkey u j = bkey s j) \<and>
      copied_to K (log_key s) (home_key s) (Suc m) s u \<and> biost.more u = biost.more s)"
    if t: "cio K {} (?Q m) t" "\<forall>j \<in> P. bkey s j \<notin> home_key s ` {..<m} \<longrightarrow> bkey t j = bkey s j"
      "copied_to K (log_key s) (home_key s) m s t" "biost.more t = biost.more s" for t
  proof -
    note km = keys_more [OF t(4)]
    have fr: "\<exists>j<NBUF. j \<notin> ?Q m"
      using free by blast
    have hm: "\<exists>j \<in> ?Q m. bkey t j = home_key s m" if nr: "\<not> r"
    proof -
      have "home_key s m \<in> bkey s ` P"
        using pin(2) nr mn by auto
      then obtain j where j: "j \<in> P" "bkey s j = home_key s m"
        by auto
      moreover have "home_key s m \<notin> home_key s ` {..<m}"
        by (rule tx_keys_below(4) [OF tk(1) mn])
      ultimately show ?thesis
        using t(2) by (intro bexI [of _ j]) auto
    qed
    have lm: "\<forall>j \<in> ?Q m. bkey t j \<noteq> log_key s m"
    proof
      fix j assume j: "j \<in> ?Q m"
      then have "bkey t j = bkey s j" "bkey s j \<in> home_key s ` {..<n}"
        using t(2) pin by auto
      then show "bkey t j \<noteq> log_key s m"
        using d(6) [OF mn] by (metis imageE lessThan_iff)
    qed
    have pr: "r \<longrightarrow> ?Q m = {}"
      using pin(1) by auto
    have q: "{j \<in> ?Q m. bkey t j \<noteq> home_key s m} = ?Q (Suc m)"
      using t(2) by (auto simp: lessThan_Suc)
    have "runs (install_one r m t) (\<lambda>_ u. cio K {} (?Q (Suc m)) u \<and> (\<forall>j \<in> ?Q m. bkey u j = bkey t j) \<and>
        moved K (log_key s m) (home_key s m) t u \<and> biost.more u = biost.more t)"
      using install_one_runs [OF t(1) K, of m r, unfolded km, OF d(2) [OF mn] d(3) [OF mn] d(6) [OF mn mn] pr _ lm fr] hm
      unfolding q by blast
    then show ?thesis
    proof (rule runs_mono, elim conjE, intro conjI)
      fix u assume "moved K (log_key s m) (home_key s m) t u"
      then show "copied_to K (log_key s) (home_key s) (Suc m) s u"
        using mn by (intro copied_step [OF K t(3) _ d(2) [OF mn] tx_keys_below(1) [OF tk(1) mn] d(3) tx_keys_below(4) [OF tk(1) mn]]) auto
    qed (use t in \<open>auto simp: lessThan_Suc\<close>)
  qed
  then show ?case
    unfolding foreach_snoc using Suc by (auto elim!: runs_mono)
qed

section \<open>Recovery\<close>

lemma cio_view_disk:
  assumes "cio K {} {} s"
  shows "bview s q = disk s (sector q)"
proof -
  obtain xs where "bcache_ok s xs"
    using cioD(1) [OF assms] by blast
  then show ?thesis
    using cioD(3) [OF assms] by (intro unreferenced_view) simp_all
qed

lemma free_nil: "\<exists>j<NBUF. j \<notin> {}"
  by (rule exI [of _ 0]) simp

text \<open>The header of the disk as \<^verbatim>\<open>read_head()\<close> leaves it in memory.\<close>

definition with_header :: "nat \<Rightarrow> 'a logst_scheme \<Rightarrow> 'a logst_scheme" where
  "with_header n r = r\<lparr>lh_n := int n, lh_block := get_uints (bview r (hdr_key r)) 4 n @ drop n (lh_block r)\<rparr>"

lemma with_header_keys:
  "hdr_key (with_header n r) = hdr_key r" "log_key (with_header n r) = log_key r"
  "i < n \<Longrightarrow> home_key (with_header n r) i = (log_dev r, get_uints (bview r (hdr_key r)) 4 n ! i)"
  by (simp_all add: with_header_def hdr_key_def log_key_def home_key_def log_block_def nth_append fun_eq_iff)

lemma recover_runs:
  assumes c: "cio K {} {} r" and K: "keys_ok K" and n: "header_n (bview r (hdr_key r)) = int n" "n \<le> LOGSIZE"
    and tk: "distinct (tx_keys n (with_header n r))" "set (tx_keys n (with_header n r)) \<subseteq> K"
  shows "runs (recover_from_log r) (\<lambda>_ t. cio K {} {} t \<and> lh_n t = 0 \<and> header_n (disk t (sector (hdr_key r))) = 0 \<and>
    (\<forall>i<n. disk t (sector (home_key (with_header n r) i)) = bview r (log_key r i)) \<and>
    (\<forall>x. x \<noteq> sector (hdr_key r) \<longrightarrow> x \<notin> (\<lambda>i. sector (home_key (with_header n r) i)) ` {..<n} \<longrightarrow> disk t x = disk r x))"
proof -
  let ?w = "with_header n r"
  note d = tx_keysD [OF tk] and wk = with_header_keys(1,2) [of n r]
  have h: "hdr_key r \<in> K"
    using d(1) wk by simp
  obtain t1 where t1: "read_head r = Ok () t1" "cio K {} {} t1" "bview t1 = bview r" "disk t1 = disk r"
      "biost.more t1 = biost.more ?w"
    using read_head_runs [OF c K h] n unfolding runs_iff with_header_def by auto
  note k1 = keys_more [OF t1(5)] and tk1 = tx_keys_more [OF t1(5)]
  have "lh_n t1 = int n"
    using more_log(1) [OF t1(5)] by (simp add: with_header_def)
  then have inst: "install_trans True t1 = foreach [0..<n] (install_one True) t1"
    by (simp add: install_trans_def)
  have "runs (install_trans True t1) (\<lambda>_ t. cio K {} {j \<in> {}. bkey t1 j \<notin> home_key ?w ` {..<n}} t \<and>
      (\<forall>j \<in> {}. bkey t1 j \<notin> home_key ?w ` {..<n} \<longrightarrow> bkey t j = bkey t1 j) \<and>
      copied_to K (log_key ?w) (home_key ?w) n t1 t \<and> biost.more t = biost.more t1)"
    unfolding inst using install_steps [OF K t1(2) free_nil, of n True n] tk unfolding k1 tk1 by simp
  then obtain t2 where t2: "install_trans True t1 = Ok () t2" "cio K {} {} t2"
      "copied_to K (log_key ?w) (home_key ?w) n t1 t2" "biost.more t2 = biost.more t1"
    by (auto simp: runs_iff)
  define t3 where "t3 = t2\<lparr>lh_n := 0\<rparr>"
  have sb: "same_bio t2 t3"
    by (simp add: same_bio_def t3_def)
  have h3: "hdr_key t3 = hdr_key r"
    using keys_more(1) [OF t2(4)] k1(1) wk(1) by (simp add: t3_def hdr_key_def)
  have c3: "cio K {} {} t3"
    using t2(2) cio_same [OF sb] by simp
  have l3: "lh_n t3 = 0"
    by (simp add: t3_def)
  obtain t4 where t4: "write_head t3 = Ok () t4" "cio K {} {} t4"
      "disk t4 = (disk t3)(sector (hdr_key r) := header_of 0 (lh_block t3) (bview t3 (hdr_key r)))" "biost.more t4 = biost.more t3"
    using write_head_runs [OF c3 K, unfolded h3, OF h] l3 free_nil unfolding runs_iff by auto
  have "recover_from_log r = Ok () t4"
    using t1(1) t2(1) t4(1) by (simp add: recover_from_log_def t3_def)
  moreover have "header_n (disk t4 (sector (hdr_key r))) = 0"
    using header_roundtrip(2) [OF cio_length_view [OF c3], of 0] t4(3) by simp
  moreover have "sector (home_key ?w i) \<noteq> sector (hdr_key r)" if "i < n" for i
    using keys_okD(2) [OF K d(3) [OF that] h] d(5) [OF that] wk(1) by auto
  then have "disk t4 (sector (home_key ?w i)) = bview r (log_key r i)" if "i < n" for i
    using t2(3) that t4(3) t1(3) wk(2) by (simp add: copied_to_def t3_def)
  moreover have "disk t4 x = disk r x" if "x \<noteq> sector (hdr_key r)" "x \<notin> (\<lambda>i. sector (home_key ?w i)) ` {..<n}" for x
    using t2(3) that t4(3) t1(4) by (simp add: copied_to_def t3_def)
  moreover have "lh_n t4 = 0"
    using more_log(1) [OF t4(4)] l3 by simp
  ultimately show ?thesis
    using t4(2) by simp
qed

lemma recover_nothing:
  assumes c: "cio K {} {} r" and K: "keys_ok K" and h: "hdr_key r \<in> K" "header_n (bview r (hdr_key r)) = 0"
  shows "runs (recover_from_log r) (\<lambda>_ t. lh_n t = 0 \<and> header_n (disk t (sector (hdr_key r))) = 0 \<and>
    (\<forall>x. x \<noteq> sector (hdr_key r) \<longrightarrow> disk t x = disk r x))"
  using recover_runs [OF c K, of 0] h with_header_keys(1) [of 0 r] by (auto simp: tx_keys_def elim!: runs_mono)

section \<open>The phases of a commit\<close>

text \<open>After \<^verbatim>\<open>write_log()\<close> and \<^verbatim>\<open>write_head()\<close>, the commit point.\<close>

lemma commit_point:
  assumes tx: "tx_ok K P s"
  defines "n \<equiv> nat (lh_n s)"
  shows "runs (write_log s) (\<lambda>_ t. cio K {} P t \<and> (\<forall>j \<in> P. bkey t j = bkey s j) \<and>
      copied_to K (home_key s) (log_key s) n s t \<and> biost.more t = biost.more s \<and>
      runs (write_head t) (\<lambda>_ u. cio K {} P u \<and> (\<forall>j \<in> P. bkey u j = bkey s j) \<and> biost.more u = biost.more s \<and>
        disk u = (disk t)(sector (hdr_key s) := header_of (lh_n s) (lh_block s) (bview s (hdr_key s))) \<and>
        (\<forall>i<n. bview u (log_key s i) = bview s (home_key s i))))"
proof -
  have p: "keys_ok K" "cio K {} P s" "\<exists>j<NBUF. j \<notin> P" "0 \<le> lh_n s" "lh_n s \<le> int LOGSIZE" "n \<le> length (lh_block s)"
    "set (tx_keys n s) \<subseteq> K" "distinct (tx_keys n s)" "bkey s ` P = home_key s ` {..<n}"
    using tx unfolding tx_ok_def n_def by blast+
  note d = tx_keysD [OF p(8,7)]
  obtain t where t: "write_log s = Ok () t" "cio K {} P t" "\<forall>j \<in> P. bkey t j = bkey s j"
      "copied_to K (home_key s) (log_key s) n s t" "biost.more t = biost.more s"
    using write_log_steps [OF p(1-3) p(8,7,9) order.refl] unfolding runs_iff write_log_def n_def by auto
  note m = more_log [OF t(5)] and k = keys_more [OF t(5)]
  have "hdr_key s \<notin> log_key s ` {..<n}"
    using d(4) by (metis imageE lessThan_iff)
  then have hv: "bview t (hdr_key s) = bview s (hdr_key s)"
    using t(4) d(1) by (simp add: copied_to_def)
  have "bkey t j \<noteq> hdr_key s" if "j \<in> P" for j
  proof -
    have "bkey t j \<in> home_key s ` {..<n}"
      using t(3) p(9) that by auto
    then show ?thesis
      using d(5) by (metis imageE lessThan_iff)
  qed
  then obtain u where u: "write_head t = Ok () u" "cio K {} P u" "\<forall>j \<in> P. bkey u j = bkey t j"
      "disk u = (disk t)(sector (hdr_key s) := header_of (lh_n s) (lh_block s) (bview s (hdr_key s)))"
      "\<forall>q \<in> K. q \<noteq> hdr_key s \<longrightarrow> bview u q = bview t q" "biost.more u = biost.more t"
    using write_head_runs [OF t(2) p(1), unfolded k m hv, OF d(1) _ p(3-5)] p(6) unfolding runs_iff n_def by auto
  have "bview u (log_key s i) = bview s (home_key s i)" if "i < n" for i
    using u(5) d(2,4) [OF that] t(4) that by (simp add: copied_to_def)
  then show ?thesis
    using t u by simp
qed

lemma install_phase:
  assumes tx: "tx_ok K P s" and u: "cio K {} P u" "\<forall>j \<in> P. bkey u j = bkey s j" "biost.more u = biost.more s"
    and m: "m \<le> nat (lh_n s)"
  shows "runs (foreach [0..<m] (install_one False) u) (\<lambda>_ v. cio K {} {j \<in> P. bkey s j \<notin> home_key s ` {..<m}} v \<and>
    copied_to K (log_key s) (home_key s) m u v \<and> biost.more v = biost.more s)"
proof -
  have p: "keys_ok K" "\<exists>j<NBUF. j \<notin> P" "set (tx_keys (nat (lh_n s)) s) \<subseteq> K" "distinct (tx_keys (nat (lh_n s)) s)"
    "bkey s ` P = home_key s ` {..<nat (lh_n s)}"
    using tx unfolding tx_ok_def by blast+
  have "bkey u ` P = bkey s ` P"
    using u(2) by (auto simp: image_iff)
  moreover have "{j \<in> P. bkey u j \<notin> A} = {j \<in> P. bkey s j \<notin> A}" for A
    using u(2) by auto
  ultimately show ?thesis
    using install_steps [OF p(1) u(1) p(2), unfolded tx_keys_more [OF u(3)] keys_more [OF u(3)], OF p(4,3) _ _ m, of False] p(5) u(3)
    by (auto elim!: runs_mono)
qed

section \<open>Crashes\<close>

text \<open>
  The disk that a crash leaves behind while \<open>s\<close> commits.  Each of \<^verbatim>\<open>write_log\<close>'s, \<^verbatim>\<open>write_head\<close>'s and \<^verbatim>\<open>install_trans\<close>'s
  iterations writes one block, so these are the disks after every number of writes.
\<close>

inductive crash_disk :: "'a logst_scheme \<Rightarrow> (uint64 \<Rightarrow> byte list) \<Rightarrow> bool" for s where
  logging: "m \<le> nat (lh_n s) \<Longrightarrow> foreach [0..<m] write_log_one s = Ok () t \<Longrightarrow> crash_disk s (disk t)"
| installing: "write_log s = Ok () t \<Longrightarrow> write_head t = Ok () u \<Longrightarrow> m \<le> nat (lh_n s) \<Longrightarrow>
    foreach [0..<m] (install_one False) u = Ok () v \<Longrightarrow> crash_disk s (disk v)"
| committed: "commit s = Ok () t \<Longrightarrow> crash_disk s (disk t)"

lemma tx_sectors:
  assumes "keys_ok K" and "distinct (tx_keys n s)" and "set (tx_keys n s) \<subseteq> K"
  shows "sector (hdr_key s) \<notin> (\<lambda>i. sector (log_key s i)) ` {..<n}" "sector (hdr_key s) \<notin> (\<lambda>i. sector (home_key s i)) ` {..<n}"
    "i < n \<Longrightarrow> sector (home_key s i) \<notin> (\<lambda>i. sector (log_key s i)) ` {..<n}"
    "i < n \<Longrightarrow> sector (log_key s i) \<notin> (\<lambda>i. sector (home_key s i)) ` {..<n}"
proof -
  note d = tx_keysD [OF assms(2,3)] and e = keys_okD(2) [OF assms(1)]
  have 1: "sector (hdr_key s) \<noteq> sector (log_key s j)" "sector (hdr_key s) \<noteq> sector (home_key s j)" if "j < n" for j
    using e [OF d(1) d(2) [OF that]] e [OF d(1) d(3) [OF that]] d(4,5) [OF that] by auto
  have 2: "sector (home_key s i) \<noteq> sector (log_key s j)" if "i < n" "j < n" for i j
    using e [OF d(3) [OF that(1)] d(2) [OF that(2)]] d(6) [OF that(2,1)] by auto
  show "sector (hdr_key s) \<notin> (\<lambda>i. sector (log_key s i)) ` {..<n}" "sector (hdr_key s) \<notin> (\<lambda>i. sector (home_key s i)) ` {..<n}"
    unfolding image_iff using 1 by blast+
  show "i < n \<Longrightarrow> sector (home_key s i) \<notin> (\<lambda>i. sector (log_key s i)) ` {..<n}"
    "i < n \<Longrightarrow> sector (log_key s i) \<notin> (\<lambda>i. sector (home_key s i)) ` {..<n}"
    unfolding image_iff using 2 by fastforce+
qed

lemma runs_unit_iff: "runs m P \<longleftrightarrow> (\<exists>t. m = Ok () t \<and> P () t)"
  by (simp add: runs_iff)

lemma image_sub: "x \<notin> f ` {..<n} \<Longrightarrow> m \<le> n \<Longrightarrow> x \<notin> f ` {..<m}" for m n :: nat
  by auto

text \<open>The end of a commit: every block is in its place, and the header is empty.\<close>

lemma commit_runs:
  assumes tx: "tx_ok K P s" and pos: "0 < lh_n s"
  defines "n \<equiv> nat (lh_n s)"
  shows "runs (commit s) (\<lambda>_ t. cio K {} {} t \<and> header_n (disk t (sector (hdr_key s))) = 0 \<and> lh_n t = 0 \<and>
    (\<forall>i<n. disk t (sector (home_key s i)) = bview s (home_key s i)) \<and>
    (\<forall>x. x \<noteq> sector (hdr_key s) \<longrightarrow> x \<notin> (\<lambda>i. sector (log_key s i)) ` {..<n} \<longrightarrow>
       x \<notin> (\<lambda>i. sector (home_key s i)) ` {..<n} \<longrightarrow> disk t x = disk s x))"
proof -
  have p: "keys_ok K" "set (tx_keys n s) \<subseteq> K" "distinct (tx_keys n s)" "bkey s ` P = home_key s ` {..<n}"
    using tx unfolding tx_ok_def n_def by blast+
  note d = tx_keysD [OF p(3,2)] and sec = tx_sectors [OF p(1,3,2)]
  obtain t u where t: "write_log s = Ok () t" "copied_to K (home_key s) (log_key s) n s t" "write_head t = Ok () u" "cio K {} P u"
      "\<forall>j \<in> P. bkey u j = bkey s j" "biost.more u = biost.more s"
      "disk u = (disk t)(sector (hdr_key s) := header_of (lh_n s) (lh_block s) (bview s (hdr_key s)))"
      "\<forall>i<n. bview u (log_key s i) = bview s (home_key s i)"
    using commit_point [OF tx] unfolding runs_unit_iff n_def by blast
  obtain v where v: "foreach [0..<n] (install_one False) u = Ok () v" "cio K {} {j \<in> P. bkey s j \<notin> home_key s ` {..<n}} v"
      "copied_to K (log_key s) (home_key s) n u v" "biost.more v = biost.more s"
    using install_phase [OF tx t(4-6) order.refl] unfolding runs_unit_iff n_def by blast
  have "{j \<in> P. bkey s j \<notin> home_key s ` {..<n}} = {}"
    using p(4) by blast
  then have cv: "cio K {} {} v"
    using v(2) by (simp only:)
  have iv: "install_trans False u = Ok () v"
    using v(1) more_log(1) [OF t(6)] by (simp add: install_trans_def n_def)
  define w where "w = v\<lparr>lh_n := 0\<rparr>"
  have sb: "same_bio v w"
    by (simp add: same_bio_def w_def)
  have hw: "hdr_key w = hdr_key s" "lh_n w = 0" "disk w = disk v"
    using keys_more(1) [OF v(4)] by (simp_all add: w_def hdr_key_def)
  have cw: "cio K {} {} w"
    using cv cio_same [OF sb] by simp
  obtain x where x: "write_head w = Ok () x" "cio K {} {} x"
      "disk x = (disk v)(sector (hdr_key s) := header_of 0 (lh_block w) (bview w (hdr_key s)))" "biost.more x = biost.more w"
    using write_head_runs [OF cw p(1), unfolded hw, OF d(1)] free_nil unfolding runs_iff by auto
  have "commit s = Ok () x"
    using pos t(1,3) iv x(1) by (simp add: commit_def w_def)
  moreover have "header_n (disk x (sector (hdr_key s))) = 0"
    using header_roundtrip(2) [OF cio_length_view [OF cw], of 0] x(3) by simp
  moreover have "lh_n x = 0"
    using more_log(1) [OF x(4)] hw(2) by simp
  moreover have "disk x (sector (home_key s i)) = bview s (home_key s i)" if "i < n" for i
  proof -
    have "sector (home_key s i) \<noteq> sector (hdr_key s)"
      using sec(2) that by (metis imageI lessThan_iff)
    then show ?thesis
      using v(3) t(8) x(3) that unfolding copied_to_def by simp
  qed
  moreover have "disk x y = disk s y" if "y \<noteq> sector (hdr_key s)" "y \<notin> (\<lambda>i. sector (log_key s i)) ` {..<n}"
      "y \<notin> (\<lambda>i. sector (home_key s i)) ` {..<n}" for y
    using v(3) t(2,7) x(3) that unfolding copied_to_def by simp
  ultimately show ?thesis
    using x(2) by simp
qed

text \<open>What the disk shows, by the phase in which the crash came: no transaction, or all of it.\<close>

definition disk_old :: "'a logst_scheme \<Rightarrow> (uint64 \<Rightarrow> byte list) \<Rightarrow> bool" where
  "disk_old s d \<longleftrightarrow> header_n (d (sector (hdr_key s))) = 0 \<and>
     (\<forall>i<nat (lh_n s). d (sector (home_key s i)) = disk s (sector (home_key s i)))"

definition disk_new :: "'a logst_scheme \<Rightarrow> (uint64 \<Rightarrow> byte list) \<Rightarrow> bool" where
  "disk_new s d \<longleftrightarrow> header_n (d (sector (hdr_key s))) = 0 \<and>
     (\<forall>i<nat (lh_n s). d (sector (home_key s i)) = bview s (home_key s i))"

definition disk_logged :: "'a logst_scheme \<Rightarrow> (uint64 \<Rightarrow> byte list) \<Rightarrow> bool" where
  "disk_logged s d \<longleftrightarrow> header_n (d (sector (hdr_key s))) = lh_n s \<and>
     get_uints (d (sector (hdr_key s))) 4 (nat (lh_n s)) = take (nat (lh_n s)) (lh_block s) \<and>
     (\<forall>i<nat (lh_n s). d (sector (log_key s i)) = bview s (home_key s i))"

definition tx_sector :: "'a logst_scheme \<Rightarrow> uint64 \<Rightarrow> bool" where
  "tx_sector s x \<longleftrightarrow> x \<in> sector ` set (tx_keys (nat (lh_n s)) s)"

lemma tx_sector_iff:
  "tx_sector s x \<longleftrightarrow> x = sector (hdr_key s) \<or> x \<in> (\<lambda>i. sector (log_key s i)) ` {..<nat (lh_n s)} \<or>
     x \<in> (\<lambda>i. sector (home_key s i)) ` {..<nat (lh_n s)}"
  by (simp add: tx_sector_def tx_keys_def image_Un image_image atLeast0LessThan)

lemma crash_disk_cases:
  assumes tx: "tx_ok K P s" and h: "header_n (disk s (sector (hdr_key s))) = 0" and cr: "crash_disk s d"
  shows "(disk_old s d \<or> disk_logged s d \<or> disk_new s d) \<and> (\<forall>x. \<not> tx_sector s x \<longrightarrow> d x = disk s x)"
proof -
  define n where "n = nat (lh_n s)"
  have p: "keys_ok K" "cio K {} P s" "\<exists>j<NBUF. j \<notin> P" "0 \<le> lh_n s" "lh_n s \<le> int LOGSIZE" "n \<le> length (lh_block s)"
    "set (tx_keys n s) \<subseteq> K" "distinct (tx_keys n s)" "bkey s ` P = home_key s ` {..<n}"
    using tx unfolding tx_ok_def n_def by blast+
  note d = tx_keysD [OF p(8,7)] and sec = tx_sectors [OF p(1,8,7)]
  show ?thesis
    using cr
  proof cases
    case (logging m t)
    note mn = logging(2) [folded n_def]
    have ct: "copied_to K (home_key s) (log_key s) m s t"
      using write_log_steps [OF p(1-3) p(8,7,9) mn] logging(3) unfolding runs_unit_iff by auto
    then have u: "disk t x = disk s x" if "x \<notin> (\<lambda>i. sector (log_key s i)) ` {..<n}" for x
      using image_sub [OF that mn] unfolding copied_to_def by blast
    have "disk_old s d"
      unfolding disk_old_def logging(1) n_def [symmetric] using u sec(1,3) h by simp
    then show ?thesis
      using u logging(1) unfolding tx_sector_iff n_def [symmetric] by simp
  next
    case (installing t u m v)
    note mn = installing(4) [folded n_def]
    have t: "copied_to K (home_key s) (log_key s) n s t" "cio K {} P u" "\<forall>j \<in> P. bkey u j = bkey s j" "biost.more u = biost.more s"
        "disk u = (disk t)(sector (hdr_key s) := header_of (lh_n s) (lh_block s) (bview s (hdr_key s)))"
      using commit_point [OF tx] installing(2,3) unfolding runs_unit_iff n_def by auto
    have cv: "copied_to K (log_key s) (home_key s) m u v"
      using install_phase [OF tx t(2-4) installing(4)] installing(5) unfolding runs_unit_iff by auto
    then have uv: "disk v x = disk u x" if "x \<notin> (\<lambda>i. sector (home_key s i)) ` {..<n}" for x
      using image_sub [OF that mn] unfolding copied_to_def by blast
    note hr = header_roundtrip [OF cio_length_view [OF p(2), of "hdr_key s"] p(4,5) p(6) [unfolded n_def]]
    have hd: "d (sector (hdr_key s)) = header_of (lh_n s) (lh_block s) (bview s (hdr_key s))"
      using uv [OF sec(2)] t(5) installing(1) by simp
    have "d (sector (log_key s i)) = bview s (home_key s i)" if i: "i < n" for i
    proof -
      have "sector (log_key s i) \<noteq> sector (hdr_key s)"
        using sec(1) i by (metis imageI lessThan_iff)
      then show ?thesis
        using uv [OF sec(4) [OF i]] t(1,5) i installing(1) by (simp add: copied_to_def)
    qed
    then have "disk_logged s d"
      unfolding disk_logged_def hd hr(2,3) n_def by simp
    moreover have "d x = disk s x" if "\<not> tx_sector s x" for x
      using that uv [of x] t(1,5) installing(1) unfolding tx_sector_iff copied_to_def n_def [symmetric] by simp
    ultimately show ?thesis
      by blast
  next
    case (committed t)
    show ?thesis
    proof (cases "0 < lh_n s")
      case True
      then have "disk_new s d" "\<forall>x. \<not> tx_sector s x \<longrightarrow> d x = disk s x"
        using commit_runs [OF tx True] committed unfolding runs_unit_iff disk_new_def tx_sector_iff by auto
      then show ?thesis
        by blast
    next
      case False
      then have "d = disk s" "nat (lh_n s) = 0"
        using committed p(4) by (simp_all add: commit_def)
      then show ?thesis
        using h by (simp add: disk_old_def)
    qed
  qed
qed

lemma recover_done:
  assumes tx: "tx_ok K P s" and r: "cio K {} {} r" "log_start r = log_start s" "log_dev r = log_dev s"
    and h: "header_n (disk r (sector (hdr_key s))) = 0"
  shows "runs (recover_from_log r) (\<lambda>_ t. header_n (disk t (sector (hdr_key s))) = 0 \<and>
    (\<forall>i<nat (lh_n s). disk t (sector (home_key s i)) = disk r (sector (home_key s i))) \<and>
    (\<forall>x. \<not> tx_sector s x \<longrightarrow> disk t x = disk r x))"
proof -
  have p: "keys_ok K" "set (tx_keys (nat (lh_n s)) s) \<subseteq> K" "distinct (tx_keys (nat (lh_n s)) s)"
    using tx unfolding tx_ok_def by blast+
  have hk: "hdr_key r = hdr_key s"
    using r by (simp add: hdr_key_def)
  have ne: "sector (home_key s i) \<noteq> sector (hdr_key s)" if "i < nat (lh_n s)" for i
    using tx_sectors(2) [OF p(1,3,2)] that by (metis imageI lessThan_iff)
  show ?thesis
    using recover_nothing [OF r(1) p(1), unfolded hk, OF tx_keysD(1) [OF p(3,2)]] h cio_view_disk [OF r(1)] ne
    by (auto elim!: runs_mono simp: tx_sector_iff)
qed

lemma recover_logged:
  assumes tx: "tx_ok K P s" and r: "cio K {} {} r" "log_start r = log_start s" "log_dev r = log_dev s"
    and lg: "disk_logged s (disk r)"
  shows "runs (recover_from_log r) (\<lambda>_ t. disk_new s (disk t) \<and> (\<forall>x. \<not> tx_sector s x \<longrightarrow> disk t x = disk r x))"
proof -
  define n where "n = nat (lh_n s)"
  have p: "keys_ok K" "0 \<le> lh_n s" "lh_n s \<le> int LOGSIZE" "n \<le> length (lh_block s)"
    "set (tx_keys n s) \<subseteq> K" "distinct (tx_keys n s)"
    using tx unfolding tx_ok_def n_def by blast+
  have hk: "hdr_key r = hdr_key s" and lk: "log_key r = log_key s"
    using r by (simp_all add: hdr_key_def log_key_def log_block_def fun_eq_iff)
  have hv: "bview r (hdr_key s) = disk r (sector (hdr_key s))"
    by (rule cio_view_disk [OF r(1)])
  have n: "header_n (bview r (hdr_key r)) = int n" "n \<le> LOGSIZE"
    using lg p(2,3) by (simp_all add: hk hv disk_logged_def n_def)
  have home: "home_key (with_header n r) i = home_key s i" if "i < n" for i
    using with_header_keys(3) [OF that, of r] lg that p(4) r(3) by (simp add: hk hv disk_logged_def n_def [symmetric] home_key_def)
  have tk: "tx_keys n (with_header n r) = tx_keys n s"
    using home with_header_keys(1,2) [of n r] by (simp add: tx_keys_def hk lk)
  have im: "(\<lambda>i. sector (home_key (with_header n r) i)) ` {..<n} = (\<lambda>i. sector (home_key s i)) ` {..<n}"
    by (intro image_cong) (simp_all add: home)
  have lv: "bview r (log_key s i) = bview s (home_key s i)" if "i < n" for i
    using cio_view_disk [OF r(1)] lg that by (simp add: disk_logged_def n_def [symmetric])
  show ?thesis
    by (rule runs_mono [OF recover_runs [OF r(1) p(1) n, unfolded tk, OF p(6,5)]], unfold im hk lk)
      (use home lv in \<open>auto simp: disk_new_def tx_sector_iff n_def [symmetric]\<close>)
qed

text \<open>
  C3. A transaction is atomic across a crash. Whatever number of blocks \<^verbatim>\<open>commit()\<close> has written when the machine stops,
  \<^verbatim>\<open>recover_from_log()\<close> at the next boot returns with an empty log on the disk and either none of the transaction's blocks
  changed or all of them as the transaction left them; no sector outside the log and these blocks changes.
\<close>

theorem crash_atomic:
  assumes tx: "tx_ok K P s" and h: "header_n (disk s (sector (hdr_key s))) = 0" and cr: "crash_disk s d"
    and r: "cio K {} {} r" "disk r = d" "log_start r = log_start s" "log_dev r = log_dev s"
  shows "\<exists>t. recover_from_log r = Ok () t \<and> (disk_old s (disk t) \<or> disk_new s (disk t)) \<and>
    (\<forall>x. \<not> tx_sector s x \<longrightarrow> disk t x = disk s x)"
proof -
  have far: "d x = disk s x" if "\<not> tx_sector s x" for x
    using crash_disk_cases [OF tx h cr] that by blast
  consider "disk_old s d" | "disk_logged s d" | "disk_new s d"
    using crash_disk_cases [OF tx h cr] by blast
  then have "runs (recover_from_log r) (\<lambda>_ t. (disk_old s (disk t) \<or> disk_new s (disk t)) \<and>
    (\<forall>x. \<not> tx_sector s x \<longrightarrow> disk t x = d x))"
  proof cases
    case 1
    then show ?thesis
      using recover_done [OF tx r(1,3,4)] r(2) by (auto simp: disk_old_def elim!: runs_mono)
  next
    case 2
    then show ?thesis
      using recover_logged [OF tx r(1,3,4)] r(2) by (auto elim!: runs_mono)
  next
    case 3
    then show ?thesis
      using recover_done [OF tx r(1,3,4)] r(2) by (auto simp: disk_new_def elim!: runs_mono)
  qed
  then show ?thesis
    using far unfolding runs_unit_iff by auto
qed

section \<open>An example\<close>

text \<open>A cache in which nothing has been read yet.\<close>

lemma cio_fresh:
  assumes ok: "bcache_ok s xs" and sl: "sleepable s" and k: "\<And>i. i < NBUF \<Longrightarrow> bkey s i = (0, 0)" and d: "\<And>x. length (d x) = BSIZE"
  shows "cio K {} {} (s\<lparr>disk := d\<rparr>)"
proof -
  let ?t = "s\<lparr>disk := d\<rparr>"
  have b: "\<not> b_valid (bufs s ! i) \<and> b_refcnt (bufs s ! i) = 0 \<and> \<not> sl_locked (slocks s (SL_buf i))" if "i < NBUF" for i
    using bcache_okD(3) [OF ok that] k [OF that] by (auto simp: buf_ok_def)
  have kt: "bkey ?t i = bkey s i" for i
    by (simp add: bkey_def)
  have "mru ?t xs"
    by (rule mru_cong [OF bcache_okD(1) [OF ok]]) simp_all
  moreover have "no_dup ?t"
    using bcache_okD(2) [OF ok] unfolding no_dup_def kt .
  moreover have "buf_ok ?t i" if "i < NBUF" for i
    using bcache_okD(3) [OF ok that] b [OF that] unfolding buf_ok_def kt by simp
  ultimately have "bcache_ok ?t xs"
    using d by (simp add: bcache_ok_def)
  moreover have "sleepable ?t"
    using sl sleepable_cong [of ?t s] by simp
  ultimately show ?thesis
    using b by (intro cioI) (simp_all add: unshared_def)
qed

definition crash_blocks :: "(uint32 \<times> uint32) set" where
  "crash_blocks = {(1, 2), (1, 3), (1, 40)}"

lemma crash_blocks_ok: "keys_ok crash_blocks"
  by (simp add: keys_ok_def crash_blocks_def disk_sector_def)

definition crash_boot :: "(uint64 \<Rightarrow> byte list) \<Rightarrow> logst" where
  "crash_boot d = (log_boot 31 ())\<lparr>lh_n := 1, lh_block := 40 # replicate 29 0, disk := d\<rparr>"

lemma crash_boot_cio: "(\<And>x. length (d x) = BSIZE) \<Longrightarrow> cio K {} {} (crash_boot d)"
proof -
  assume d: "\<And>x. length (d x) = BSIZE"
  let ?l = "log_boot 31 () :: logst"
  have "cio K {} {} (?l\<lparr>disk := d\<rparr>)"
  proof (rule cio_fresh [OF log_boot_ok log_boot_sleepable _ d])
    show "bkey ?l i = (0, 0)" if "i < NBUF" for i
      using that by (simp add: log_boot_def mem_boot_def bio_boot_keys)
  qed
  moreover have "same_bio (?l\<lparr>disk := d\<rparr>) (crash_boot d)"
    by (simp add: same_bio_def crash_boot_def)
  ultimately show ?thesis
    using cio_same by blast
qed

lemma crash_example:
  "\<exists>(s :: logst) i. tx_ok crash_blocks {i} s \<and> disk s = (\<lambda>_. replicate BSIZE 0) \<and> lh_n s = 1 \<and> log_start s = 2 \<and> log_dev s = 1"
proof -
  define s0 where "s0 = crash_boot (\<lambda>_. replicate BSIZE 0)"
  have f: "lh_n s0 = 1" "lh_block s0 = 40 # replicate 29 0" "log_start s0 = 2" "log_dev s0 = 1" "disk s0 = (\<lambda>_. replicate BSIZE 0)"
    by (simp_all add: s0_def crash_boot_def)
  have c: "cio crash_blocks {} {} s0"
    unfolding s0_def by (rule crash_boot_cio) simp
  have q: "(1, 40) \<in> crash_blocks"
    by (simp add: crash_blocks_def)
  obtain i t1 where i: "cio crash_blocks {i} {} t1" "bkey t1 i = (1, 40)" "disk t1 = disk s0" "biost.more t1 = biost.more s0"
    using bread_cio [OF c crash_blocks_ok q] free_nil unfolding runs_iff by auto
  obtain t2 where t2: "cio crash_blocks {i} {i} t2" "\<forall>j. bkey t2 j = bkey t1 j" "disk t2 = disk t1" "biost.more t2 = biost.more t1"
    using bpin_cio [OF i(1), of i] unfolding runs_iff by auto
  obtain t3 where t3: "cio crash_blocks {} {i} t3" "\<forall>j. bkey t3 j = bkey t2 j" "disk t3 = disk t2" "biost.more t3 = biost.more t2"
    using brelse_cio [OF t2(1) crash_blocks_ok, of i] unfolding runs_iff by auto
  have m: "biost.more t3 = biost.more s0"
    using t3(4) t2(4) i(4) by simp
  note g = more_log [OF m]
  have "tx_keys 1 t3 = [(1, 2), (1, 3), (1, 40)]"
    using tx_keys_more [OF m, of 1] f by (simp add: tx_keys_def hdr_key_def log_key_def home_key_def log_block_def)
  moreover have "\<exists>j<NBUF. j \<notin> {i}"
    by (rule exI [of _ "if i = 0 then 1 else 0"]) auto
  moreover have "bkey t3 i = home_key t3 0"
    using t3(2) t2(2) i(2) g f by (simp add: home_key_def)
  ultimately have "tx_ok crash_blocks {i} t3"
    using t3(1) crash_blocks_ok f g by (simp add: tx_ok_def crash_blocks_def lessThan_Suc)
  then show ?thesis
    using t3(3) t2(3) i(3) f g by (intro exI [of _ t3] exI [of _ i]) simp
qed

theorem crash_atomic_witness:
  "\<exists>(s :: logst) i d t. tx_ok crash_blocks {i} s \<and> lh_n s = 1 \<and> crash_disk s d \<and> recover_from_log (crash_boot d) = Ok () t \<and>
     (disk_old s (disk t) \<or> disk_new s (disk t))"
proof -
  obtain s :: logst and i where s: "tx_ok crash_blocks {i} s" "disk s = (\<lambda>_. replicate BSIZE 0)" "lh_n s = 1" "log_start s = 2" "log_dev s = 1"
    using crash_example by blast
  obtain c where c: "commit s = Ok () c" "cio crash_blocks {} {} c"
    using commit_runs [OF s(1)] s(3) unfolding runs_unit_iff by auto
  have cr: "crash_disk s (disk c)"
    by (rule crash_disk.committed [OF c(1)])
  have h: "header_n (disk s (sector (hdr_key s))) = 0"
    by (simp add: s(2) header_n_def get32_def get16_def)
  obtain xs where "bcache_ok c xs"
    using cioD(1) [OF c(2)] by blast
  then have r: "cio crash_blocks {} {} (crash_boot (disk c))"
    by (intro crash_boot_cio) (rule bcache_okD(4))
  have f: "disk (crash_boot (disk c)) = disk c" "log_start (crash_boot (disk c)) = log_start s" "log_dev (crash_boot (disk c)) = log_dev s"
    using s(4,5) by (simp_all add: crash_boot_def)
  show ?thesis
    using crash_atomic [OF s(1) h cr r f] s(1,3) cr by blast
qed

end
