(* ===== verification/Spinlock.thy ===== *)
theory Spinlock
  imports Locks Riscv
begin

text \<open>
  Spin locks at the level of single memory accesses (\<^verbatim>\<open>kernel/spinlock.c\<close>), with any number of harts that
  interleave between accesses.  The lock word, the owner field, the interrupt-enable bit and the nesting counters are those of
  the code; \<open>holds\<close> records for the proof which locks a hart has acquired and not begun to release.  At the end the
  per-hart view of theory \<open>Locks\<close>, on which the rest of the development rests, is shown to be what these steps implement.
\<close>

section \<open>Model\<close>

record spinlock =
  sp_locked :: uint32
  sp_cpu :: "nat option"

definition initlock :: spinlock where
  "initlock = \<lparr>sp_locked = 0, sp_cpu = None\<rparr>"

datatype lockop = Acq | Rel

text \<open>
  Where a hart is inside \<^verbatim>\<open>acquire()\<close> or \<^verbatim>\<open>release()\<close>: before the two reads of \<^verbatim>\<open>holding()\<close>, before an atomic swap, before the
  write of \<^verbatim>\<open>lk->cpu\<close>, before \<^verbatim>\<open>pop_off()\<close>.
\<close>

datatype pc = Run | Check lockop lockid | Check2 lockop lockid | Spinning lockid | Got lockid | Clear lockid
  | Unlock lockid | Pop | Panicked

record hart =
  noff :: int
  intena :: bool
  sie :: bool
  pc :: pc
  holds :: "lockid list"

record machine =
  locks :: "lockid \<Rightarrow> spinlock"
  harts :: "nat \<Rightarrow> hart"

definition push_off :: "hart \<Rightarrow> hart" where
  "push_off c =
     (let old = sie c;
          c = c\<lparr>sie := False\<rparr>;
          c = (if noff c = 0 then c\<lparr>intena := old\<rparr> else c) in
      c\<lparr>noff := noff c + 1\<rparr>)"

text \<open>\<open>None\<close> is a panic.\<close>

definition pop_off :: "hart \<Rightarrow> hart option" where
  "pop_off c =
     (if sie c then None
      else if noff c < 1 then None
      else let c = c\<lparr>noff := noff c - 1\<rparr> in
           Some (if noff c = 0 \<and> intena c then c\<lparr>sie := True\<rparr> else c))"

definition upd_hart :: "nat \<Rightarrow> (hart \<Rightarrow> hart) \<Rightarrow> machine \<Rightarrow> machine" where
  "upd_hart h f m = m\<lparr>harts := (harts m)(h := f (harts m h))\<rparr>"

definition upd_lock :: "lockid \<Rightarrow> (spinlock \<Rightarrow> spinlock) \<Rightarrow> machine \<Rightarrow> machine" where
  "upd_lock lk f m = m\<lparr>locks := (locks m)(lk := f (locks m lk))\<rparr>"

text \<open>What follows the test \<^verbatim>\<open>holding(lk)\<close>.\<close>

fun after_holding :: "lockop \<Rightarrow> lockid \<Rightarrow> bool \<Rightarrow> pc" where
  "after_holding Acq lk r = (if r then Panicked else Spinning lk)"
| "after_holding Rel lk r = (if r then Clear lk else Panicked)"

text \<open>The next memory access of a hart.\<close>

definition hart_step :: "nat \<Rightarrow> machine \<Rightarrow> machine" where
  "hart_step h m =
     (case pc (harts m h) of
        Run \<Rightarrow> m
      | Check op lk \<Rightarrow>
          upd_hart h (\<lambda>c. c\<lparr>pc := if sp_locked (locks m lk) = 0 then after_holding op lk False else Check2 op lk\<rparr>) m
      | Check2 op lk \<Rightarrow> upd_hart h (\<lambda>c. c\<lparr>pc := after_holding op lk (sp_cpu (locks m lk) = Some h)\<rparr>) m
      | Spinning lk \<Rightarrow>
          let old = sp_locked (locks m lk); m = upd_lock lk (\<lambda>l. l\<lparr>sp_locked := 1\<rparr>) m in
          if old \<noteq> 0 then m else upd_hart h (\<lambda>c. c\<lparr>pc := Got lk\<rparr>) m
      | Got lk \<Rightarrow> upd_hart h (\<lambda>c. c\<lparr>pc := Run, holds := lk # holds c\<rparr>) (upd_lock lk (\<lambda>l. l\<lparr>sp_cpu := Some h\<rparr>) m)
      | Clear lk \<Rightarrow> upd_hart h (\<lambda>c. c\<lparr>pc := Unlock lk, holds := remove1 lk (holds c)\<rparr>) (upd_lock lk (\<lambda>l. l\<lparr>sp_cpu := None\<rparr>) m)
      | Unlock lk \<Rightarrow> upd_hart h (\<lambda>c. c\<lparr>pc := Pop\<rparr>) (upd_lock lk (\<lambda>l. l\<lparr>sp_locked := 0\<rparr>) m)
      | Pop \<Rightarrow> upd_hart h (\<lambda>c. case pop_off c of None \<Rightarrow> c\<lparr>pc := Panicked\<rparr> | Some c \<Rightarrow> c\<lparr>pc := Run\<rparr>) m
      | Panicked \<Rightarrow> m)"

definition call_acquire :: "nat \<Rightarrow> lockid \<Rightarrow> machine \<Rightarrow> machine" where
  "call_acquire h lk m = upd_hart h (\<lambda>c. (push_off c)\<lparr>pc := Check Acq lk\<rparr>) m"

definition call_release :: "nat \<Rightarrow> lockid \<Rightarrow> machine \<Rightarrow> machine" where
  "call_release h lk m = upd_hart h (\<lambda>c. c\<lparr>pc := Check Rel lk\<rparr>) m"

text \<open>
  The machine: a hart that runs other code may call either function on any lock, or switch interrupts while it is not
  inside a \<^verbatim>\<open>push_off()\<close>; a hart inside one of the functions makes its next access.
\<close>

inductive spin_step :: "machine \<Rightarrow> machine \<Rightarrow> bool" where
  acquires: "pc (harts m h) = Run \<Longrightarrow> spin_step m (call_acquire h lk m)"
| releases: "pc (harts m h) = Run \<Longrightarrow> spin_step m (call_release h lk m)"
| switches: "pc (harts m h) = Run \<Longrightarrow> noff (harts m h) = 0 \<Longrightarrow> spin_step m (upd_hart h (\<lambda>c. c\<lparr>sie := b\<rparr>) m)"
| accesses: "spin_step m (hart_step h m)"

definition spin_init :: "machine \<Rightarrow> bool" where
  "spin_init m \<longleftrightarrow> locks m = (\<lambda>_. initlock) \<and> (\<forall>h. noff (harts m h) = 0 \<and> pc (harts m h) = Run \<and> holds (harts m h) = [])"

section \<open>The invariant\<close>

text \<open>The lock word is set on behalf of the hart.\<close>

definition has :: "lockid \<Rightarrow> hart \<Rightarrow> bool" where
  "has lk c \<longleftrightarrow> lk \<in> set (holds c) \<or> pc c = Got lk \<or> pc c = Unlock lk"

fun pushed :: "pc \<Rightarrow> int" where
  "pushed (Check Acq lk) = 1"
| "pushed (Check2 Acq lk) = 1"
| "pushed (Spinning lk) = 1"
| "pushed (Got lk) = 1"
| "pushed (Unlock lk) = 1"
| "pushed Pop = 1"
| "pushed _ = 0"

definition hart_ok :: "hart \<Rightarrow> bool" where
  "hart_ok c \<longleftrightarrow> distinct (holds c) \<and>
     (\<forall>lk. pc c = Got lk \<or> pc c = Unlock lk \<or> pc c = Spinning lk \<longrightarrow> lk \<notin> set (holds c)) \<and>
     (\<forall>lk. pc c = Clear lk \<longrightarrow> lk \<in> set (holds c)) \<and>
     (pc c \<noteq> Panicked \<longrightarrow> noff c = int (length (holds c)) + pushed (pc c)) \<and>
     0 \<le> noff c \<and> int (length (holds c)) \<le> noff c \<and> (0 < noff c \<longrightarrow> \<not> sie c)"

definition spin_inv :: "machine \<Rightarrow> bool" where
  "spin_inv m \<longleftrightarrow> (\<forall>h. hart_ok (harts m h)) \<and>
     (\<forall>lk. sp_locked (locks m lk) \<noteq> 0 \<longleftrightarrow> (\<exists>h. has lk (harts m h))) \<and>
     (\<forall>lk h k. has lk (harts m h) \<longrightarrow> has lk (harts m k) \<longrightarrow> h = k) \<and>
     (\<forall>lk h. sp_cpu (locks m lk) = Some h \<longleftrightarrow> lk \<in> set (holds (harts m h)))"

text \<open>A step that leaves the locks alone and what the hart has of them.\<close>

lemma spin_inv_hart:
  assumes inv: "spin_inv m" and ok: "hart_ok (f (harts m h))" and hd: "holds (f (harts m h)) = holds (harts m h)"
    and hs: "\<And>lk. has lk (f (harts m h)) = has lk (harts m h)"
  shows "spin_inv (upd_hart h f m)"
proof -
  have "has lk (harts (upd_hart h f m) k) = has lk (harts m k)" "holds (harts (upd_hart h f m) k) = holds (harts m k)" for lk k
    using hd hs by (auto simp: upd_hart_def)
  moreover have "hart_ok (harts (upd_hart h f m) k)" for k
    using inv ok by (auto simp: spin_inv_def upd_hart_def)
  moreover have "locks (upd_hart h f m) = locks m"
    by (simp add: upd_hart_def)
  ultimately show ?thesis
    using inv unfolding spin_inv_def by simp
qed

lemma spin_invD:
  assumes "spin_inv m"
  shows "hart_ok (harts m h)" "sp_locked (locks m lk) \<noteq> 0 \<longleftrightarrow> (\<exists>h. has lk (harts m h))"
    "has lk (harts m h) \<Longrightarrow> has lk (harts m k) \<Longrightarrow> h = k" "sp_cpu (locks m lk) = Some h \<longleftrightarrow> lk \<in> set (holds (harts m h))"
  using assms unfolding spin_inv_def by blast+

lemma init_spin_inv: "spin_init m \<Longrightarrow> spin_inv m"
  by (simp add: spin_init_def spin_inv_def hart_ok_def has_def initlock_def)

lemma inv_call:
  assumes "spin_inv m" and "pc (harts m h) = Run"
  shows "spin_inv (call_acquire h lk m)" "spin_inv (call_release h lk m)"
    "noff (harts m h) = 0 \<Longrightarrow> spin_inv (upd_hart h (\<lambda>c. c\<lparr>sie := b\<rparr>) m)"
  unfolding call_acquire_def call_release_def using spin_invD(1) [OF assms(1), of h] assms
  by (intro spin_inv_hart; auto simp: hart_ok_def has_def push_off_def Let_def)+

lemma inv_check:
  assumes inv: "spin_inv m" and r: "r \<longleftrightarrow> lk \<in> set (holds (harts m h))"
    and p: "pc (harts m h) = Check op lk \<or> pc (harts m h) = Check2 op lk"
  shows "spin_inv (upd_hart h (\<lambda>c. c\<lparr>pc := after_holding op lk r\<rparr>) m)"
proof (rule spin_inv_hart [OF inv])
  show "hart_ok ((harts m h)\<lparr>pc := after_holding op lk r\<rparr>)"
    using spin_invD(1) [OF inv, of h] p r by (cases op) (auto simp: hart_ok_def)
  show "has k ((harts m h)\<lparr>pc := after_holding op lk r\<rparr>) = has k (harts m h)" for k
    using p by (cases op) (auto simp: has_def)
qed simp

text \<open>The four accesses that change a lock.\<close>

lemma harts_upd [simp]:
  "harts (upd_hart h f m) = (harts m)(h := f (harts m h))" "harts (upd_lock lk g m) = harts m"
  "locks (upd_hart h f m) = locks m" "locks (upd_lock lk g m) = (locks m)(lk := g (locks m lk))"
  by (simp_all add: upd_hart_def upd_lock_def)

lemma spin_inv_lock:
  assumes inv: "spin_inv m" and ok: "hart_ok (f (harts m h))"
    and other: "\<And>k. k \<noteq> lk \<Longrightarrow> has k (f (harts m h)) = has k (harts m h)"
      "\<And>k. k \<noteq> lk \<Longrightarrow> k \<in> set (holds (f (harts m h))) \<longleftrightarrow> k \<in> set (holds (harts m h))"
    and alone: "\<And>k. k \<noteq> h \<Longrightarrow> \<not> has lk (harts m k)"
    and word: "sp_locked (g (locks m lk)) \<noteq> 0 \<longleftrightarrow> has lk (f (harts m h))"
    and cpu: "sp_cpu (g (locks m lk)) = (if lk \<in> set (holds (f (harts m h))) then Some h else None)"
  shows "spin_inv (upd_hart h f (upd_lock lk g m))"
proof -
  let ?t = "upd_hart h f (upd_lock lk g m)"
  note d = spin_invD [OF inv]
  have no: "lk \<notin> set (holds (harts m k))" if "k \<noteq> h" for k
    using alone [OF that] by (simp add: has_def)
  have hs: "has k (harts ?t i) = (if k = lk then i = h \<and> has lk (f (harts m h)) else has k (harts m i))" for k i
    using other(1) alone by (cases "i = h") auto
  have hd: "k \<in> set (holds (harts ?t i)) \<longleftrightarrow> (if k = lk then i = h \<and> lk \<in> set (holds (f (harts m h))) else k \<in> set (holds (harts m i)))" for k i
    using other(2) no by (cases "i = h") auto
  have lw: "sp_locked (locks ?t k) = (if k = lk then sp_locked (g (locks m lk)) else sp_locked (locks m k))"
    "sp_cpu (locks ?t k) = (if k = lk then sp_cpu (g (locks m lk)) else sp_cpu (locks m k))" for k
    by simp_all
  show ?thesis
    unfolding spin_inv_def hs hd lw
  proof (intro conjI allI)
    fix i
    show "hart_ok (harts ?t i)"
      using ok d(1) by (cases "i = h") simp_all
  qed (use d word cpu in \<open>auto split: if_splits\<close>)
qed

lemma inv_access:
  assumes inv: "spin_inv m"
  shows "spin_inv (hart_step h m)"
proof -
  note d = spin_invD [OF inv]
  let ?c = "harts m h"
  have ok: "hart_ok ?c"
    by (rule d(1))
  show ?thesis
  proof (cases "pc ?c")
    case (Check op lk)
    show ?thesis
    proof (cases "sp_locked (locks m lk) = 0")
      case True
      then have "\<not> has lk ?c"
        using d(2) [of lk] by blast
      then have "spin_inv (upd_hart h (\<lambda>c. c\<lparr>pc := after_holding op lk False\<rparr>) m)"
        using Check by (intro inv_check [OF inv]) (auto simp: has_def)
      then show ?thesis
        using Check True by (simp add: hart_step_def)
    next
      case False
      have "spin_inv (upd_hart h (\<lambda>c. c\<lparr>pc := Check2 op lk\<rparr>) m)"
        using ok Check by (intro spin_inv_hart [OF inv]; cases op; auto simp: hart_ok_def has_def)
      then show ?thesis
        using Check False by (simp add: hart_step_def)
    qed
  next
    case (Check2 op lk)
    have "spin_inv (upd_hart h (\<lambda>c. c\<lparr>pc := after_holding op lk (sp_cpu (locks m lk) = Some h)\<rparr>) m)"
      using Check2 d(4) by (intro inv_check [OF inv]) auto
    then show ?thesis
      using Check2 by (simp add: hart_step_def)
  next
    case (Spinning lk)
    show ?thesis
    proof (cases "sp_locked (locks m lk) = 0")
      case True
      then have no: "\<not> has lk (harts m k)" for k
        using d(2) [of lk] by blast
      have "spin_inv (upd_hart h (\<lambda>c. c\<lparr>pc := Got lk\<rparr>) (upd_lock lk (\<lambda>l. l\<lparr>sp_locked := 1\<rparr>) m))"
      proof (rule spin_inv_lock [OF inv])
        have "sp_cpu (locks m lk) \<noteq> Some k" for k
          using d(4) [of lk k] no [of k] by (simp add: has_def)
        then have "sp_cpu (locks m lk) = None"
          by (cases "sp_cpu (locks m lk)") auto
        then show "sp_cpu ((locks m lk)\<lparr>sp_locked := 1\<rparr>) = (if lk \<in> set (holds (?c\<lparr>pc := Got lk\<rparr>)) then Some h else None)"
          using no [of h] by (simp add: has_def)
      qed (use ok Spinning no in \<open>auto simp: hart_ok_def has_def\<close>)
      then show ?thesis
        using Spinning True by (simp add: hart_step_def)
    next
      case False
      have "(locks m)(lk := (locks m lk)\<lparr>sp_locked := 1\<rparr>) = locks (upd_lock lk (\<lambda>l. l\<lparr>sp_locked := 1\<rparr>) m)"
        by simp
      have "spin_inv (upd_lock lk (\<lambda>l. l\<lparr>sp_locked := 1\<rparr>) m)"
        using inv False d(2) [of lk] unfolding spin_inv_def by auto
      then show ?thesis
        using Spinning False by (simp add: hart_step_def)
    qed
  next
    case (Got lk)
    have has: "has lk ?c"
      using Got by (simp add: has_def)
    then have "spin_inv (upd_hart h (\<lambda>c. c\<lparr>pc := Run, holds := lk # holds c\<rparr>) (upd_lock lk (\<lambda>l. l\<lparr>sp_cpu := Some h\<rparr>) m))"
      using ok Got d(2) [of lk] d(3) [OF has] by (intro spin_inv_lock [OF inv]) (auto simp: hart_ok_def has_def)
    then show ?thesis
      using Got by (simp add: hart_step_def)
  next
    case (Clear lk)
    then have has: "has lk ?c" and mem: "lk \<in> set (holds ?c)" and dist: "distinct (holds ?c)"
      using ok by (simp_all add: has_def hart_ok_def)
    have len: "length (holds ?c) = Suc (length (remove1 lk (holds ?c)))"
      using mem length_pos_if_in_set [OF mem] by (simp add: length_remove1)
    have "spin_inv (upd_hart h (\<lambda>c. c\<lparr>pc := Unlock lk, holds := remove1 lk (holds c)\<rparr>) (upd_lock lk (\<lambda>l. l\<lparr>sp_cpu := None\<rparr>) m))"
      using ok Clear d(2) [of lk] d(3) [OF has] has dist len
      by (intro spin_inv_lock [OF inv]) (auto simp: hart_ok_def has_def)
    then show ?thesis
      using Clear by (simp add: hart_step_def)
  next
    case (Unlock lk)
    then have has: "has lk ?c"
      by (simp add: has_def)
    have "sp_cpu (locks m lk) \<noteq> Some k" for k
    proof (cases "k = h")
      case True
      then show ?thesis
        using d(4) [of lk k] ok Unlock by (simp add: hart_ok_def)
    next
      case False
      then show ?thesis
        using d(4) [of lk k] d(3) [OF has, of k] by (auto simp: has_def)
    qed
    then have "sp_cpu (locks m lk) = None"
      by (cases "sp_cpu (locks m lk)") auto
    then have "spin_inv (upd_hart h (\<lambda>c. c\<lparr>pc := Pop\<rparr>) (upd_lock lk (\<lambda>l. l\<lparr>sp_locked := 0\<rparr>) m))"
      using ok Unlock d(3) [OF has] by (intro spin_inv_lock [OF inv]) (auto simp: hart_ok_def has_def)
    then show ?thesis
      using Unlock by (simp add: hart_step_def)
  next
    case Pop
    have "spin_inv (upd_hart h (\<lambda>c. case pop_off c of None \<Rightarrow> c\<lparr>pc := Panicked\<rparr> | Some c \<Rightarrow> c\<lparr>pc := Run\<rparr>) m)"
      using ok Pop by (intro spin_inv_hart [OF inv]) (auto simp: hart_ok_def has_def pop_off_def Let_def)
    then show ?thesis
      using Pop by (simp add: hart_step_def)
  qed (use inv in \<open>simp_all add: hart_step_def\<close>)
qed

interpretation spin: invariant_system spin_init spin_step spin_inv
proof unfold_locales
  show "spin_inv m" if "spin_init m" for m
    using that by (rule init_spin_inv)
  show "spin_inv t" if "spin_inv m" "spin_step m t" for m t
    using that(2,1) by cases (auto intro: inv_call inv_access)
qed

section \<open>Properties\<close>

text \<open>
  C6. However the memory accesses of any number of harts interleave, no lock is held by two harts at a time; a hart that
  holds a lock has interrupts off; outside the lock functions its \<^verbatim>\<open>noff\<close> is the number of locks it holds; and
  \<^verbatim>\<open>pop_off()\<close> at the end of a \<^verbatim>\<open>release()\<close> never panics.
\<close>

theorem spin_mutual_exclusion:
  assumes "reachable spin_init spin_step m"
  shows "(lk \<in> set (holds (harts m h)) \<longrightarrow> lk \<in> set (holds (harts m k)) \<longrightarrow> h = k) \<and>
    (holds (harts m h) \<noteq> [] \<longrightarrow> \<not> sie (harts m h)) \<and>
    (pc (harts m h) = Run \<longrightarrow> noff (harts m h) = int (length (holds (harts m h)))) \<and>
    (pc (harts m h) = Pop \<longrightarrow> pc (harts (hart_step h m) h) = Run)"
proof -
  note d = spin_invD [OF spin.reachable_inv [OF assms]]
  have "lk \<in> set (holds (harts m h)) \<Longrightarrow> lk \<in> set (holds (harts m k)) \<Longrightarrow> h = k"
    using d(3) [of lk h k] by (simp add: has_def)
  moreover have "holds (harts m h) \<noteq> [] \<Longrightarrow> \<not> sie (harts m h)"
    using d(1) [of h] by (cases "holds (harts m h)") (auto simp: hart_ok_def)
  moreover have "pc (harts m h) = Run \<Longrightarrow> noff (harts m h) = int (length (holds (harts m h)))"
    using d(1) [of h] by (simp add: hart_ok_def)
  moreover have "pc (harts m h) = Pop \<Longrightarrow> pc (harts (hart_step h m) h) = Run"
    using d(1) [of h] by (auto simp: hart_ok_def hart_step_def pop_off_def Let_def)
  ultimately show ?thesis
    by blast
qed

text \<open>Hart 0 takes a lock and hart 1 waits for it.\<close>

definition two_harts :: machine where
  "two_harts = \<lparr>locks = (\<lambda>_. initlock), harts = (\<lambda>_. \<lparr>noff = 0, intena = False, sie = True, pc = Run, holds = []\<rparr>)\<rparr>"

definition contended :: machine where
  "contended = hart_step 1 (hart_step 1 (hart_step 1 (call_acquire 1 L_kmem (hart_step 0 (hart_step 0 (hart_step 0 (call_acquire 0 L_kmem two_harts)))))))"

lemma reach_access: "reachable spin_init spin_step m \<Longrightarrow> reachable spin_init spin_step (hart_step h m)"
  by (erule reachable.reach_step) (rule accesses)

lemma reach_acquire:
  "reachable spin_init spin_step m \<Longrightarrow> pc (harts m h) = Run \<Longrightarrow> reachable spin_init spin_step (call_acquire h lk m)"
  by (erule reachable.reach_step) (rule acquires)

lemma contended_state:
  "reachable spin_init spin_step contended" "holds (harts contended 0) = [L_kmem]" "pc (harts contended 1) = Spinning L_kmem"
  "pc (harts contended 0) = Run"
proof -
  have run: "pc (harts (hart_step 0 (hart_step 0 (hart_step 0 (call_acquire 0 L_kmem two_harts)))) 1) = Run"
    "pc (harts two_harts 0) = Run"
    by (simp_all add: two_harts_def call_acquire_def hart_step_def push_off_def initlock_def Let_def)
  have "reachable spin_init spin_step two_harts"
    by (rule reachable.reach_init) (simp add: spin_init_def two_harts_def)
  then show "reachable spin_init spin_step contended"
    unfolding contended_def
    by (intro reach_access reach_acquire run)
  show "holds (harts contended 0) = [L_kmem]" "pc (harts contended 1) = Spinning L_kmem" "pc (harts contended 0) = Run"
    by (simp_all add: contended_def two_harts_def call_acquire_def hart_step_def push_off_def initlock_def Let_def)
qed

theorem spin_mutual_exclusion_witness:
  "holds (harts contended 0) = [L_kmem] \<and> pc (harts contended 1) = Spinning L_kmem \<and> L_kmem \<notin> set (holds (harts contended 1)) \<and>
   \<not> sie (harts contended 0) \<and> noff (harts contended 0) = 1"
  using spin_mutual_exclusion [OF contended_state(1), of L_kmem 0 1] contended_state by auto

text \<open>The calls as theory \<open>Locks\<close> has them, on the locks that the hart holds.\<close>

definition hart_view :: "hart \<Rightarrow> kbase" where
  "hart_view c = \<lparr>held = holds c\<rparr>"

definition lock_call :: "lockop \<Rightarrow> lockid \<Rightarrow> kbase \<Rightarrow> (kbase, unit) outcome" where
  "lock_call op lk = (case op of Acq \<Rightarrow> acquire lk | Rel \<Rightarrow> release lk)"

lemma after_holding_panics:
  "after_holding op lk (lk \<in> set (holds c)) = Panicked \<longleftrightarrow> (\<exists>msg. lock_call op lk (hart_view c) = Panic msg)"
  by (cases op) (auto simp: lock_call_def hart_view_def acquire_def release_def holding_def)

text \<open>
  C16. The steps of a hart implement the view that the other components have of a lock: whatever the other harts do
  in between, the outcome of the test in \<^verbatim>\<open>acquire()\<close> and \<^verbatim>\<open>release()\<close> is a panic exactly when the operation on the
  list of held locks panics, the write of the owner field is that operation, and no other access changes the list.
\<close>

theorem spin_implements_view:
  assumes "reachable spin_init spin_step m"
  shows "case pc (harts m h) of
      Check op lk \<Rightarrow> pc (harts (hart_step h m) h) = Check2 op lk \<or>
        (pc (harts (hart_step h m) h) = Panicked \<longleftrightarrow> (\<exists>msg. lock_call op lk (hart_view (harts m h)) = Panic msg))
    | Check2 op lk \<Rightarrow> pc (harts (hart_step h m) h) = Panicked \<longleftrightarrow> (\<exists>msg. lock_call op lk (hart_view (harts m h)) = Panic msg)
    | Got lk \<Rightarrow> acquire lk (hart_view (harts m h)) = Ok () (hart_view (harts (hart_step h m) h))
    | Clear lk \<Rightarrow> release lk (hart_view (harts m h)) = Ok () (hart_view (harts (hart_step h m) h))
    | _ \<Rightarrow> hart_view (harts (hart_step h m) h) = hart_view (harts m h)"
proof -
  note d = spin_invD [OF spin.reachable_inv [OF assms]]
  let ?c = "harts m h"
  show ?thesis
  proof (cases "pc ?c")
    case (Check op lk)
    show ?thesis
    proof (cases "sp_locked (locks m lk) = 0")
      case True
      then have "lk \<notin> set (holds ?c)"
        using d(2) [of lk] by (auto simp: has_def)
      then show ?thesis
        using Check True after_holding_panics [of op lk ?c] by (simp add: hart_step_def)
    qed (use Check in \<open>simp add: hart_step_def\<close>)
  next
    case (Check2 op lk)
    then show ?thesis
      using d(4) [of lk h] after_holding_panics [of op lk ?c] by (simp add: hart_step_def)
  next
    case (Got lk)
    then show ?thesis
      using d(1) [of h] by (simp add: hart_step_def hart_view_def hart_ok_def)
  next
    case (Clear lk)
    then show ?thesis
      using d(1) [of h] by (simp add: hart_step_def hart_view_def hart_ok_def)
  qed (auto simp: hart_step_def hart_view_def pop_off_def Let_def)
qed

theorem spin_implements_view_witness:
  "case pc (harts contended 1) of
      Spinning lk \<Rightarrow> hart_view (harts (hart_step 1 contended) 1) = hart_view (harts contended 1)
    | _ \<Rightarrow> False"
  using spin_implements_view [OF contended_state(1), of 1] contended_state(3) by simp

end
