(* ===== verification/Virtio.thy ===== *)
theory Virtio
  imports Kalloc BlockIO
begin

text \<open>
  The driver of the virtio disk (\<^verbatim>\<open>kernel/virtio_disk.c\<close>): setting up the device, the descriptors of requests, a request
  from \<^verbatim>\<open>virtio_disk_rw()\<close> to its completion by \<^verbatim>\<open>virtio_disk_intr()\<close>.  The device is not part of the sources: its
  registers are read through the argument \<open>dev\<close>, a function of the writes the driver has made, and what it does to the used
  ring, the status bytes and the data happens between the driver's steps.  The components above see a request as one step,
  \<open>virtio_disk_rw\<close> of theory \<open>Bio\<close>.
\<close>

section \<open>Model\<close>

abbreviation (input) NUM :: nat where "NUM \<equiv> 8"

text \<open>The addresses that descriptors hold: of an entry of \<^verbatim>\<open>disk.ops\<close>, of the data of a buffer, of a status byte.\<close>

datatype daddr = A_null | A_op nat | A_data nat | A_status nat

record virtq_desc =
  d_addr :: daddr
  d_len :: uint32
  d_flags :: uint16
  d_next :: uint16

abbreviation (input) DESC_F_NEXT :: uint16 where "DESC_F_NEXT \<equiv> 1"
abbreviation (input) DESC_F_WRITE :: uint16 where "DESC_F_WRITE \<equiv> 2"

record virtio_blk_req =
  rq_type :: uint32
  rq_reserved :: uint32
  rq_sector :: uint64

abbreviation (input) BLK_T_IN :: uint32 where "BLK_T_IN \<equiv> 0"
abbreviation (input) BLK_T_OUT :: uint32 where "BLK_T_OUT \<equiv> 1"

definition null_desc :: virtq_desc where
  "null_desc = \<lparr>d_addr = A_null, d_len = 0, d_flags = 0, d_next = 0\<rparr>"

record vdst = memst +
  vd_desc :: "nat \<Rightarrow> virtq_desc"
  av_idx :: uint16
  av_ring :: "nat \<Rightarrow> uint16"
  us_idx :: uint16
  us_ring :: "nat \<Rightarrow> uint32"
  vd_free :: "nat \<Rightarrow> bool"
  vd_used_idx :: uint16
  vd_info_b :: "nat \<Rightarrow> nat option"
  vd_info_status :: "nat \<Rightarrow> byte"
  vd_ops :: "nat \<Rightarrow> virtio_blk_req"
  b_disk :: "nat \<Rightarrow> bool"
  vd_mmio :: "(uint64 \<times> uint32) list"

subsection \<open>Setting up\<close>

type_synonym device = "(uint64 \<times> uint32) list \<Rightarrow> uint64 \<Rightarrow> uint32"

definition mmio_read :: "device \<Rightarrow> uint64 \<Rightarrow> 'a vdst_scheme \<Rightarrow> uint32" where
  "mmio_read dev r s = dev (vd_mmio s) r"

definition mmio_write :: "uint64 \<Rightarrow> uint32 \<Rightarrow> 'a vdst_scheme \<Rightarrow> 'a vdst_scheme" where
  "mmio_write r v s = s\<lparr>vd_mmio := vd_mmio s @ [(r, v)]\<rparr>"

abbreviation (input) MMIO_STATUS :: uint64 where "MMIO_STATUS \<equiv> 0x70"

definition no_feature :: "nat \<Rightarrow> uint64 \<Rightarrow> uint64" where
  "no_feature k features = features AND NOT (push_bit k 1)"

text \<open>Up to the check that the device has accepted the features; the result is the status word.\<close>

definition virtio_negotiate :: "device \<Rightarrow> 'a vdst_scheme \<Rightarrow> ('a vdst_scheme, uint32) outcome" where
  "virtio_negotiate dev s =
     (if mmio_read dev 0 s \<noteq> 0x74726976 \<or> mmio_read dev 4 s \<noteq> 2 \<or> mmio_read dev 8 s \<noteq> 2 \<or> mmio_read dev 0xc s \<noteq> 0x554d4551
      then Panic ''could not find virtio disk''
      else
        let s = mmio_write MMIO_STATUS 0 s;
            s = mmio_write MMIO_STATUS 1 s;
            s = mmio_write MMIO_STATUS (1 OR 2) s;
            features = ucast (mmio_read dev 0x10 s);
            features = no_feature 5 features;
            features = no_feature 7 features;
            features = no_feature 11 features;
            features = no_feature 12 features;
            features = no_feature 27 features;
            features = no_feature 29 features;
            features = no_feature 28 features;
            s = mmio_write 0x20 (ucast features) s;
            s = mmio_write MMIO_STATUS (1 OR 2 OR 8) s;
            status = mmio_read dev MMIO_STATUS s in
        if status AND 8 = 0 then Panic ''virtio disk FEATURES_OK unset'' else Ok status s)"

definition virtio_set_address :: "uint64 \<Rightarrow> uint64 \<Rightarrow> 'a vdst_scheme \<Rightarrow> 'a vdst_scheme" where
  "virtio_set_address r a s = mmio_write (r + 4) (ucast (drop_bit 32 a)) (mmio_write r (ucast a) s)"

definition virtio_start_queue :: "uint32 \<Rightarrow> uint64 \<Rightarrow> uint64 \<Rightarrow> uint64 \<Rightarrow> 'a vdst_scheme \<Rightarrow> ('a vdst_scheme, unit) outcome" where
  "virtio_start_queue status desc avail used s =
     (if desc = 0 \<or> avail = 0 \<or> used = 0 then Panic ''virtio disk kalloc''
      else
        let s = s\<lparr>mem := memset (memset (memset (mem s) desc 0 4096) avail 0 4096) used 0 4096,
                  vd_desc := (\<lambda>_. null_desc), av_idx := 0, av_ring := (\<lambda>_. 0), us_idx := 0, us_ring := (\<lambda>_. 0)\<rparr>;
            s = mmio_write 0x38 (of_nat NUM) s;
            s = virtio_set_address 0x80 desc s;
            s = virtio_set_address 0x90 avail s;
            s = virtio_set_address 0xa0 used s;
            s = mmio_write 0x44 1 s;
            s = s\<lparr>vd_free := (\<lambda>i. i < NUM \<or> vd_free s i)\<rparr> in
        Ok () (mmio_write MMIO_STATUS (status OR 4) s))"

definition virtio_disk_init :: "device \<Rightarrow> 'a vdst_scheme \<Rightarrow> ('a vdst_scheme, unit) outcome" where
  "virtio_disk_init dev s =
     andThen (virtio_negotiate dev s) (\<lambda>status s.
     let s = mmio_write 0x30 0 s in
     if mmio_read dev 0x44 s \<noteq> 0 then Panic ''virtio disk should not be ready''
     else let max = mmio_read dev 0x34 s in
     if max = 0 then Panic ''virtio disk has no queue 0''
     else if max < of_nat NUM then Panic ''virtio disk max queue too short''
     else
       andThen (kalloc s) (\<lambda>desc s.
       andThen (kalloc s) (\<lambda>avail s.
       andThen (kalloc s) (\<lambda>used s.
       virtio_start_queue status desc avail used s))))"

subsection \<open>Descriptors\<close>

definition alloc_desc :: "'a vdst_scheme \<Rightarrow> nat option \<times> 'a vdst_scheme" where
  "alloc_desc s =
     (case find (vd_free s) [0..<NUM] of
        None \<Rightarrow> (None, s)
      | Some i \<Rightarrow> (Some i, s\<lparr>vd_free := (vd_free s)(i := False)\<rparr>))"

definition free_desc :: "nat \<Rightarrow> 'a vdst_scheme \<Rightarrow> ('a vdst_scheme, unit) outcome" where
  "free_desc i s =
     (if NUM \<le> i then Panic ''free_desc 1''
      else if vd_free s i then Panic ''free_desc 2''
      else wakeup (Some Ch_disk) (s\<lparr>vd_desc := (vd_desc s)(i := null_desc), vd_free := (vd_free s)(i := True)\<rparr>))"

lemma more_vd:
  fixes s t :: "'a vdst_scheme"
  assumes "biost.more t = biost.more s"
  shows "vd_desc t = vd_desc s" "av_idx t = av_idx s" "av_ring t = av_ring s" "us_idx t = us_idx s" "us_ring t = us_ring s"
    "vd_free t = vd_free s" "vd_used_idx t = vd_used_idx s" "vd_info_b t = vd_info_b s" "vd_info_status t = vd_info_status s"
    "vd_ops t = vd_ops s" "b_disk t = b_disk s" "vd_mmio t = vd_mmio s"
  using assms by (cases s, cases t, simp)+

lemma free_desc_Ok:
  assumes "free_desc i s = Ok x t"
  shows "i < NUM" "\<not> vd_free s i" "vd_free t = (vd_free s)(i := True)"
proof -
  show i: "i < NUM" "\<not> vd_free s i"
    using assms by (auto simp: free_desc_def split: if_splits)
  then have w: "wakeup (Some Ch_disk) (s\<lparr>vd_desc := (vd_desc s)(i := null_desc), vd_free := (vd_free s)(i := True)\<rparr>) = Ok x t"
    using assms by (simp add: free_desc_def)
  show "vd_free t = (vd_free s)(i := True)"
    using safe_wakeup_more [of "Some Ch_disk" "s\<lparr>vd_desc := (vd_desc s)(i := null_desc), vd_free := (vd_free s)(i := True)\<rparr>"] w
    unfolding safe_iff by (auto dest!: more_vd(6))
qed

text \<open>The loop ends because it frees a descriptor in every iteration; one that is free already makes \<^verbatim>\<open>free_desc()\<close> panic.\<close>

function free_chain :: "nat \<Rightarrow> 'a vdst_scheme \<Rightarrow> ('a vdst_scheme, unit) outcome" where
  "free_chain i s =
     (let flag = d_flags (vd_desc s i); nxt = unat (d_next (vd_desc s i)) in
      andThen (free_desc i s) (\<lambda>_ s.
      if flag AND DESC_F_NEXT \<noteq> 0 then free_chain nxt s else Ok () s))"
  by auto
termination
proof (relation "measure (\<lambda>(i, s). card {j. j < NUM \<and> \<not> vd_free s j})")
  fix i :: nat and s t :: "'a vdst_scheme" and x flag nxt
  assume "free_desc i s = Ok x t"
  note f = free_desc_Ok [OF this]
  have "{j. j < NUM \<and> \<not> vd_free t j} = {j. j < NUM \<and> \<not> vd_free s j} - {i}"
    using f(3) by auto
  moreover have "i \<in> {j. j < NUM \<and> \<not> vd_free s j}"
    using f by simp
  ultimately show "((nxt, t), i, s) \<in> measure (\<lambda>(i, s). card {j. j < NUM \<and> \<not> vd_free s j})"
    using card_Diff1_less [of "{j. j < NUM \<and> \<not> vd_free s j}" i] by (simp del: card_Diff_insert)
qed simp

declare free_chain.simps [simp del]

definition alloc3_desc :: "'a vdst_scheme \<Rightarrow> ('a vdst_scheme, (nat \<times> nat \<times> nat) option) outcome" where
  "alloc3_desc s =
     (case alloc_desc s of
        (None, s) \<Rightarrow> Ok None s
      | (Some a, s) \<Rightarrow>
          (case alloc_desc s of
             (None, s) \<Rightarrow> andThen (free_desc a s) (\<lambda>_ s. Ok None s)
           | (Some b, s) \<Rightarrow>
               (case alloc_desc s of
                  (None, s) \<Rightarrow> andThen (free_desc a s) (\<lambda>_ s. andThen (free_desc b s) (\<lambda>_ s. Ok None s))
                | (Some c, s) \<Rightarrow> Ok (Some (a, b, c)) s)))"

subsection \<open>Requests\<close>

text \<open>The three descriptors of a request for buffer \<open>i\<close>.\<close>

definition format_request :: "nat \<Rightarrow> bool \<Rightarrow> nat \<Rightarrow> nat \<Rightarrow> nat \<Rightarrow> 'a vdst_scheme \<Rightarrow> 'a vdst_scheme" where
  "format_request i write a b c s =
     (let sector = disk_sector (b_blockno (bufs s ! i));
          s = s\<lparr>vd_ops := (vd_ops s)(a := \<lparr>rq_type = if write then BLK_T_OUT else BLK_T_IN, rq_reserved = 0, rq_sector = sector\<rparr>)\<rparr>;
          s = s\<lparr>vd_desc := (vd_desc s)(a := \<lparr>d_addr = A_op a, d_len = 16, d_flags = DESC_F_NEXT, d_next = of_nat b\<rparr>)\<rparr>;
          s = s\<lparr>vd_desc := (vd_desc s)(b := \<lparr>d_addr = A_data i, d_len = of_nat BSIZE,
                 d_flags = (if write then 0 else DESC_F_WRITE) OR DESC_F_NEXT, d_next = of_nat c\<rparr>)\<rparr>;
          s = s\<lparr>vd_info_status := (vd_info_status s)(a := 0xff)\<rparr>;
          s = s\<lparr>vd_desc := (vd_desc s)(c := \<lparr>d_addr = A_status a, d_len = 1, d_flags = DESC_F_WRITE, d_next = 0\<rparr>)\<rparr> in
      s\<lparr>b_disk := (b_disk s)(i := True), vd_info_b := (vd_info_b s)(a := Some i)\<rparr>)"

text \<open>Telling the device: the ring entry first, then the index, then the notification.\<close>

definition notify_device :: "nat \<Rightarrow> 'a vdst_scheme \<Rightarrow> 'a vdst_scheme" where
  "notify_device a s =
     (let s = s\<lparr>av_ring := (av_ring s)(unat (av_idx s) mod NUM := of_nat a)\<rparr>;
          s = s\<lparr>av_idx := av_idx s + 1\<rparr> in
      mmio_write 0x50 0 s)"

text \<open>The loop that waits for \<^verbatim>\<open>virtio_disk_intr()\<close>, and the end of the call.\<close>

definition rw_wait :: "nat \<Rightarrow> nat \<Rightarrow> 'a vdst_scheme \<Rightarrow> ('a vdst_scheme, unit) outcome" where
  "rw_wait i a s =
     (if b_disk s i then sleeps (Ch_buf i) L_vdisk s
      else
        andThen (free_chain a (s\<lparr>vd_info_b := (vd_info_b s)(a := None)\<rparr>)) (\<lambda>_ s. release L_vdisk s))"

definition rw_wait_resume :: "nat \<Rightarrow> nat \<Rightarrow> 'a vdst_scheme \<Rightarrow> ('a vdst_scheme, unit) outcome" where
  "rw_wait_resume i a s = andThen (sleep_resume L_vdisk s) (\<lambda>_ s. rw_wait i a s)"

definition rw_alloc :: "nat \<Rightarrow> bool \<Rightarrow> 'a vdst_scheme \<Rightarrow> ('a vdst_scheme, unit) outcome" where
  "rw_alloc i write s =
     andThen (alloc3_desc s) (\<lambda>r s.
     case r of
       None \<Rightarrow> sleeps Ch_disk L_vdisk s
     | Some (a, b, c) \<Rightarrow> rw_wait i a (notify_device a (format_request i write a b c s)))"

definition rw_alloc_resume :: "nat \<Rightarrow> bool \<Rightarrow> 'a vdst_scheme \<Rightarrow> ('a vdst_scheme, unit) outcome" where
  "rw_alloc_resume i write s = andThen (sleep_resume L_vdisk s) (\<lambda>_ s. rw_alloc i write s)"

definition disk_rw :: "nat \<Rightarrow> bool \<Rightarrow> 'a vdst_scheme \<Rightarrow> ('a vdst_scheme, unit) outcome" where
  "disk_rw i write s = andThen (acquire L_vdisk s) (\<lambda>_ s. rw_alloc i write s)"

subsection \<open>Completions\<close>

function intr_loop :: "'a vdst_scheme \<Rightarrow> ('a vdst_scheme, unit) outcome" where
  "intr_loop s =
     (if vd_used_idx s \<noteq> us_idx s then
        let id = unat (us_ring s (unat (vd_used_idx s) mod NUM)) in
        if NUM \<le> id then Panic ''undefined''
        else if vd_info_status s id \<noteq> 0 then Panic ''virtio_disk_intr status''
        else
          (case vd_info_b s id of
             None \<Rightarrow> Panic ''kerneltrap''
           | Some b \<Rightarrow>
               andThen (wakeup (Some (Ch_buf b)) (s\<lparr>b_disk := (b_disk s)(b := False)\<rparr>)) (\<lambda>_ s.
               intr_loop (s\<lparr>vd_used_idx := vd_used_idx s + 1\<rparr>)))
      else Ok () s)"
  by auto
termination
proof (relation "measure (\<lambda>s. unat (us_idx s - vd_used_idx s))")
  fix s t :: "'a vdst_scheme" and x b id
  assume ne: "vd_used_idx s \<noteq> us_idx s" and w: "wakeup (Some (Ch_buf b)) (s\<lparr>b_disk := (b_disk s)(b := False)\<rparr>) = Ok x t"
  have "biost.more t = biost.more (s\<lparr>b_disk := (b_disk s)(b := False)\<rparr>)"
    using safe_wakeup_more [of "Some (Ch_buf b)" "s\<lparr>b_disk := (b_disk s)(b := False)\<rparr>"] w unfolding safe_iff by blast
  note m = more_vd(4,7) [OF this]
  have "us_idx s - vd_used_idx s \<noteq> 0"
    using ne by auto
  then have "unat (us_idx s - vd_used_idx s - 1) < unat (us_idx s - vd_used_idx s)"
    by (metis measure_unat)
  then show "(t\<lparr>vd_used_idx := vd_used_idx t + 1\<rparr>, s) \<in> measure (\<lambda>s. unat (us_idx s - vd_used_idx s))"
    using m by (simp add: algebra_simps)
qed simp

declare intr_loop.simps [simp del]

definition virtio_disk_intr :: "device \<Rightarrow> 'a vdst_scheme \<Rightarrow> ('a vdst_scheme, unit) outcome" where
  "virtio_disk_intr dev s =
     andThen (acquire L_vdisk s) (\<lambda>_ s.
     andThen (intr_loop (mmio_write 0x64 (mmio_read dev 0x60 s AND 3) s)) (\<lambda>_ s.
     release L_vdisk s))"


section \<open>Requests in flight\<close>

text \<open>
  What the device makes of the chain at descriptor \<open>a\<close>, by the format of the virtio specification: a header it reads, the data
  (which it reads for a write and writes for a read) and a status byte it writes.
\<close>

definition decode :: "'a vdst_scheme \<Rightarrow> nat \<Rightarrow> (bool \<times> uint64 \<times> nat) option" where
  "decode s a =
     (let d0 = vd_desc s a; d1 = vd_desc s (unat (d_next d0)); d2 = vd_desc s (unat (d_next d1)) in
      case (d_addr d0, d_addr d1, d_addr d2) of
        (A_op k, A_data i, A_status m) \<Rightarrow>
          let write = rq_type (vd_ops s k) = BLK_T_OUT in
          if d_len d0 = 16 \<and> d_flags d0 = DESC_F_NEXT \<and>
             d_len d1 = 1024 \<and> d_flags d1 = (if write then DESC_F_NEXT else DESC_F_WRITE OR DESC_F_NEXT) \<and>
             d_len d2 = 1 \<and> d_flags d2 = DESC_F_WRITE \<and> k = a \<and> m = a \<and> rq_type (vd_ops s k) \<in> {BLK_T_IN, BLK_T_OUT}
          then Some (write, rq_sector (vd_ops s k), i) else None
      | _ \<Rightarrow> None)"

text \<open>A request that a process waits for: its three descriptors, its buffer, its direction and its sector.\<close>

record vreq =
  q0 :: nat
  q1 :: nat
  q2 :: nat
  q_buf :: nat
  q_write :: bool
  q_sector :: uint64

definition q_ids :: "vreq \<Rightarrow> nat list" where
  "q_ids r = [q0 r, q1 r, q2 r]"

definition request_at :: "'a vdst_scheme \<Rightarrow> vreq \<Rightarrow> bool" where
  "request_at s r \<longleftrightarrow>
     decode s (q0 r) = Some (q_write r, q_sector r, q_buf r) \<and> vd_info_b s (q0 r) = Some (q_buf r) \<and>
     unat (d_next (vd_desc s (q0 r))) = q1 r \<and> unat (d_next (vd_desc s (q1 r))) = q2 r"

text \<open>The chains the device has returned and the driver has not looked at.\<close>

definition completed :: "'a vdst_scheme \<Rightarrow> nat list" where
  "completed s =
     map (\<lambda>k. unat (us_ring s ((unat (vd_used_idx s) + k) mod NUM))) [0..<unat (us_idx s - vd_used_idx s)]"

definition completed_ok :: "vreq list \<Rightarrow> 'a vdst_scheme \<Rightarrow> bool" where
  "completed_ok C s \<longleftrightarrow>
     distinct (completed s) \<and>
     (\<forall>a \<in> set (completed s). vd_info_status s a = 0 \<and> (\<exists>r \<in> set C. q0 r = a \<and> b_disk s (q_buf r)))"

text \<open>The invariant, for the list of the requests in flight.\<close>

definition vd_ok :: "vreq list \<Rightarrow> 'a vdst_scheme \<Rightarrow> bool" where
  "vd_ok C s \<longleftrightarrow>
     distinct (concat (map q_ids C)) \<and> set (concat (map q_ids C)) \<subseteq> {..<NUM} \<and>
     (\<forall>j<NUM. vd_free s j \<longleftrightarrow> j \<notin> set (concat (map q_ids C))) \<and> (\<forall>j<NUM. vd_free s j \<longrightarrow> vd_desc s j = null_desc) \<and>
     distinct (map q_buf C) \<and> (\<forall>r \<in> set C. request_at s r) \<and> completed_ok C s"

text \<open>The device returns a chain: the status byte, the entry of the used ring, then its index.\<close>

definition device_done :: "nat \<Rightarrow> 'a vdst_scheme \<Rightarrow> 'a vdst_scheme" where
  "device_done a s =
     s\<lparr>vd_info_status := (vd_info_status s)(a := 0), us_ring := (us_ring s)(unat (us_idx s) mod NUM := of_nat a),
       us_idx := us_idx s + 1\<rparr>"

subsection \<open>Descriptors\<close>

lemma alloc_desc_cases:
  obtains (full) "\<forall>j<NUM. \<not> vd_free s j" "alloc_desc s = (None, s)"
  | (one) i where "i < NUM" "vd_free s i" "alloc_desc s = (Some i, s\<lparr>vd_free := (vd_free s)(i := False)\<rparr>)"
proof (cases "find (vd_free s) [0..<NUM]")
  case None
  then have "\<forall>j<NUM. \<not> vd_free s j"
    unfolding find_None_iff set_upt by simp
  moreover have "alloc_desc s = (None, s)"
    unfolding alloc_desc_def None by simp
  ultimately show ?thesis
    using full by blast
next
  case (Some i)
  have "i < NUM \<and> vd_free s i"
    using find_SomeD [OF Some] by (simp only: set_upt atLeastLessThan_iff)
  moreover have "alloc_desc s = (Some i, s\<lparr>vd_free := (vd_free s)(i := False)\<rparr>)"
    unfolding alloc_desc_def Some by simp
  ultimately show ?thesis
    using one by blast
qed

lemma free_desc_eq:
  assumes "i < NUM" "\<not> vd_free s i" "proc_ok s" "no_proc_lock s"
  shows "free_desc i s = Ok () (s\<lparr>vd_desc := (vd_desc s)(i := null_desc), vd_free := (vd_free s)(i := True),
           proc := wake_all (Some Ch_disk) (cpu_proc s) (proc s)\<rparr>)"
proof -
  have "proc_ok (s\<lparr>vd_desc := (vd_desc s)(i := null_desc), vd_free := (vd_free s)(i := True)\<rparr>)"
    using assms(3) by (simp add: proc_ok_def)
  moreover have "\<And>j. L_proc j \<notin> set (held (s\<lparr>vd_desc := (vd_desc s)(i := null_desc), vd_free := (vd_free s)(i := True)\<rparr>))"
    using assms(4) by simp
  ultimately show ?thesis
    using assms(1,2) by (simp add: free_desc_def wakeup_eq)
qed

lemma wake_all_twice [simp]: "wake_all ch cur (wake_all ch cur ps) = wake_all ch cur ps"
  by (simp add: list_eq_iff_nth_eq wake_def)

text \<open>What a call that only wakes sleepers on \<^verbatim>\<open>disk.free\<close> may do.\<close>

definition wakes :: "chan \<Rightarrow> 'a vdst_scheme \<Rightarrow> 'a vdst_scheme" where
  "wakes ch s = s\<lparr>proc := wake_all (Some ch) (cpu_proc s) (proc s)\<rparr>"

lemma wakes_simps [simp]:
  "vd_desc (wakes ch s) = vd_desc s" "vd_free (wakes ch s) = vd_free s" "vd_used_idx (wakes ch s) = vd_used_idx s"
  "us_idx (wakes ch s) = us_idx s" "us_ring (wakes ch s) = us_ring s" "vd_info_b (wakes ch s) = vd_info_b s"
  "vd_info_status (wakes ch s) = vd_info_status s" "vd_ops (wakes ch s) = vd_ops s" "b_disk (wakes ch s) = b_disk s"
  "av_idx (wakes ch s) = av_idx s" "av_ring (wakes ch s) = av_ring s" "held (wakes ch s) = held s" "cpu_proc (wakes ch s) = cpu_proc s"
  "bufs (wakes ch s) = bufs s" "vd_mmio (wakes ch s) = vd_mmio s" "length (proc (wakes ch s)) = length (proc s)"
  "proc_ok (wakes ch s) = proc_ok s" "no_proc_lock (wakes ch s) = no_proc_lock s"
  by (simp_all add: wakes_def proc_ok_def no_proc_lock_def)

lemma wakes_twice [simp]: "wakes ch (wakes ch s) = wakes ch s"
  by (simp add: wakes_def)

lemma wakes_taken: "wakes ch (s\<lparr>vd_free := f\<rparr>) = (wakes ch s)\<lparr>vd_free := f\<rparr>"
  by (simp add: wakes_def)

lemma free_desc_undo:
  assumes "i < NUM" "vd_free s i" "vd_desc s i = null_desc" "proc_ok s" "no_proc_lock s"
  shows "free_desc i (s\<lparr>vd_free := (vd_free s)(i := False)\<rparr>) = Ok () (wakes Ch_disk s)"
proof -
  have d: "(vd_desc s)(i := null_desc) = vd_desc s" "(vd_free s)(i := True) = vd_free s"
    using assms(2,3) by (simp_all add: fun_upd_idem)
  have "free_desc i (s\<lparr>vd_free := (vd_free s)(i := False)\<rparr>) =
      Ok () (s\<lparr>vd_desc := (vd_desc s)(i := null_desc), vd_free := (vd_free s)(i := True),
           proc := wake_all (Some Ch_disk) (cpu_proc s) (proc s)\<rparr>)"
    using assms by (subst free_desc_eq) (simp_all add: proc_ok_def no_proc_lock_def)
  then show ?thesis
    unfolding d by (simp add: wakes_def)
qed

text \<open>A failed \<^verbatim>\<open>alloc3_desc()\<close> gives back what it took; the descriptors it had taken were free, hence zero, before.\<close>

lemma alloc3_desc_cases:
  assumes "proc_ok s" "no_proc_lock s" "\<forall>j<NUM. vd_free s j \<longrightarrow> vd_desc s j = null_desc"
  obtains (three) a b c where "{a, b, c} \<subseteq> {j. j < NUM \<and> vd_free s j}" "distinct [a, b, c]"
      "alloc3_desc s = Ok (Some (a, b, c)) (s\<lparr>vd_free := (vd_free s)(a := False, b := False, c := False)\<rparr>)"
  | (fewer) t where "card {j. j < NUM \<and> vd_free s j} < 3" "alloc3_desc s = Ok None t" "t = s \<or> t = wakes Ch_disk s"
proof (cases rule: alloc_desc_cases [of s])
  case full
  then have "{j. j < NUM \<and> vd_free s j} = {}"
    by auto
  then have "card {j. j < NUM \<and> vd_free s j} < 3"
    by (simp only: card.empty)
  then show ?thesis
    using full(2) by (intro fewer [of s]) (simp_all add: alloc3_desc_def)
next
  case (one a)
  note a = this
  let ?s = "s\<lparr>vd_free := (vd_free s)(a := False)\<rparr>"
  show ?thesis
  proof (cases rule: alloc_desc_cases [of ?s])
    case full
    then have "{j. j < NUM \<and> vd_free s j} \<subseteq> {a}"
      by (auto split: if_splits)
    then have "card {j. j < NUM \<and> vd_free s j} \<le> card {a}"
      by (intro card_mono) auto
    moreover have "free_desc a ?s = Ok () (wakes Ch_disk s)"
      using a assms by (intro free_desc_undo) auto
    ultimately show ?thesis
      using a full(2) by (intro fewer [of "wakes Ch_disk s"]) (simp_all add: alloc3_desc_def)
  next
    case (one b)
    note b = this
    let ?t = "?s\<lparr>vd_free := (vd_free ?s)(b := False)\<rparr>"
    have ab: "b \<noteq> a" "vd_free s b"
      using b(2) by (auto split: if_splits)
    show ?thesis
    proof (cases rule: alloc_desc_cases [of ?t])
      case full
      then have "{j. j < NUM \<and> vd_free s j} \<subseteq> {a, b}"
        by (auto split: if_splits)
      then have "card {j. j < NUM \<and> vd_free s j} \<le> card {a, b}"
        by (intro card_mono) auto
      then have "card {j. j < NUM \<and> vd_free s j} < 3"
        using ab by simp
      moreover have "free_desc a ?t = Ok () ((wakes Ch_disk s)\<lparr>vd_free := (vd_free s)(b := False)\<rparr>)"
        using free_desc_undo [of a "s\<lparr>vd_free := (vd_free s)(b := False)\<rparr>"] a ab assms
        by (simp add: fun_upd_twist wakes_taken proc_ok_def no_proc_lock_def)
      moreover have "free_desc b ((wakes Ch_disk s)\<lparr>vd_free := (vd_free s)(b := False)\<rparr>) = Ok () (wakes Ch_disk s)"
        using free_desc_undo [of b "wakes Ch_disk s"] b(1) ab assms by simp
      ultimately show ?thesis
        using a b full(2) by (intro fewer [of "wakes Ch_disk s"]) (simp_all add: alloc3_desc_def)
    next
      case (one c)
      then have "c \<noteq> a" "c \<noteq> b" "vd_free s c"
        by (auto split: if_splits)
      then show ?thesis
        using a b one ab by (intro three [of a b c]) (auto simp: alloc3_desc_def)
    qed
  qed
qed

subsection \<open>The chains of the requests in flight\<close>

lemma decode_eq_Some:
  "decode s a = Some (w, sec, i) \<longleftrightarrow>
     (let d0 = vd_desc s a; d1 = vd_desc s (unat (d_next d0)); d2 = vd_desc s (unat (d_next d1)) in
      d_addr d0 = A_op a \<and> d_len d0 = 16 \<and> d_flags d0 = DESC_F_NEXT \<and>
      d_addr d1 = A_data i \<and> d_len d1 = 1024 \<and> d_flags d1 = (if w then DESC_F_NEXT else DESC_F_WRITE OR DESC_F_NEXT) \<and>
      d_addr d2 = A_status a \<and> d_len d2 = 1 \<and> d_flags d2 = DESC_F_WRITE \<and>
      rq_type (vd_ops s a) = (if w then BLK_T_OUT else BLK_T_IN) \<and> rq_sector (vd_ops s a) = sec)"
  unfolding decode_def Let_def
  by (cases "d_addr (vd_desc s a)"; cases "d_addr (vd_desc s (unat (d_next (vd_desc s a))))";
      cases "d_addr (vd_desc s (unat (d_next (vd_desc s (unat (d_next (vd_desc s a)))))))"; simp; blast)

lemma request_at_iff:
  "request_at s r \<longleftrightarrow>
     unat (d_next (vd_desc s (q0 r))) = q1 r \<and> unat (d_next (vd_desc s (q1 r))) = q2 r \<and>
     d_addr (vd_desc s (q0 r)) = A_op (q0 r) \<and> d_len (vd_desc s (q0 r)) = 16 \<and> d_flags (vd_desc s (q0 r)) = DESC_F_NEXT \<and>
     d_addr (vd_desc s (q1 r)) = A_data (q_buf r) \<and> d_len (vd_desc s (q1 r)) = 1024 \<and>
     d_flags (vd_desc s (q1 r)) = (if q_write r then DESC_F_NEXT else DESC_F_WRITE OR DESC_F_NEXT) \<and>
     d_addr (vd_desc s (q2 r)) = A_status (q0 r) \<and> d_len (vd_desc s (q2 r)) = 1 \<and> d_flags (vd_desc s (q2 r)) = DESC_F_WRITE \<and>
     rq_type (vd_ops s (q0 r)) = (if q_write r then BLK_T_OUT else BLK_T_IN) \<and> rq_sector (vd_ops s (q0 r)) = q_sector r \<and>
     vd_info_b s (q0 r) = Some (q_buf r)"
  unfolding request_at_def decode_eq_Some Let_def by (rule iffI; elim conjE; simp)

lemma request_at_frame:
  assumes "request_at s r" "\<forall>j \<in> set (q_ids r). vd_desc t j = vd_desc s j \<and> vd_ops t j = vd_ops s j"
    "vd_info_b t (q0 r) = vd_info_b s (q0 r)"
  shows "request_at t r"
  using assms unfolding request_at_iff by (simp add: q_ids_def)

lemma request_at_format:
  fixes s :: "'a vdst_scheme"
  assumes "distinct [a, b, c]" "{a, b, c} \<subseteq> {..<NUM}"
  shows "request_at (format_request i w a b c s)
    \<lparr>q0 = a, q1 = b, q2 = c, q_buf = i, q_write = w, q_sector = disk_sector (b_blockno (bufs s ! i))\<rparr>"
proof -
  have "unat (of_nat b :: uint16) = b" "unat (of_nat c :: uint16) = c"
    using assms(2) by (simp_all add: unat_of_nat)
  then show ?thesis
    using assms(1) unfolding request_at_def decode_eq_Some Let_def format_request_def by simp
qed

lemma request_flags:
  assumes "request_at s r"
  shows "d_flags (vd_desc s (q0 r)) AND DESC_F_NEXT \<noteq> 0" "d_flags (vd_desc s (q1 r)) AND DESC_F_NEXT \<noteq> 0"
    "d_flags (vd_desc s (q2 r)) AND DESC_F_NEXT = 0"
  using assms unfolding request_at_iff by simp_all

text \<open>The parts of the invariant.\<close>

lemma vd_okD:
  assumes "vd_ok C s"
  shows "distinct (concat (map q_ids C))" "set (concat (map q_ids C)) \<subseteq> {..<NUM}"
    "\<forall>j<NUM. vd_free s j \<longleftrightarrow> j \<notin> set (concat (map q_ids C))" "\<forall>j<NUM. vd_free s j \<longrightarrow> vd_desc s j = null_desc"
    "distinct (map q_buf C)" "\<forall>r \<in> set C. request_at s r" "completed_ok C s"
  using assms unfolding vd_ok_def by blast+

lemma length_ids: "length (concat (map q_ids C)) = 3 * length C"
  by (induction C) (simp_all add: q_ids_def)

lemma vd_ok_length:
  assumes "vd_ok C s"
  shows "card {j. j < NUM \<and> vd_free s j} = 8 - 3 * length C" "length C \<le> 2"
proof -
  let ?X = "set (concat (map q_ids C))"
  have X: "?X \<subseteq> {..<NUM}" "card ?X = 3 * length C"
    using vd_okD(1,2) [OF assms] by (simp_all only: distinct_card length_ids)
  then have "card ?X \<le> card {..<NUM}"
    by (intro card_mono) auto
  then show "length C \<le> 2"
    using X(2) by simp
  have "{j. j < NUM \<and> vd_free s j} = {..<NUM} - ?X"
    using vd_okD(3) [OF assms] by blast
  then show "card {j. j < NUM \<and> vd_free s j} = 8 - 3 * length C"
    using X by (simp only: card_Diff_subset finite_set card_lessThan)
qed

lemma completed_heads:
  assumes "vd_ok C s"
  shows "set (completed s) \<subseteq> q0 ` set C" "length (completed s) \<le> 2"
proof -
  show sub: "set (completed s) \<subseteq> q0 ` set C"
    using vd_okD(7) [OF assms] unfolding completed_ok_def by force
  have "length (completed s) = card (set (completed s))"
    using vd_okD(7) [OF assms] unfolding completed_ok_def by (simp add: distinct_card)
  also have "\<dots> \<le> card (q0 ` set C)"
    using sub by (simp add: card_mono)
  also have "\<dots> \<le> length C"
    by (metis card_image_le card_length finite_set le_trans)
  finally show "length (completed s) \<le> 2"
    using vd_ok_length(2) [OF assms] by simp
qed

lemma completed_same:
  "us_ring t = us_ring s \<Longrightarrow> us_idx t = us_idx s \<Longrightarrow> vd_used_idx t = vd_used_idx s \<Longrightarrow> completed t = completed s"
  by (simp add: completed_def)

lemma distinct_ids_other:
  assumes "distinct (concat (map q_ids C))" "r \<in> set C" "r' \<in> set C" "r \<noteq> r'"
  shows "set (q_ids r) \<inter> set (q_ids r') = {}"
  using assms
proof (induction C)
  case (Cons x C)
  then show ?case
    by (cases "r = x"; cases "r' = x") auto
qed simp

text \<open>The process part of the state does not matter to the driver.\<close>

lemma vd_ok_more:
  assumes "biost.more t = biost.more s"
  shows "vd_ok C t = vd_ok C s"
proof -
  note m = more_vd [OF assms]
  have "completed t = completed s" "request_at t r = request_at s r" for r
    using m by (simp_all add: completed_def request_at_iff)
  then show ?thesis
    using m by (simp add: vd_ok_def completed_ok_def)
qed

lemma vd_ok_wakes [simp]: "vd_ok C (wakes ch s) = vd_ok C s"
  by (rule vd_ok_more) (simp add: wakes_def)

lemma vd_ok_procs [simp]: "vd_ok C (s\<lparr>proc := ps\<rparr>) = vd_ok C s" "vd_ok C (s\<lparr>held := h\<rparr>) = vd_ok C s"
  by (rule vd_ok_more, simp)+

lemma vd_ok_upd_proc [simp]: "vd_ok C (upd_proc p f s) = vd_ok C s"
  by (simp add: upd_proc_def)

section \<open>Submitting\<close>

definition submitted :: "nat \<Rightarrow> bool \<Rightarrow> nat \<Rightarrow> nat \<Rightarrow> nat \<Rightarrow> 'a vdst_scheme \<Rightarrow> 'a vdst_scheme" where
  "submitted i w a b c s =
     notify_device a (format_request i w a b c (s\<lparr>vd_free := (vd_free s)(a := False, b := False, c := False)\<rparr>))"

lemma submitted_simps [simp]:
  "vd_desc (submitted i w a b c s) = (vd_desc s)(a := \<lparr>d_addr = A_op a, d_len = 16, d_flags = DESC_F_NEXT, d_next = of_nat b\<rparr>,
     b := \<lparr>d_addr = A_data i, d_len = 1024, d_flags = (if w then 0 else DESC_F_WRITE) OR DESC_F_NEXT, d_next = of_nat c\<rparr>,
     c := \<lparr>d_addr = A_status a, d_len = 1, d_flags = DESC_F_WRITE, d_next = 0\<rparr>)"
  "vd_free (submitted i w a b c s) = (vd_free s)(a := False, b := False, c := False)"
  "vd_ops (submitted i w a b c s) = (vd_ops s)(a := \<lparr>rq_type = if w then BLK_T_OUT else BLK_T_IN, rq_reserved = 0,
     rq_sector = disk_sector (b_blockno (bufs s ! i))\<rparr>)"
  "vd_info_b (submitted i w a b c s) = (vd_info_b s)(a := Some i)"
  "vd_info_status (submitted i w a b c s) = (vd_info_status s)(a := 0xff)"
  "b_disk (submitted i w a b c s) = (b_disk s)(i := True)"
  "us_idx (submitted i w a b c s) = us_idx s" "us_ring (submitted i w a b c s) = us_ring s"
  "vd_used_idx (submitted i w a b c s) = vd_used_idx s"
  "av_idx (submitted i w a b c s) = av_idx s + 1"
  "av_ring (submitted i w a b c s) = (av_ring s)(unat (av_idx s) mod NUM := of_nat a)"
  "held (submitted i w a b c s) = held s" "cpu_proc (submitted i w a b c s) = cpu_proc s" "proc (submitted i w a b c s) = proc s"
  by (simp_all add: submitted_def notify_device_def format_request_def mmio_write_def)

lemma upd_proc_vd [simp]:
  "av_idx (upd_proc p f s) = av_idx s" "av_ring (upd_proc p f s) = av_ring s" "b_disk (upd_proc p f s) = b_disk s"
  by (simp_all add: upd_proc_def)

lemma submitted_ok:
  assumes ok: "vd_ok C s" and abc: "distinct [a, b, c]" "{a, b, c} \<subseteq> {j. j < NUM \<and> vd_free s j}" and i: "i \<notin> q_buf ` set C"
  shows "vd_ok (\<lparr>q0 = a, q1 = b, q2 = c, q_buf = i, q_write = w, q_sector = disk_sector (b_blockno (bufs s ! i))\<rparr> # C)
    (submitted i w a b c s)"
proof -
  let ?r = "\<lparr>q0 = a, q1 = b, q2 = c, q_buf = i, q_write = w, q_sector = disk_sector (b_blockno (bufs s ! i))\<rparr>"
  let ?t = "submitted i w a b c s"
  note ok = vd_okD [OF ok]
  have abc': "a < NUM" "b < NUM" "c < NUM" "vd_free s a" "vd_free s b" "vd_free s c"
    using abc(2) by auto
  then have new: "a \<notin> set (concat (map q_ids C))" "b \<notin> set (concat (map q_ids C))" "c \<notin> set (concat (map q_ids C))"
    using ok(3) by blast+
  have old: "j \<noteq> a" "j \<noteq> b" "j \<noteq> c" if "r \<in> set C" "j \<in> set (q_ids r)" for r j
    using new that by auto
  have here: "request_at ?t ?r"
    using abc abc' by (simp add: request_at_iff unat_of_nat)
  have there: "request_at ?t r" if "r \<in> set C" for r
  proof (rule request_at_frame [of s])
    show "request_at s r"
      using ok(6) that by blast
    show "\<forall>j \<in> set (q_ids r). vd_desc ?t j = vd_desc s j \<and> vd_ops ?t j = vd_ops s j"
      using old [OF that] by simp
    show "vd_info_b ?t (q0 r) = vd_info_b s (q0 r)"
      using old [OF that, of "q0 r"] by (simp add: q_ids_def)
  qed
  have "completed ?t = completed s"
    by (rule completed_same) simp_all
  moreover have "j \<noteq> a" if "j \<in> set (completed s)" for j
    using ok(7) that old(1) unfolding completed_ok_def q_ids_def by fastforce
  ultimately have comp: "completed_ok (?r # C) ?t"
    using ok(7) unfolding completed_ok_def by auto
  have "distinct (concat (map q_ids (?r # C)))" "set (concat (map q_ids (?r # C))) \<subseteq> {..<NUM}"
    using ok(1,2) new abc(1) abc' by (simp_all add: q_ids_def)
  moreover have "vd_free ?t j \<longleftrightarrow> j \<notin> set (concat (map q_ids (?r # C)))" if "j < NUM" for j
    using ok(3) that by (simp add: q_ids_def)
  moreover have "vd_desc ?t j = null_desc" if "j < NUM" "vd_free ?t j" for j
    using ok(4) that by (simp split: if_splits)
  moreover have "distinct (map q_buf (?r # C))"
    using ok(5) i by simp
  moreover have "\<forall>r \<in> set (?r # C). request_at ?t r"
    using here there by simp
  ultimately show ?thesis
    unfolding vd_ok_def using comp by blast
qed

lemma rw_alloc_submits:
  assumes ok: "vd_ok C s" "proc_ok s" "no_proc_lock s" and few: "length C \<le> 1"
  obtains a b c where "distinct [a, b, c]" "{a, b, c} \<subseteq> {j. j < NUM \<and> vd_free s j}"
    "rw_alloc i w s = sleeps (Ch_buf i) L_vdisk (submitted i w a b c s)"
  using ok(2,3) vd_okD(4) [OF ok(1)]
proof (cases rule: alloc3_desc_cases)
  case (three a b c)
  then show ?thesis
    by (intro that [of a b c]) (simp_all add: rw_alloc_def rw_wait_def submitted_def [symmetric])
next
  case (fewer t)
  then show ?thesis
    using few vd_ok_length(1) [OF ok(1)] by simp
qed

lemma rw_alloc_waits:
  assumes ok: "vd_ok C s" "proc_ok s" "no_proc_lock s" and few: "2 \<le> length C"
  shows "rw_alloc i w s = sleeps Ch_disk L_vdisk s \<or> rw_alloc i w s = sleeps Ch_disk L_vdisk (wakes Ch_disk s)"
  using ok(2,3) vd_okD(4) [OF ok(1)]
proof (cases rule: alloc3_desc_cases)
  case (three a b c)
  then have "card {a, b, c} \<le> card {j. j < NUM \<and> vd_free s j}"
    by (intro card_mono) auto
  then show ?thesis
    using three(2) few vd_ok_length(1) [OF ok(1)] by simp
next
  case (fewer t)
  then show ?thesis
    by (auto simp: rw_alloc_def)
qed

lemma sleeps_eq:
  assumes "cpu_proc s = Some p" "p < length (proc s)" "held s = [lk]" "lk \<noteq> L_proc p"
  shows "sleeps ch lk s = Switch (upd_proc p (\<lambda>q. q\<lparr>p_chan := Some ch, p_state := SLEEPING\<rparr>) (s\<lparr>held := [L_proc p]\<rparr>))"
  using assms by (simp add: sleeps_def sleep_eq)

section \<open>Completing\<close>

lemma slot_less: "unat (u + of_nat n :: uint16) mod NUM = (unat u + n) mod NUM"
proof -
  have "unat (u + of_nat n) = (unat u + n) mod 2 ^ 16"
    by (simp add: unat_word_ariths unat_of_nat mod_add_right_eq)
  then show ?thesis
    by (simp add: mod_mod_cancel)
qed

lemma slot_neq:
  assumes "k < n" "n < NUM"
  shows "(u + k) mod NUM \<noteq> (u + n :: nat) mod NUM"
proof
  assume "(u + k) mod NUM = (u + n) mod NUM"
  then have "NUM dvd (u + n) - (u + k)"
    using assms(1) mod_eq_dvd_iff_nat [of "u + k" "u + n" NUM] by simp
  then show False
    using assms by (auto dest: dvd_imp_le)
qed

lemma completed_device_done:
  assumes "length (completed s) < NUM" "a < NUM"
  shows "completed (device_done a s) = completed s @ [a]"
proof -
  let ?n = "unat (us_idx s - vd_used_idx s)"
  have n: "?n < 8"
    using assms(1) by (simp add: completed_def)
  have us: "us_idx s = vd_used_idx s + of_nat ?n"
    by simp
  have "unat (us_idx s + 1 - vd_used_idx s) = unat (of_nat (Suc ?n) :: uint16)"
    by (simp add: algebra_simps)
  then have len: "unat (us_idx s + 1 - vd_used_idx s) = Suc ?n"
    using n by (simp only: unat_of_nat) simp
  have slot: "unat (us_idx s) mod NUM = (unat (vd_used_idx s) + ?n) mod NUM"
    by (subst us) (rule slot_less)
  have "(unat (vd_used_idx s) + k) mod NUM \<noteq> unat (us_idx s) mod NUM" if "k < ?n" for k
    unfolding slot using that n by (rule slot_neq)
  moreover have "unat (of_nat a :: uint32) = a"
    using assms(2) by (simp add: unat_of_nat)
  ultimately show ?thesis
    unfolding completed_def device_done_def by (simp add: len slot)
qed

text \<open>The device may return any request in flight that it has not returned.\<close>

lemma device_done_ok:
  assumes ok: "vd_ok C s" and r: "r \<in> set C" "b_disk s (q_buf r)" "q0 r \<notin> set (completed s)"
  shows "vd_ok C (device_done (q0 r) s)" "completed (device_done (q0 r) s) = completed s @ [q0 r]"
proof -
  have "q0 r < NUM"
    using vd_okD(2) [OF ok] r(1) by (auto simp: q_ids_def)
  then show c: "completed (device_done (q0 r) s) = completed s @ [q0 r]"
    using completed_heads(2) [OF ok] by (intro completed_device_done) simp_all
  have "completed_ok C (device_done (q0 r) s)"
    using vd_okD(7) [OF ok] r unfolding completed_ok_def c by (auto simp: device_done_def)
  moreover have "request_at (device_done (q0 r) s) = request_at s"
    by (simp add: fun_eq_iff request_at_iff device_done_def)
  ultimately show "vd_ok C (device_done (q0 r) s)"
    using ok unfolding vd_ok_def by (simp add: device_done_def)
qed

text \<open>One iteration of the interrupt handler.\<close>

definition handled :: "nat \<Rightarrow> 'a vdst_scheme \<Rightarrow> 'a vdst_scheme" where
  "handled b s = (let s = wakes (Ch_buf b) (s\<lparr>b_disk := (b_disk s)(b := False)\<rparr>) in s\<lparr>vd_used_idx := vd_used_idx s + 1\<rparr>)"

lemma completed_Cons:
  assumes "completed s = a # as"
  shows "vd_used_idx s \<noteq> us_idx s" "unat (us_ring s (unat (vd_used_idx s) mod NUM)) = a"
    "completed (s\<lparr>vd_used_idx := vd_used_idx s + 1\<rparr>) = as"
proof -
  let ?u = "vd_used_idx s"
  let ?n = "unat (us_idx s - ?u)"
  have n: "?n = Suc (length as)"
    using arg_cong [OF assms, of length] by (simp add: completed_def)
  show "?u \<noteq> us_idx s"
    using n by auto
  have up: "[0..<?n] = 0 # map Suc [0..<length as]"
    unfolding n by (simp only: upt_conv_Cons map_Suc_upt zero_less_Suc)
  then have "a = unat (us_ring s (unat ?u mod NUM))" and
      as: "as = map (\<lambda>k. unat (us_ring s ((unat ?u + Suc k) mod NUM))) [0..<length as]"
    using assms unfolding completed_def up by (simp_all add: comp_def)
  then show "unat (us_ring s (unat ?u mod NUM)) = a"
    by simp
  have "us_idx s - ?u = of_nat (Suc (length as))"
    unfolding n [symmetric] by simp
  then have "us_idx s - (?u + 1) = of_nat (length as)"
    by (simp add: algebra_simps)
  moreover have "length as < 2 ^ 16"
  proof -
    have "?n < 2 ^ 16"
      by (rule order_less_le_trans [OF unsigned_less]) simp
    then show ?thesis
      using n by simp
  qed
  ultimately have len: "unat (us_idx s - (?u + 1)) = length as"
    by (simp add: unat_of_nat)
  have "(unat (?u + 1) + k) mod NUM = (unat ?u + Suc k) mod NUM" for k
  proof -
    have "(unat (?u + 1) mod NUM + k) mod NUM = ((unat ?u + 1) mod NUM + k) mod NUM"
      using slot_less [of ?u 1] by simp
    then show ?thesis
      by (simp only: mod_add_left_eq) simp
  qed
  then show "completed (s\<lparr>vd_used_idx := ?u + 1\<rparr>) = as"
    by (subst as) (simp add: completed_def len)
qed

lemma intr_loop_one:
  assumes c: "completed s = a # as" and ok: "vd_ok C s" "proc_ok s" "no_proc_lock s" and r: "r \<in> set C" "q0 r = a"
  shows "intr_loop s = intr_loop (handled (q_buf r) s)"
proof -
  have id: "unat (us_ring s (unat (vd_used_idx s) mod NUM)) = a"
    using completed_Cons(2) [OF c] .
  have a: "a < NUM"
    using vd_okD(2) [OF ok(1)] r by (auto simp: q_ids_def)
  have "vd_info_status s a = 0"
    using vd_okD(7) [OF ok(1)] c unfolding completed_ok_def by simp
  moreover have "vd_info_b s a = Some (q_buf r)"
    using vd_okD(6) [OF ok(1)] r unfolding request_at_def by blast
  moreover have "wakeup (Some (Ch_buf (q_buf r))) (s\<lparr>b_disk := (b_disk s)(q_buf r := False)\<rparr>) =
      Ok () (wakes (Ch_buf (q_buf r)) (s\<lparr>b_disk := (b_disk s)(q_buf r := False)\<rparr>))"
    using ok(2,3) by (subst wakeup_eq) (simp_all add: proc_ok_def no_proc_lock_def wakes_def)
  ultimately show ?thesis
    using completed_Cons(1) [OF c] a
    by (subst intr_loop.simps) (simp add: id Let_def handled_def)
qed

lemma handled_simps [simp]:
  "vd_desc (handled b s) = vd_desc s" "vd_free (handled b s) = vd_free s" "vd_used_idx (handled b s) = vd_used_idx s + 1"
  "us_idx (handled b s) = us_idx s" "us_ring (handled b s) = us_ring s" "vd_info_b (handled b s) = vd_info_b s"
  "vd_info_status (handled b s) = vd_info_status s" "vd_ops (handled b s) = vd_ops s"
  "b_disk (handled b s) = (b_disk s)(b := False)" "held (handled b s) = held s" "cpu_proc (handled b s) = cpu_proc s"
  "proc (handled b s) = wake_all (Some (Ch_buf b)) (cpu_proc s) (proc s)"
  "proc_ok (handled b s) = proc_ok s" "no_proc_lock (handled b s) = no_proc_lock s"
  by (simp_all add: handled_def Let_def wakes_def proc_ok_def no_proc_lock_def)

lemma handled_ok:
  assumes c: "completed s = a # as" and ok: "vd_ok C s" and r: "r \<in> set C" "q0 r = a"
  shows "vd_ok C (handled (q_buf r) s)" "completed (handled (q_buf r) s) = as"
proof -
  let ?t = "handled (q_buf r) s"
  have "completed ?t = completed (s\<lparr>vd_used_idx := vd_used_idx s + 1\<rparr>)"
    by (rule completed_same) simp_all
  then show as: "completed ?t = as"
    using completed_Cons(3) [OF c] by simp
  have "q_buf r' \<noteq> q_buf r" if "r' \<in> set C" "q0 r' \<in> set as" for r'
  proof
    assume "q_buf r' = q_buf r"
    then have "r' = r"
      using vd_okD(5) [OF ok] that(1) r(1) by (metis distinct_map inj_onD)
    then show False
      using vd_okD(7) [OF ok] c r(2) that(2) unfolding completed_ok_def by simp
  qed
  then have "completed_ok C ?t"
    using vd_okD(7) [OF ok] c unfolding completed_ok_def as by fastforce
  moreover have "request_at ?t = request_at s"
    by (simp add: fun_eq_iff request_at_iff)
  ultimately show "vd_ok C ?t"
    using ok unfolding vd_ok_def by simp
qed

text \<open>What the loop leaves: the requests it went through are done, and their processes can run.\<close>

definition all_done :: "vreq list \<Rightarrow> 'a vdst_scheme \<Rightarrow> 'a vdst_scheme \<Rightarrow> bool" where
  "all_done C s t \<longleftrightarrow>
     (\<forall>r \<in> set C. b_disk t (q_buf r) \<longleftrightarrow> b_disk s (q_buf r) \<and> q0 r \<notin> set (completed s)) \<and>
     (\<forall>r \<in> set C. \<forall>q<NPROC. q0 r \<in> set (completed s) \<and> Some q \<noteq> cpu_proc s \<and> p_state (proc s ! q) = SLEEPING \<and>
        p_chan (proc s ! q) = Some (Ch_buf (q_buf r)) \<longrightarrow> p_state (proc t ! q) = RUNNABLE)"

text \<open>A sleeper on another channel, and a process that can run, are left alone.\<close>

definition kept :: "'a vdst_scheme \<Rightarrow> 'a vdst_scheme \<Rightarrow> bool" where
  "kept s t \<longleftrightarrow> held t = held s \<and> cpu_proc t = cpu_proc s \<and> proc_ok t \<and> vd_free t = vd_free s \<and>
     (\<forall>q<NPROC. p_state (proc s ! q) = RUNNABLE \<longrightarrow> p_state (proc t ! q) = RUNNABLE)"

lemma all_done_Cons:
  assumes c: "completed s = a # as" and ok: "vd_ok C s" "proc_ok s" and r: "r \<in> set C" "q0 r = a"
    and rest: "all_done C (handled (q_buf r) s) t" "kept (handled (q_buf r) s) t"
  shows "all_done C s t"
proof -
  let ?s = "handled (q_buf r) s"
  note as = handled_ok(2) [OF c ok(1) r]
  have same: "r' = r" if "r' \<in> set C" "q0 r' = a \<or> q_buf r' = q_buf r" for r'
  proof (rule ccontr)
    assume "r' \<noteq> r"
    then have "q0 r' \<noteq> q0 r"
      using distinct_ids_other [OF vd_okD(1) [OF ok(1)] that(1) r(1)] by (auto simp: q_ids_def)
    then have "q_buf r' = q_buf r"
      using that(2) r(2) by simp
    then show False
      using \<open>r' \<noteq> r\<close> vd_okD(5) [OF ok(1)] that(1) r(1) by (metis distinct_map inj_onD)
  qed
  have disk: "b_disk t (q_buf r') \<longleftrightarrow> b_disk s (q_buf r') \<and> q0 r' \<notin> set (completed s)" if "r' \<in> set C" for r'
    using rest(1) that same [OF that] r(2) unfolding all_done_def as c by (cases "r' = r") auto
  have run: "p_state (proc t ! q) = RUNNABLE"
    if "r' \<in> set C" "q < NPROC" "q0 r' \<in> set (completed s)" "Some q \<noteq> cpu_proc s" "p_state (proc s ! q) = SLEEPING"
      "p_chan (proc s ! q) = Some (Ch_buf (q_buf r'))" for r' q
  proof (cases "r' = r")
    case True
    then have "p_state (proc ?s ! q) = RUNNABLE"
      using that ok(2) by (simp add: wake_def proc_ok_def)
    then show ?thesis
      using rest(2) that(2) unfolding kept_def by blast
  next
    case False
    then have "q0 r' \<in> set as" "q_buf r' \<noteq> q_buf r"
      using that(1,3) same c by auto
    moreover from this have "proc ?s ! q = proc s ! q"
      using that ok(2) by (simp add: wake_def proc_ok_def)
    ultimately show ?thesis
      using rest(1) that unfolding all_done_def as by simp
  qed
  show ?thesis
    unfolding all_done_def using disk run by blast
qed

lemma intr_loop_ok:
  assumes "vd_ok C s" "proc_ok s" "no_proc_lock s"
  shows "\<exists>t. intr_loop s = Ok () t \<and> vd_ok C t \<and> completed t = [] \<and> all_done C s t \<and> kept s t"
  using assms
proof (induction "completed s" arbitrary: s)
  case Nil
  then have "unat (us_idx s - vd_used_idx s) = 0"
    by (simp add: completed_def)
  then have "vd_used_idx s = us_idx s"
    by (simp add: unat_eq_0)
  then have "intr_loop s = Ok () s"
    by (simp add: intr_loop.simps)
  then show ?case
    using Nil by (auto simp: all_done_def kept_def)
next
  case (Cons a as)
  note c = Cons.hyps(2) [symmetric]
  obtain r where r: "r \<in> set C" "q0 r = a"
    using vd_okD(7) [OF Cons.prems(1)] c unfolding completed_ok_def by auto
  let ?s = "handled (q_buf r) s"
  note h = handled_ok [OF c Cons.prems(1) r]
  obtain t where t: "intr_loop ?s = Ok () t" "vd_ok C t" "completed t = []" "all_done C ?s t" "kept ?s t"
    using Cons.hyps(1) [of ?s] h Cons.prems(2,3) by auto
  have "kept s t"
    using t(5) Cons.prems(2) unfolding kept_def by (simp add: proc_ok_def wake_def)
  moreover have "all_done C s t"
    using all_done_Cons [OF c Cons.prems(1,2) r t(4,5)] .
  moreover have "intr_loop s = Ok () t"
    using intr_loop_one [OF c Cons.prems r] t(1) by simp
  ultimately show ?case
    using t(2,3) by blast
qed

lemma mmio_write_simps [simp]:
  "vd_ok C (mmio_write a v s) = vd_ok C s" "completed (mmio_write a v s) = completed s" "proc (mmio_write a v s) = proc s"
  "held (mmio_write a v s) = held s" "cpu_proc (mmio_write a v s) = cpu_proc s" "b_disk (mmio_write a v s) = b_disk s"
  "proc_ok (mmio_write a v s) = proc_ok s" "no_proc_lock (mmio_write a v s) = no_proc_lock s"
proof -
  have "request_at (mmio_write a v s) = request_at s" "completed (mmio_write a v s) = completed s"
    by (simp_all add: fun_eq_iff request_at_iff completed_def mmio_write_def)
  then show "vd_ok C (mmio_write a v s) = vd_ok C s"
    by (simp add: vd_ok_def completed_ok_def mmio_write_def)
qed (simp_all add: mmio_write_def completed_def proc_ok_def no_proc_lock_def)

subsection \<open>The end of a request\<close>

definition unchained :: "vreq \<Rightarrow> 'a vdst_scheme \<Rightarrow> 'a vdst_scheme" where
  "unchained r s =
     s\<lparr>vd_desc := (vd_desc s)(q0 r := null_desc, q1 r := null_desc, q2 r := null_desc),
       vd_free := (vd_free s)(q0 r := True, q1 r := True, q2 r := True)\<rparr>"

lemma free_desc_wakes:
  assumes "i < NUM" "\<not> vd_free s i" "proc_ok s" "no_proc_lock s"
  shows "free_desc i (wakes Ch_disk s) =
    Ok () (wakes Ch_disk (s\<lparr>vd_desc := (vd_desc s)(i := null_desc), vd_free := (vd_free s)(i := True)\<rparr>))"
  using assms by (subst free_desc_eq) (simp_all add: wakes_def proc_ok_def no_proc_lock_def)

lemma free_chain_request:
  fixes s s' :: "'a vdst_scheme"
  assumes at: "request_at s' r" "vd_desc s = vd_desc s'" and r: "distinct (q_ids r)" "set (q_ids r) \<subseteq> {..<NUM}" "\<forall>j \<in> set (q_ids r). \<not> vd_free s j"
    and ctx: "proc_ok s" "no_proc_lock s"
  shows "free_chain (q0 r) s = Ok () (wakes Ch_disk (unchained r s))"
proof -
  let ?f = "\<lambda>i (s :: 'a vdst_scheme). s\<lparr>vd_desc := (vd_desc s)(i := null_desc), vd_free := (vd_free s)(i := True)\<rparr>"
  note flags = request_flags [OF at(1), folded at(2)]
  have nxt: "unat (d_next (vd_desc s (q0 r))) = q1 r" "unat (d_next (vd_desc s (q1 r))) = q2 r"
    using at unfolding request_at_def by simp_all
  have ids: "q0 r \<noteq> q1 r" "q0 r \<noteq> q2 r" "q1 r \<noteq> q2 r" "q0 r < NUM" "q1 r < NUM" "q2 r < NUM"
    "\<not> vd_free s (q0 r)" "\<not> vd_free s (q1 r)" "\<not> vd_free s (q2 r)"
    using r by (auto simp: q_ids_def)
  have "free_desc (q0 r) s = Ok () (wakes Ch_disk (?f (q0 r) s))"
    using ids ctx by (subst free_desc_eq) (simp_all add: wakes_def)
  then have 1: "free_chain (q0 r) s = free_chain (q1 r) (wakes Ch_disk (?f (q0 r) s))"
    using flags(1) nxt(1) by (subst free_chain.simps) (simp add: Let_def)
  have "free_desc (q1 r) (wakes Ch_disk (?f (q0 r) s)) = Ok () (wakes Ch_disk (?f (q1 r) (?f (q0 r) s)))"
    using ids ctx by (subst free_desc_wakes) (simp_all add: proc_ok_def no_proc_lock_def)
  then have 2: "free_chain (q1 r) (wakes Ch_disk (?f (q0 r) s)) = free_chain (q2 r) (wakes Ch_disk (?f (q1 r) (?f (q0 r) s)))"
    using flags(2) nxt(2) ids by (subst free_chain.simps) (simp add: Let_def)
  have "free_desc (q2 r) (wakes Ch_disk (?f (q1 r) (?f (q0 r) s))) = Ok () (wakes Ch_disk (?f (q2 r) (?f (q1 r) (?f (q0 r) s))))"
    using ids ctx by (subst free_desc_wakes) (simp_all add: proc_ok_def no_proc_lock_def)
  then have "free_chain (q2 r) (wakes Ch_disk (?f (q1 r) (?f (q0 r) s))) = Ok () (wakes Ch_disk (unchained r s))"
    using flags(3) ids by (subst free_chain.simps) (simp add: Let_def unchained_def)
  then show ?thesis
    unfolding 1 2 .
qed

lemma vd_ok_remove:
  assumes ok: "vd_ok C s" and r: "r \<in> set C" "q0 r \<notin> set (completed s)"
  shows "vd_ok (remove1 r C) (unchained r (s\<lparr>vd_info_b := (vd_info_b s)(q0 r := None)\<rparr>))"
proof -
  note okD = vd_okD [OF ok]
  obtain xs ys where C: "C = xs @ r # ys" "r \<notin> set xs"
    using split_list_first [OF r(1)] by blast
  then have D: "remove1 r C = xs @ ys"
    by (simp add: remove1_append)
  let ?D = "xs @ ys"
  let ?t = "unchained r (s\<lparr>vd_info_b := (vd_info_b s)(q0 r := None)\<rparr>)"
  have sets: "set (concat (map q_ids C)) = set (q_ids r) \<union> set (concat (map q_ids ?D))"
      "set (q_ids r) \<inter> set (concat (map q_ids ?D)) = {}" "distinct (concat (map q_ids ?D))"
    using okD(1) unfolding C(1) by auto
  have sub: "set ?D \<subseteq> set C"
    unfolding C(1) by auto
  have 1: "set (concat (map q_ids ?D)) \<subseteq> {..<NUM}"
    using okD(2) sets(1) by blast
  have 2: "vd_free ?t j \<longleftrightarrow> j \<notin> set (concat (map q_ids ?D))" if "j < NUM" for j
  proof -
    have "vd_free ?t j \<longleftrightarrow> j \<in> set (q_ids r) \<or> vd_free s j"
      by (auto simp: unchained_def q_ids_def)
    then show ?thesis
      using okD(3) that sets(1,2) by blast
  qed
  have 3: "vd_desc ?t j = null_desc" if "j < NUM" "vd_free ?t j" for j
    using okD(4) that by (auto simp: unchained_def split: if_splits)
  have 4: "distinct (map q_buf ?D)"
    using okD(5) unfolding C(1) by auto
  have 5: "request_at ?t r'" if "r' \<in> set ?D" for r'
  proof (rule request_at_frame [of s])
    show "request_at s r'"
      using okD(6) that sub by blast
    have "j \<notin> set (q_ids r)" if "j \<in> set (q_ids r')" for j
      using sets(2) \<open>r' \<in> set ?D\<close> that by auto
    then show "\<forall>j \<in> set (q_ids r'). vd_desc ?t j = vd_desc s j \<and> vd_ops ?t j = vd_ops s j"
        "vd_info_b ?t (q0 r') = vd_info_b s (q0 r')"
      by (auto simp: unchained_def q_ids_def)
  qed
  have "completed ?t = completed s"
    by (rule completed_same) (simp_all add: unchained_def)
  moreover have "r' \<in> set ?D" if "r' \<in> set C" "q0 r' \<in> set (completed s)" for r'
    using that r(2) unfolding C(1) by auto
  ultimately have "completed_ok ?D ?t"
    using okD(7) unfolding completed_ok_def by (fastforce simp: unchained_def)
  then show ?thesis
    unfolding vd_ok_def D using sets(3) 1 2 3 4 5 by blast
qed

section \<open>Setting up\<close>

lemma kalloc_pop:
  assumes "kmem_ok s (pa # fs)" "L_kmem \<notin> set (held s)"
  shows "\<exists>m f. kalloc s = Ok pa (s\<lparr>mem := m, freelist := f\<rparr>) \<and> kmem_ok (s\<lparr>mem := m, freelist := f\<rparr>) fs \<and> pa \<noteq> 0"
  using kalloc_pop_eq [OF assms] kalloc_pop_runs [OF assms] assms(1)
  unfolding runs_iff by (auto simp: kmem_ok_def frame_ok_def)

lemma kalloc_pop3:
  assumes "kmem_ok s (d # a # u # fs)" "L_kmem \<notin> set (held s)"
  shows "\<exists>m f. andThen (kalloc s) (\<lambda>x s. andThen (kalloc s) (\<lambda>y s. andThen (kalloc s) (\<lambda>z s. g x y z s))) =
    g d a u (s\<lparr>mem := m, freelist := f\<rparr>) \<and> d \<noteq> 0 \<and> a \<noteq> 0 \<and> u \<noteq> 0"
proof -
  obtain m f where 1: "kalloc s = Ok d (s\<lparr>mem := m, freelist := f\<rparr>)" "kmem_ok (s\<lparr>mem := m, freelist := f\<rparr>) (a # u # fs)" "d \<noteq> 0"
    using kalloc_pop [OF assms] by blast
  obtain m' f' where 2: "kalloc (s\<lparr>mem := m, freelist := f\<rparr>) = Ok a (s\<lparr>mem := m', freelist := f'\<rparr>)"
      "kmem_ok (s\<lparr>mem := m', freelist := f'\<rparr>) (u # fs)" "a \<noteq> 0"
    using kalloc_pop [OF 1(2)] assms(2) by auto
  obtain m'' f'' where 3: "kalloc (s\<lparr>mem := m', freelist := f'\<rparr>) = Ok u (s\<lparr>mem := m'', freelist := f''\<rparr>)" "u \<noteq> 0"
    using kalloc_pop [OF 2(2)] assms(2) by auto
  show ?thesis
    using 1(1,3) 2(1,3) 3 by auto
qed

text \<open>A disk as the driver wants it: it identifies itself, keeps the status it is given, and has a queue that is long enough.\<close>

definition device_ok :: "device \<Rightarrow> bool" where
  "device_ok dev \<longleftrightarrow>
     (\<forall>h. dev h 0 = 0x74726976 \<and> dev h 4 = 2 \<and> dev h 8 = 2 \<and> dev h 0xc = 0x554d4551 \<and> dev h 0x44 = 0 \<and> 8 \<le> dev h 0x34 \<and>
        (\<forall>v. dev (h @ [(0x70, v)]) 0x70 = v))"

text \<open>After the initialisation no request is in flight.\<close>

lemma virtio_disk_init_ok:
  assumes dev: "device_ok dev" and mem: "kmem_ok s (d # a # u # fs)" "L_kmem \<notin> set (held s)" and new: "vd_used_idx s = 0"
  shows "\<exists>t. virtio_disk_init dev s = Ok () t \<and> vd_ok [] t \<and> held t = held s"
proof -
  have neg: "\<exists>h. virtio_negotiate dev s = Ok 11 (s\<lparr>vd_mmio := h\<rparr>)"
    using dev unfolding device_ok_def virtio_negotiate_def Let_def
    by (simp add: mmio_read_def mmio_write_def del: append_assoc) blast
  then obtain h where h: "virtio_negotiate dev s = Ok 11 (s\<lparr>vd_mmio := h\<rparr>)"
    by blast
  let ?s = "mmio_write 0x30 0 (s\<lparr>vd_mmio := h\<rparr>)"
  have q: "mmio_read dev 0x44 ?s = 0" "mmio_read dev 0x34 ?s \<noteq> 0" "\<not> mmio_read dev 0x34 ?s < 8"
  proof -
    have "dev (vd_mmio ?s) 0x44 = 0" and le: "8 \<le> dev (vd_mmio ?s) 0x34"
      using dev unfolding device_ok_def by blast+
    then show "mmio_read dev 0x44 ?s = 0" "\<not> mmio_read dev 0x34 ?s < 8"
      unfolding mmio_read_def by simp_all
    show "mmio_read dev 0x34 ?s \<noteq> 0"
      using le unfolding mmio_read_def by (auto simp: word_le_nat_alt)
  qed
  have "kmem_ok ?s (d # a # u # fs)" "L_kmem \<notin> set (held ?s)"
    using mem by (simp_all add: mmio_write_def kmem_ok_def frame_ok_def)
  from kalloc_pop3 [OF this, of "virtio_start_queue 11"] obtain m f where
    init: "virtio_disk_init dev s = virtio_start_queue 11 d a u (?s\<lparr>mem := m, freelist := f\<rparr>)" and nz: "d \<noteq> 0" "a \<noteq> 0" "u \<noteq> 0"
    using q unfolding virtio_disk_init_def h andThen.simps Let_def by auto
  show ?thesis
    unfolding init virtio_start_queue_def Let_def using nz new
    by (simp add: vd_ok_def completed_ok_def completed_def mmio_write_def virtio_set_address_def)
qed

section \<open>A machine with its disk set up\<close>

definition vd_boot :: vdst where
  "vd_boot = mem_boot (\<lambda>_. 0) 0 (\<lambda>_. no_page) None 0x80030000
     (vdst_ext (\<lambda>_. null_desc) 0 (\<lambda>_. 0) 0 (\<lambda>_. 0) (\<lambda>i. i < NUM) 0 (\<lambda>_. None) (\<lambda>_. 0)
        (\<lambda>_. \<lparr>rq_type = 0, rq_reserved = 0, rq_sector = 0\<rparr>) (\<lambda>_. False) [] ())"

lemma mem_boot_procs: "length (proc (mem_boot m f ps h e z)) = NPROC" "cpu_proc (mem_boot m f ps h e z) = Some 0"
proof -
  let ?z = "memst_ext m f ps h (replicate SWAPSLOTS False) e 0 0 z"
  note fr = bio_boot_frame [where z = ?z and x = "\<lambda>_. \<lparr>sl_locked = False, sl_pid = 0\<rparr>" and y = "[]",
      folded mem_boot_def]
  have "proc (mem_boot m f ps h e z) = proc (bio_blank ?z)" "cpu_proc (mem_boot m f ps h e z) = cpu_proc (bio_blank ?z)"
    using arg_cong [OF fr, of proc] arg_cong [OF fr, of cpu_proc] by simp_all
  then show "length (proc (mem_boot m f ps h e z)) = NPROC" "cpu_proc (mem_boot m f ps h e z) = Some 0"
    unfolding bio_blank_def by simp_all
qed

lemma memst_more_fields:
  fixes s :: "'a vdst_scheme"
  assumes "memst.more s = vdst_ext d ai ar ui ur f u ib st op bd mm z"
  shows "vd_desc s = d" "av_idx s = ai" "us_idx s = ui" "vd_free s = f" "vd_used_idx s = u" "b_disk s = bd"
  using assms by (cases s, simp)+

lemma vd_boot_fields [simp]:
  "vd_desc vd_boot = (\<lambda>_. null_desc)" "vd_free vd_boot = (\<lambda>i. i < NUM)" "vd_used_idx vd_boot = 0" "us_idx vd_boot = 0"
  "b_disk vd_boot = (\<lambda>_. False)" "av_idx vd_boot = 0" "held vd_boot = []" "cpu_proc vd_boot = Some 0" "proc_ok vd_boot"
proof -
  have m: "memst.more vd_boot = vdst_ext (\<lambda>_. null_desc) 0 (\<lambda>_. 0) 0 (\<lambda>_. 0) (\<lambda>i. i < NUM) 0 (\<lambda>_. None) (\<lambda>_. 0)
        (\<lambda>_. \<lparr>rq_type = 0, rq_reserved = 0, rq_sector = 0\<rparr>) (\<lambda>_. False) [] ()"
    by (simp add: vd_boot_def)
  show "vd_desc vd_boot = (\<lambda>_. null_desc)" "vd_free vd_boot = (\<lambda>i. i < NUM)" "vd_used_idx vd_boot = 0" "us_idx vd_boot = 0"
    "b_disk vd_boot = (\<lambda>_. False)" "av_idx vd_boot = 0"
    using memst_more_fields [OF m] by blast+
  show "held vd_boot = []" and cpu: "cpu_proc vd_boot = Some 0"
    by (simp_all add: vd_boot_def mem_boot_procs)
  have "length (proc vd_boot) = NPROC"
    by (simp add: vd_boot_def mem_boot_procs)
  then show "proc_ok vd_boot"
    using cpu unfolding proc_ok_def by simp
qed

lemma vd_boot_ok: "vd_ok [] vd_boot"
  by (simp add: vd_ok_def completed_ok_def completed_def)

text \<open>One request: a write of buffer 0, in descriptors 0, 1 and 2.\<close>

definition vd_example :: vreq where
  "vd_example = \<lparr>q0 = 0, q1 = 1, q2 = 2, q_buf = 0, q_write = True, q_sector = disk_sector (b_blockno (bufs vd_boot ! 0))\<rparr>"

lemma vd_submitted: "vd_ok [vd_example] (submitted 0 True 0 1 2 vd_boot)"
  using submitted_ok [OF vd_boot_ok, of 0 1 2 0 True] by (simp add: vd_example_def)

lemma vd_submitted_completed: "completed (submitted i w a b c vd_boot) = []"
  by (simp add: completed_def)

definition vd_returned :: vdst where
  "vd_returned = device_done 0 (submitted 0 True 0 1 2 vd_boot)"

lemma vd_returned_ok: "vd_ok [vd_example] vd_returned" "completed vd_returned = [0]"
  using device_done_ok [OF vd_submitted, of vd_example] by (simp_all add: vd_example_def vd_returned_def vd_submitted_completed)

lemma vd_returned_ctx: "proc_ok vd_returned" "held vd_returned = []"
  using vd_boot_fields(9) by (simp_all add: vd_returned_def device_done_def proc_ok_def)

text \<open>The same request done, and its process about to run again.\<close>

definition vd_finished :: vdst where
  "vd_finished = (submitted 0 True 0 1 2 vd_boot)\<lparr>b_disk := (\<lambda>_. False), held := [L_proc 0]\<rparr>"

lemma vd_finished_ok: "vd_ok [vd_example] vd_finished"
proof -
  have "request_at vd_finished = request_at (submitted 0 True 0 1 2 vd_boot)" "completed vd_finished = []"
    by (simp_all add: fun_eq_iff request_at_iff vd_finished_def completed_def)
  then show ?thesis
    using vd_submitted unfolding vd_ok_def completed_ok_def by (simp add: vd_finished_def)
qed

section \<open>Properties\<close>

text \<open>
  C7. A disk request. In a state where the requests in flight are \<open>C\<close> and their descriptors are as they should be
  (\<open>vd_ok\<close>: disjoint chains, the rest free and zero, completions of requests in flight only), \<^verbatim>\<open>virtio_disk_rw()\<close> on a buffer
  without a request puts, if at most one request is in flight, a chain on the available ring from which the device, by the
  format of the specification, reads exactly the direction, the sector of the block and the buffer asked for; the chains of
  the other requests stay as they are, and the process sleeps on the buffer.  With two requests in flight it sleeps until
  descriptors are freed, and tells the device nothing.
\<close>
theorem disk_rw_request:
  fixes s :: "'a vdst_scheme"
  assumes ok: "vd_ok C s" and ctx: "proc_ok s" "held s = []" "cpu_proc s = Some p" and i: "i \<notin> q_buf ` set C"
  shows "if length C \<le> 1
    then \<exists>r t. disk_rw i w s = Switch t \<and> vd_ok (r # C) t \<and> q_buf r = i \<and>
           av_idx t = av_idx s + 1 \<and> unat (av_ring t (unat (av_idx s) mod NUM)) = q0 r \<and>
           decode t (q0 r) = Some (w, disk_sector (b_blockno (bufs s ! i)), i) \<and> b_disk t i \<and>
           p_state (proc t ! p) = SLEEPING \<and> p_chan (proc t ! p) = Some (Ch_buf i) \<and> held t = [L_proc p]
    else \<exists>t. disk_rw i w s = Switch t \<and> vd_ok C t \<and> av_idx t = av_idx s \<and> av_ring t = av_ring s \<and>
           p_state (proc t ! p) = SLEEPING \<and> p_chan (proc t ! p) = Some Ch_disk \<and> held t = [L_proc p]"
proof -
  let ?s = "s\<lparr>held := [L_vdisk]\<rparr>"
  let ?sl = "\<lambda>ch (s :: 'a vdst_scheme). upd_proc p (\<lambda>q. q\<lparr>p_chan := Some ch, p_state := SLEEPING\<rparr>) (s\<lparr>held := [L_proc p]\<rparr>)"
  have rw: "disk_rw i w s = rw_alloc i w ?s"
    using ctx(2) by (simp add: disk_rw_def)
  have ok': "vd_ok C ?s" "proc_ok ?s" "no_proc_lock ?s"
    using ok ctx by (simp_all add: no_proc_lock_def)
  have p: "p < length (proc s)"
    using ctx by (simp add: proc_ok_def)
  show ?thesis
  proof (cases "length C \<le> 1")
    case True
    obtain a b c where abc: "distinct [a, b, c]" "{a, b, c} \<subseteq> {j. j < NUM \<and> vd_free ?s j}"
        "rw_alloc i w ?s = sleeps (Ch_buf i) L_vdisk (submitted i w a b c ?s)"
      by (rule rw_alloc_submits [OF ok' True, of i w])
    let ?r = "\<lparr>q0 = a, q1 = b, q2 = c, q_buf = i, q_write = w, q_sector = disk_sector (b_blockno (bufs ?s ! i))\<rparr>"
    let ?t = "?sl (Ch_buf i) (submitted i w a b c ?s)"
    have sub: "vd_ok (?r # C) ?t"
      using submitted_ok [OF ok'(1) abc(1,2) i, of w] by simp
    have "request_at ?t ?r"
      using vd_okD(6) [OF sub] by simp
    then have "decode ?t (q0 ?r) = Some (w, disk_sector (b_blockno (bufs s ! i)), i)"
      unfolding request_at_def by simp
    moreover have "disk_rw i w s = Switch ?t"
      unfolding rw abc(3) using p ctx by (intro sleeps_eq) simp_all
    moreover have "a < NUM"
      using abc(2) by simp
    ultimately show ?thesis
      unfolding if_P [OF True] using sub p by (intro exI [of _ ?r] exI [of _ ?t]) (simp add: unat_of_nat)
  next
    case False
    then obtain u where u: "u = ?s \<or> u = wakes Ch_disk ?s" "rw_alloc i w ?s = sleeps Ch_disk L_vdisk u"
      using rw_alloc_waits [OF ok', of i w] by auto
    have "disk_rw i w s = Switch (?sl Ch_disk u)"
      unfolding rw u(2) using u(1) p ctx by (intro sleeps_eq) auto
    moreover have "vd_ok C (?sl Ch_disk u)" "av_idx u = av_idx s" "av_ring u = av_ring s" "length (proc u) = length (proc s)"
      using u(1) ok'(1) by auto
    ultimately show ?thesis
      unfolding if_not_P [OF False] using p by (intro exI [of _ "?sl Ch_disk u"]) simp
  qed
qed

theorem disk_rw_request_witness:
  "\<exists>r t. disk_rw 3 False vd_boot = Switch t \<and> vd_ok [r] t \<and> q_buf r = 3 \<and> av_idx t = 1 \<and>
     decode t (q0 r) = Some (False, disk_sector (b_blockno (bufs vd_boot ! 3)), 3) \<and> b_disk t 3"
  using disk_rw_request [OF vd_boot_ok, of 0 3 False] by auto

text \<open>
  C14. The interrupt handler of the disk. While the device returns only requests that are in flight (which \<open>vd_ok\<close> says,
  and which \<open>device_done_ok\<close> shows a return to keep), \<^verbatim>\<open>virtio_disk_intr()\<close> never panics and its loop ends: it takes every entry
  the device has put on the used ring, across the wrap-around of the 16-bit indices, marks exactly those requests done and
  makes the processes asleep on their buffers runnable.
\<close>
theorem disk_interrupt:
  assumes ok: "vd_ok C s" and ctx: "proc_ok s" "held s = []"
  shows "\<exists>t. virtio_disk_intr dev s = Ok () t \<and> vd_ok C t \<and> completed t = [] \<and> held t = [] \<and>
    (\<forall>r \<in> set C. b_disk t (q_buf r) \<longleftrightarrow> b_disk s (q_buf r) \<and> q0 r \<notin> set (completed s)) \<and>
    (\<forall>r \<in> set C. \<forall>q<NPROC. q0 r \<in> set (completed s) \<and> Some q \<noteq> cpu_proc s \<and> p_state (proc s ! q) = SLEEPING \<and>
       p_chan (proc s ! q) = Some (Ch_buf (q_buf r)) \<longrightarrow> p_state (proc t ! q) = RUNNABLE)"
proof -
  let ?s = "s\<lparr>held := [L_vdisk]\<rparr>"
  let ?u = "mmio_write 0x64 (mmio_read dev 0x60 ?s AND 3) ?s"
  have "no_proc_lock ?s" "proc_ok ?s"
    using ctx by (simp_all add: no_proc_lock_def)
  then obtain t where t: "intr_loop ?u = Ok () t" "vd_ok C t" "completed t = []" "all_done C ?u t" "kept ?u t"
    using intr_loop_ok [of C ?u] ok by auto
  have held: "held t = [L_vdisk]"
    using t(5) unfolding kept_def by simp
  then have "virtio_disk_intr dev s = Ok () (t\<lparr>held := []\<rparr>)"
    using ctx(2) t(1) by (simp add: virtio_disk_intr_def)
  moreover have "completed (t\<lparr>held := []\<rparr>) = []" "completed ?s = completed s"
    using t(3) by (simp_all add: completed_def)
  ultimately show ?thesis
    using t(2,4) unfolding all_done_def by (intro exI [of _ "t\<lparr>held := []\<rparr>"]) simp
qed

theorem disk_interrupt_witness:
  "\<exists>t. virtio_disk_intr (\<lambda>_ _. 1) vd_returned = Ok () t \<and> vd_ok [vd_example] t \<and> completed t = [] \<and> \<not> b_disk t 0"
  using disk_interrupt [OF vd_returned_ok(1) vd_returned_ctx, of "\<lambda>_ _. 1"] vd_returned_ok(2) by (auto simp: vd_example_def)

text \<open>
  C15. The end of a disk request. A process that wakes in \<^verbatim>\<open>virtio_disk_rw()\<close> after its request was marked done returns:
  it zeroes and frees the three descriptors of its own chain, wakes those who wait for descriptors and releases the lock, and
  the invariant holds for the other requests.  If the request is not done it sleeps again.
\<close>
theorem disk_rw_returns:
  fixes s :: "'a vdst_scheme"
  assumes ok: "vd_ok C s" and r: "r \<in> set C" and ctx: "proc_ok s" "cpu_proc s = Some p" "held s = [L_proc p]"
  shows "if b_disk s (q_buf r)
    then \<exists>t. rw_wait_resume (q_buf r) (q0 r) s = Switch t \<and> vd_ok C t \<and> held t = [L_proc p] \<and>
           p_state (proc t ! p) = SLEEPING \<and> p_chan (proc t ! p) = Some (Ch_buf (q_buf r))
    else \<exists>t. rw_wait_resume (q_buf r) (q0 r) s = Ok () t \<and> vd_ok (remove1 r C) t \<and> held t = [] \<and>
           (\<forall>j \<in> set (q_ids r). vd_free t j \<and> vd_desc t j = null_desc) \<and>
           (\<forall>q<NPROC. q \<noteq> p \<and> p_state (proc s ! q) = SLEEPING \<and> p_chan (proc s ! q) = Some Ch_disk \<longrightarrow>
              p_state (proc t ! q) = RUNNABLE)"
proof -
  let ?s = "(upd_proc p (\<lambda>q. q\<lparr>p_chan := None\<rparr>) s)\<lparr>held := [L_vdisk]\<rparr>"
  have p: "p < length (proc s)" "length (proc s) = NPROC"
    using ctx by (simp_all add: proc_ok_def)
  have res: "rw_wait_resume (q_buf r) (q0 r) s = rw_wait (q_buf r) (q0 r) ?s"
    using ctx by (simp add: rw_wait_resume_def sleep_resume_def with_myproc_def myproc_def)
  have ok': "vd_ok C ?s" "proc_ok ?s"
    using ok ctx by simp_all
  show ?thesis
  proof (cases "b_disk s (q_buf r)")
    case True
    then have "rw_wait_resume (q_buf r) (q0 r) s =
        Switch (upd_proc p (\<lambda>q. q\<lparr>p_chan := Some (Ch_buf (q_buf r)), p_state := SLEEPING\<rparr>) (?s\<lparr>held := [L_proc p]\<rparr>))"
      unfolding res rw_wait_def using p ctx by (simp add: sleeps_eq)
    then show ?thesis
      unfolding if_P [OF True] using ok' p by simp
  next
    case False
    let ?u = "?s\<lparr>vd_info_b := (vd_info_b ?s)(q0 r := None)\<rparr>"
    note okD = vd_okD [OF ok'(1)]
    have ids: "distinct (q_ids r)" "set (q_ids r) \<subseteq> {..<NUM}" "\<forall>j \<in> set (q_ids r). \<not> vd_free ?s j"
      using okD(1-3) r distinct_concat_iff [of "map q_ids C"] by (auto simp: subset_iff)
    have "request_at ?s r"
      using okD(6) r by blast
    then have chain: "free_chain (q0 r) ?u = Ok () (wakes Ch_disk (unchained r ?u))"
      using ids ok'(2) by (intro free_chain_request [of ?s]) (simp_all add: proc_ok_def no_proc_lock_def)
    have "r' = r" if "r' \<in> set C" "q0 r' = q0 r" for r'
      using distinct_ids_other [OF okD(1) that(1) r] that(2) by (auto simp: q_ids_def)
    then have "q0 r \<notin> set (completed ?s)"
      using okD(7) False unfolding completed_ok_def by fastforce
    then have left: "vd_ok (remove1 r C) (unchained r ?u)"
      using vd_ok_remove [OF ok'(1) r] by simp
    let ?t = "(wakes Ch_disk (unchained r ?u))\<lparr>held := []\<rparr>"
    have "rw_wait_resume (q_buf r) (q0 r) s = Ok () ?t"
      unfolding res rw_wait_def using False chain by (simp add: unchained_def)
    moreover have "vd_free ?t j \<and> vd_desc ?t j = null_desc" if "j \<in> set (q_ids r)" for j
      using that by (auto simp: unchained_def q_ids_def)
    moreover have "p_state (proc ?t ! q) = RUNNABLE"
      if "q < NPROC" "q \<noteq> p" "p_state (proc s ! q) = SLEEPING" "p_chan (proc s ! q) = Some Ch_disk" for q
      using that p ctx by (simp add: unchained_def wakes_def wake_def upd_proc_def)
    ultimately show ?thesis
      unfolding if_not_P [OF False] using left by (intro exI [of _ ?t]) simp
  qed
qed

theorem disk_rw_returns_witness:
  "\<exists>t. rw_wait_resume 0 0 vd_finished = Ok () t \<and> vd_ok [] t \<and> held t = [] \<and> vd_free t 0 \<and> vd_free t 1 \<and> vd_free t 2"
  using disk_rw_returns [OF vd_finished_ok, of vd_example 0] vd_boot_fields(9)
  by (auto simp: vd_finished_def vd_example_def proc_ok_def q_ids_def)

end
