(* ===== verification/Spec2Isabelle.thy ===== *)
theory Spec2Isabelle
  imports Trap Recovery Spinlock Virtio
begin

text \<open>
  A verification library for the kernel of \<^verbatim>\<open>src/xv6-riscv\<close>: xv6 for RISC-V, extended by page replacement and swapping
  (marked \<^verbatim>\<open>pa4\<close> in the sources).

  \<^bold>\<open>The program.\<close>  User processes enter the kernel through traps (\<^verbatim>\<open>trap.c\<close>), as system calls (\<^verbatim>\<open>syscall.c\<close>, \<^verbatim>\<open>sysproc.c\<close>,
  \<^verbatim>\<open>sysfile.c\<close>), page faults or device interrupts.  System calls work on processes (\<^verbatim>\<open>proc.c\<close>, \<^verbatim>\<open>exec.c\<close>), on page tables
  (\<^verbatim>\<open>vm.c\<close>), and on open files and pipes (\<^verbatim>\<open>file.c\<close>, \<^verbatim>\<open>pipe.c\<close>) over the file system (\<^verbatim>\<open>fs.c\<close>).  The file system reads
  blocks through the buffer cache (\<^verbatim>\<open>bio.c\<close>) and writes them through the log (\<^verbatim>\<open>log.c\<close>); the cache reads and writes the
  disk through \<^verbatim>\<open>virtio_disk.c\<close>.  Page tables take frames from \<^verbatim>\<open>kalloc.c\<close>.  When no frame is free, \<^verbatim>\<open>kalloc()\<close> calls
  \<^verbatim>\<open>swap_out()\<close>, which selects a user page by the second-chance algorithm, writes it to a slot of the swap area through the
  buffer cache and marks the page-table entry; the page-fault handler brings the page back.

  \<^bold>\<open>How code is modelled.\<close>  Each C function is a function from a state to an \<open>outcome\<close> (theory \<open>Prelude\<close>): \<open>Ok x s\<close> for a
  return of \<open>x\<close>, \<open>Panic msg\<close> for \<^verbatim>\<open>panic()\<close>, \<open>Switch s\<close> for a call that has given the CPU to the scheduler, \<open>Spin\<close> for a
  loop that never ends.  A call that may sleep is followed by a \<open>_resume\<close> function, the code that runs when the process is
  scheduled again.  A dereference of a null pointer is \<open>Panic ''kerneltrap''\<close>, since it ends in that handler; behaviour
  that C leaves undefined is \<open>Panic ''undefined''\<close>.  C integers are words of their width where they can wrap around, and
  \<^verbatim>\<open>int\<close> where they cannot.  Physical memory is a map from addresses to bytes, and page tables, trap frames, free pages and
  kernel buffers live in it.  Pointers to entries of the kernel's tables are indices.  The state is a chain of records, each
  extended by the next component: \<open>kbase\<close> (held locks), \<open>procst\<close>, \<open>slst\<close>, \<open>biost\<close>, \<open>memst\<close>, \<open>logst\<close>, \<open>fsst\<close>, \<open>uartst\<close>,
  \<open>consst\<close>, \<open>filest\<close>, \<open>kst\<close>; \<open>vdst\<close> extends \<open>memst\<close> for the disk driver.

  \<^bold>\<open>The theories.\<close>

  \<^item> \<open>Prelude\<close>: outcomes, sequencing, loops, total and partial correctness (\<open>runs\<close>, \<open>safe\<close>), the interface
    \<open>invariant_system\<close> of transition systems with an invariant.
  \<^item> \<open>Riscv\<close> (\<^verbatim>\<open>riscv.h\<close>, \<^verbatim>\<open>memlayout.h\<close>): addresses, page-table entries, memory accesses.
  \<^item> \<open>CString\<close> (\<^verbatim>\<open>string.c\<close>): \<^verbatim>\<open>memmove()\<close> is right where the regions overlap; \<^verbatim>\<open>safestrcpy()\<close> stays in its buffer.
  \<^item> \<open>Locks\<close>, \<open>Spinlock\<close> (\<^verbatim>\<open>spinlock.c\<close>): the list of locks that a hart holds, which the other components use; and the code
    of the locks at the level of single memory accesses, with any number of harts, with mutual exclusion and the proof that
    it implements the first (an interpretation of \<open>invariant_system\<close>).
  \<^item> \<open>Dll\<close>, \<open>Ring\<close>, \<open>Bytes\<close>: linked rings, ring buffers with counters that wrap around (the interface \<open>bounded_fifo\<close>), fields of
    structures inside blocks; shared by the components that use them.
  \<^item> \<open>ProcTable\<close> (\<^verbatim>\<open>proc.c\<close>, first part), \<open>Sleeplock\<close> (\<^verbatim>\<open>sleeplock.c\<close>): \<^verbatim>\<open>wakeup()\<close>, \<^verbatim>\<open>kill()\<close> and \<^verbatim>\<open>sleep()\<close> do exactly what they should.
  \<^item> \<open>Bio\<close>, \<open>BlockIO\<close>, \<open>BufOps\<close> (\<^verbatim>\<open>bio.c\<close>): the cache refines a map from blocks to their contents; whole accesses; clients
    that hold and pin several buffers.
  \<^item> \<open>Virtio\<close> (\<^verbatim>\<open>virtio_disk.c\<close>): requests in flight have disjoint chains of descriptors that the device decodes to the
    request; completions are handled across the wrap-around of the ring indices; nothing panics, every done request returns.
  \<^item> \<open>Walk\<close>, \<open>Vm\<close> (\<^verbatim>\<open>vm.c\<close>): copies between kernel and user against a bytewise specification; every function of the file.
  \<^item> \<open>Kalloc\<close>, \<open>Lru\<close>, \<open>Clock\<close>, \<open>Swap\<close> (\<^verbatim>\<open>kalloc.c\<close>, and \<^verbatim>\<open>swapread()\<close>, \<^verbatim>\<open>swapwrite()\<close> of \<^verbatim>\<open>fs.c\<close>): the free list, the list of
    replaceable pages as a list, the choice of the victim, the swap area, the eviction of a page.  That a page comes back
    as it was is in \<open>Vm\<close>, and through the page-fault handler in \<open>Trap\<close>.
  \<^item> \<open>Log\<close>, \<open>Recovery\<close> (\<^verbatim>\<open>log.c\<close>): the space that the log reserves, for interleaved operations; atomicity of a transaction
    for a crash between any two block writes.
  \<^item> \<open>Fs\<close> (\<^verbatim>\<open>fs.c\<close>): every function; inodes in memory are unique, inodes and directory entries survive being written and read,
    paths are split into their elements.
  \<^item> \<open>Uart\<close>, \<open>Console\<close> (\<^verbatim>\<open>uart.c\<close>, \<^verbatim>\<open>printf.c\<close>, \<^verbatim>\<open>console.c\<close>): bytes are sent in order; numbers are printed so that they can be read
    back; line editing as operations on the line.
  \<^item> \<open>File\<close> (\<^verbatim>\<open>file.c\<close>, \<^verbatim>\<open>pipe.c\<close>): a pipe delivers what was written, in order.
  \<^item> \<open>Proc\<close>, \<open>Exec\<close> (\<^verbatim>\<open>proc.c\<close>, second part, \<^verbatim>\<open>exec.c\<close>), \<open>Sysfile\<close>, \<open>Syscall\<close> (the system calls and their dispatcher),
    \<open>Trap\<close> (\<^verbatim>\<open>trap.c\<close>, \<^verbatim>\<open>plic.c\<close>, \<^verbatim>\<open>start.c\<close>, \<^verbatim>\<open>main.c\<close>): the code above, composed as the sources compose it.

  \<^bold>\<open>Bounds.\<close>  Two loops of the code may run for ever and carry a bound, past which their value is \<open>Spin\<close>.  The victim search has
  \<open>CLOCK_BOUND\<close>, twice the number of frames below \<^verbatim>\<open>PHYSTOP\<close> plus one: each turn of the list clears the accessed bit of every
  mapped page, so that a search that has not ended after two turns has met no mapped page and does not end
  (\<open>clock_second_chance\<close>, \<open>clock_spins\<close>).  \<^verbatim>\<open>freewalk()\<close> has \<open>FREEWALK_BOUND\<close>, one more than the number of frames an entry can
  name: a deeper recursion meets one of its own pages again.  Every other loop is a total function with its measure.

  \<^bold>\<open>Parameters.\<close>  Device registers are read through arguments of the definitions, and nothing is assumed of them but what the
  hypotheses of a theorem say (\<open>device_ok\<close> in \<open>Virtio\<close>).  Padding bytes of \<^verbatim>\<open>struct stat\<close> are an argument of \<^verbatim>\<open>syscall()\<close>.

  \<^bold>\<open>Not modelled.\<close>  The assembly (\<^verbatim>\<open>swtch.S\<close>, \<^verbatim>\<open>trampoline.S\<close>, \<^verbatim>\<open>kernelvec.S\<close>, \<^verbatim>\<open>entry.S\<close>) saves and restores registers that are not
  part of the state; the C code sees it as the outcome \<open>Switch\<close> and as the entry of a trap.  Except in \<open>Spinlock\<close> and
  \<open>Log\<close>, code runs on one hart between two switches: other harts change the state only where a
  theorem says so.  Memory is sequentially consistent, and the TLB is never stale.  The components above the disk driver see
  a request as one step (\<open>virtio_disk_rw\<close> of theory \<open>Bio\<close>); the transfer of the data by the device is not in \<open>Virtio\<close>.  The
  program loader's and the shell's side of the system calls, that is the programs of \<^verbatim>\<open>user/\<close>, runs in user mode and reaches
  the kernel only through the calls modelled here; \<^verbatim>\<open>defs.h\<close> is declarations only.
\<close>

end
